(* ===== verification/Prelude.thy ===== *)
theory Prelude
  imports Complex_Main "HOL-Library.AList" "HOL-Library.Word"
begin

text \<open>
  Shared vocabulary of the development: the collections of simplification rules
  (\<open>hm_simps\<close> for hash maps, \<open>fp_bounds\<close> for interval facts on floating-point results,
  \<open>str_eval\<close> for string functions), the machine integer types, the Rust \<open>Result\<close>
  combinators, and hash maps.

  A \<open>HashMap\<close> is an association list with distinct keys. Its iteration order is the
  order of the list; Rust leaves that order unspecified, so every statement about a map is
  made for an arbitrary list. The contract of a map (what a lookup returns after an
  insertion or a removal, and how the size changes) is the locale \<open>kv_map\<close>, interpreted
  for these lists; its part without removal, \<open>kv_lookup\<close>, is also the contract of a JSON
  object under construction.
\<close>

named_theorems hm_simps "lookup, insertion, removal and size of hash maps"
named_theorems fp_bounds "interval facts about floating-point results"
named_theorems str_eval "evaluation of string operations"

type_synonym u8 = "8 word"
type_synonym u16 = "16 word"
type_synonym u32 = "32 word"
type_synonym u64 = "64 word"
type_synonym i32 = "32 word"
type_synonym ('e, 'a) result = "'e + 'a"

section \<open>Results and options\<close>

definition res_bind :: "('e, 'a) result \<Rightarrow> ('a \<Rightarrow> ('e, 'b) result) \<Rightarrow> ('e, 'b) result" where
  "res_bind r k = (case r of Inl e \<Rightarrow> Inl e | Inr x \<Rightarrow> k x)"

definition ok_or :: "'a option \<Rightarrow> 'e \<Rightarrow> ('e, 'a) result" where
  "ok_or x e = (case x of None \<Rightarrow> Inl e | Some v \<Rightarrow> Inr v)"

definition unwrap_or :: "'a option \<Rightarrow> 'a \<Rightarrow> 'a" where
  "unwrap_or x d = (case x of None \<Rightarrow> d | Some v \<Rightarrow> v)"

definition opt_filter :: "('a \<Rightarrow> bool) \<Rightarrow> 'a option \<Rightarrow> 'a option" where
  "opt_filter p x = (case x of None \<Rightarrow> None | Some v \<Rightarrow> if p v then Some v else None)"

lemma res_bind_simps [simp]:
  "res_bind (Inl e) k = Inl e" "res_bind (Inr x) k = k x"
  by (simp_all add: res_bind_def)

lemma res_bind_Inr_iff: "res_bind r k = Inr y \<longleftrightarrow> (\<exists>x. r = Inr x \<and> k x = Inr y)"
  by (cases r) simp_all

lemma ok_or_simps [simp]: "ok_or None e = Inl e" "ok_or (Some v) e = Inr v"
  by (simp_all add: ok_or_def)

lemma ok_or_Inr_iff: "ok_or x e = Inr v \<longleftrightarrow> x = Some v"
  by (cases x) simp_all

lemma unwrap_or_simps [simp]: "unwrap_or None d = d" "unwrap_or (Some v) d = v"
  by (simp_all add: unwrap_or_def)

lemma opt_filter_simps [simp]:
  "opt_filter p None = None" "opt_filter p (Some v) = (if p v then Some v else None)"
  by (simp_all add: opt_filter_def)

lemma opt_filter_Some_iff: "opt_filter p x = Some v \<longleftrightarrow> x = Some v \<and> p v"
  by (cases x) auto

section \<open>Hash maps\<close>

locale kv_lookup =
  fixes empty :: "'m"
    and get :: "'m \<Rightarrow> 'k \<Rightarrow> 'v option"
    and put :: "'k \<Rightarrow> 'v \<Rightarrow> 'm \<Rightarrow> 'm"
  assumes get_empty: "get empty j = None"
    and get_put: "get (put k v m) j = (if j = k then Some v else get m j)"
begin

lemma dom_put: "dom (get (put k v m)) = insert k (dom (get m))"
  by (auto simp: get_put)

lemma get_fold_put:
  "get (foldl (\<lambda>m (k, v). put k v m) m kvs) j =
     (case map_of (rev kvs) j of None \<Rightarrow> get m j | Some v \<Rightarrow> Some v)"
proof (induction kvs arbitrary: m)
  case Nil
  then show ?case by simp
next
  case (Cons kv kvs)
  then show ?case by (cases kv) (auto simp: get_put map_add_def split: option.splits)
qed

lemma get_put_all:
  "get (foldl (\<lambda>m (k, v). put k v m) empty kvs) j = map_of (rev kvs) j"
  by (simp add: get_fold_put get_empty split: option.splits)

end

locale kv_map = kv_lookup empty get put
  for empty :: "'m"
    and get :: "'m \<Rightarrow> 'k \<Rightarrow> 'v option"
    and put :: "'k \<Rightarrow> 'v \<Rightarrow> 'm \<Rightarrow> 'm" +
  fixes del :: "'k \<Rightarrow> 'm \<Rightarrow> 'm"
    and len :: "'m \<Rightarrow> nat"
    and ok :: "'m \<Rightarrow> bool"
  assumes get_del: "get (del k m) j = (if j = k then None else get m j)"
    and ok_empty: "ok empty"
    and ok_put: "ok m \<Longrightarrow> ok (put k v m)"
    and ok_del: "ok m \<Longrightarrow> ok (del k m)"
    and fin_dom: "finite (dom (get m))"
    and len_card: "ok m \<Longrightarrow> len m = card (dom (get m))"
begin

lemma dom_del: "dom (get (del k m)) = dom (get m) - {k}"
  by (auto simp: get_del split: if_splits)

lemma len_put:
  "ok m \<Longrightarrow> len (put k v m) = (if get m k = None then Suc (len m) else len m)"
  by (simp add: len_card ok_put dom_put card_insert_if fin_dom domIff)

lemma len_del:
  "ok m \<Longrightarrow> len (del k m) = (if get m k = None then len m else len m - 1)"
  by (simp add: len_card ok_del dom_del card_Diff_singleton_if fin_dom domIff)

lemma len_put_bounded:
  assumes "ok m" "len m \<le> n" "len m < n \<or> get m k \<noteq> None"
  shows "len (put k v m) \<le> n"
  using assms by (auto simp: len_put)

lemma len_pos: "ok m \<Longrightarrow> get m k = Some v \<Longrightarrow> 0 < len m"
  by (auto simp: len_card card_gt_0_iff fin_dom)

end

type_synonym ('k, 'v) hmap = "('k \<times> 'v) list"

definition hm_empty :: "('k, 'v) hmap" where "hm_empty = []"

definition hm_get :: "('k, 'v) hmap \<Rightarrow> 'k \<Rightarrow> 'v option" where
  "hm_get m k = map_of m k"

definition hm_insert :: "'k \<Rightarrow> 'v \<Rightarrow> ('k, 'v) hmap \<Rightarrow> ('k, 'v) hmap" where
  "hm_insert k v m = AList.update k v m"

definition hm_remove :: "'k \<Rightarrow> ('k, 'v) hmap \<Rightarrow> ('k, 'v) hmap" where
  "hm_remove k m = AList.delete k m"

definition hm_len :: "('k, 'v) hmap \<Rightarrow> nat" where
  "hm_len m = length m"

definition hm_ok :: "('k, 'v) hmap \<Rightarrow> bool" where
  "hm_ok m = distinct (map fst m)"

definition hm_keys :: "('k, 'v) hmap \<Rightarrow> 'k list" where
  "hm_keys m = map fst m"

definition hm_values :: "('k, 'v) hmap \<Rightarrow> 'v list" where
  "hm_values m = map snd m"

interpretation hm: kv_map hm_empty hm_get hm_insert hm_remove hm_len hm_ok
proof unfold_locales
  show "hm_ok m \<Longrightarrow> hm_len m = card (dom (hm_get m))" for m :: "('k, 'v) hmap"
    unfolding hm_ok_def hm_len_def hm_get_def
    by (metis distinct_card dom_map_of_conv_image_fst length_map list.set_map)
  show "finite (dom (hm_get m))" for m :: "('k, 'v) hmap"
    by (simp add: hm_get_def [abs_def] finite_dom_map_of)
qed (auto simp: hm_empty_def hm_get_def hm_insert_def hm_remove_def hm_ok_def
      update_conv' delete_conv' distinct_update distinct_delete)

lemmas hm_gets [hm_simps] = hm.get_empty hm.get_put hm.get_del
lemmas hm_oks [hm_simps, intro] = hm.ok_empty hm.ok_put hm.ok_del

lemma hm_get_keys [hm_simps]: "k \<in> set (hm_keys m) \<longleftrightarrow> hm_get m k \<noteq> None"
  by (simp add: hm_keys_def hm_get_def map_of_eq_None_iff)

lemma hm_get_mem: "hm_get m k = Some v \<Longrightarrow> (k, v) \<in> set m"
  by (simp add: hm_get_def map_of_SomeD)

lemma hm_mem_get: "hm_ok m \<Longrightarrow> (k, v) \<in> set m \<Longrightarrow> hm_get m k = Some v"
  by (simp add: hm_ok_def hm_get_def)

lemma hm_values_iff: "hm_ok m \<Longrightarrow> v \<in> set (hm_values m) \<longleftrightarrow> (\<exists>k. hm_get m k = Some v)"
  by (force simp: hm_values_def dest: hm_get_mem hm_mem_get)

lemma hm_len_0_iff: "hm_len m = 0 \<longleftrightarrow> m = hm_empty"
  by (simp add: hm_len_def hm_empty_def)

end
