(* ===== verification/Rust_Str.thy ===== *)
theory Rust_Str
  imports Prelude "HOL-Library.Sublist" "HOL-Library.Char_ord" "HOL-Library.List_Lexorder"
begin

text \<open>
  The string operations of the Rust standard library that the program uses. A \<open>String\<close>
  or \<open>&str\<close> is its UTF-8 byte sequence, a \<open>char list\<close> (an Isabelle \<open>char\<close> is a
  byte); \<open>String\<close>'s order is the lexicographic order of the bytes.

  The \<open>{:?}\<close> rendering of a string (quotes, escapes, Unicode tables) only ever reaches
  the wording of an error message. It is the parameter \<open>dbg\<close> of the definitions that
  format such a message.
\<close>

section \<open>ASCII case, trimming, lines\<close>

definition byte_of :: "char \<Rightarrow> nat" where
  "byte_of c = of_char c"

definition ascii_lower :: "char \<Rightarrow> char" where
  "ascii_lower c = (if 65 \<le> byte_of c \<and> byte_of c \<le> 90 then char_of (byte_of c + 32) else c)"

definition to_ascii_lowercase :: "string \<Rightarrow> string" where
  "to_ascii_lowercase s = map ascii_lower s"

definition eq_ignore_ascii_case :: "string \<Rightarrow> string \<Rightarrow> bool" where
  "eq_ignore_ascii_case a b \<longleftrightarrow> to_ascii_lowercase a = to_ascii_lowercase b"

lemma ascii_lower_idem [simp]: "ascii_lower (ascii_lower c) = ascii_lower c"
  by (auto simp: ascii_lower_def byte_of_def)

lemma to_ascii_lowercase_idem [simp]:
  "to_ascii_lowercase (to_ascii_lowercase s) = to_ascii_lowercase s"
  by (simp add: to_ascii_lowercase_def)

text \<open>
  Unicode \<open>White_Space\<close> as \<open>char::is_whitespace\<close> has it, in UTF-8: the six ASCII
  characters, U+0085, U+00A0, U+1680, U+2000 to U+200A, U+2028, U+2029, U+202F, U+205F
  and U+3000. \<open>ws_len\<close> is the number of bytes of a white-space character at the head.
\<close>

definition ws3 :: "nat \<Rightarrow> nat \<Rightarrow> nat \<Rightarrow> bool" where
  "ws3 a b c \<longleftrightarrow>
     (a = 225 \<and> b = 154 \<and> c = 128)
   \<or> (a = 226 \<and> b = 128 \<and> (128 \<le> c \<and> c \<le> 138 \<or> c = 168 \<or> c = 169 \<or> c = 175))
   \<or> (a = 226 \<and> b = 129 \<and> c = 159)
   \<or> (a = 227 \<and> b = 128 \<and> c = 128)"

definition ws_byte :: "nat \<Rightarrow> bool" where
  "ws_byte a \<longleftrightarrow> (9 \<le> a \<and> a \<le> 13) \<or> a = 32"

fun trim_start :: "string \<Rightarrow> string" where
  "trim_start [] = []"
| "trim_start (a # s) =
     (if ws_byte (byte_of a) then trim_start s
      else case s of
        [] \<Rightarrow> [a]
      | b # s' \<Rightarrow>
          if byte_of a = 194 \<and> (byte_of b = 133 \<or> byte_of b = 160) then trim_start s'
          else case s' of
            [] \<Rightarrow> [a, b]
          | c # s'' \<Rightarrow>
              if ws3 (byte_of a) (byte_of b) (byte_of c) then trim_start s'' else a # s)"

fun trim_end_rev :: "string \<Rightarrow> string" where
  "trim_end_rev [] = []"
| "trim_end_rev (c # s) =
     (if ws_byte (byte_of c) then trim_end_rev s
      else case s of
        [] \<Rightarrow> [c]
      | b # s' \<Rightarrow>
          if byte_of b = 194 \<and> (byte_of c = 133 \<or> byte_of c = 160) then trim_end_rev s'
          else case s' of
            [] \<Rightarrow> [c, b]
          | a # s'' \<Rightarrow>
              if ws3 (byte_of a) (byte_of b) (byte_of c) then trim_end_rev s'' else c # s)"

definition trim :: "string \<Rightarrow> string" where
  "trim s = rev (trim_end_rev (rev (trim_start s)))"

text \<open>\<open>str::lines\<close>: split after each newline; a line loses its newline and the
  carriage return right before it. A last line without a newline keeps its bytes.\<close>

fun split_nl :: "string \<Rightarrow> string \<Rightarrow> (string \<times> bool) list" where
  "split_nl acc [] = (if acc = [] then [] else [(rev acc, False)])"
| "split_nl acc (c # s) = (if c = CHR 0x0A then (rev acc, True) # split_nl [] s else split_nl (c # acc) s)"

definition strip_cr :: "string \<Rightarrow> string" where
  "strip_cr l = (if l \<noteq> [] \<and> last l = CHR 0x0D then butlast l else l)"

definition lines :: "string \<Rightarrow> string list" where
  "lines s = map (\<lambda>(l, nl). if nl then strip_cr l else l) (split_nl [] s)"

section \<open>Prefixes, splitting, numbers\<close>

definition strip_prefix :: "string \<Rightarrow> string \<Rightarrow> string option" where
  "strip_prefix s p = (if prefix p s then Some (drop (length p) s) else None)"

fun split_once :: "char \<Rightarrow> string \<Rightarrow> (string \<times> string) option" where
  "split_once c [] = None"
| "split_once c (x # s) =
     (if x = c then Some ([], s)
      else case split_once c s of None \<Rightarrow> None | Some (a, b) \<Rightarrow> Some (x # a, b))"

text \<open>\<open>str::contains\<close> for a string pattern.\<close>

fun contains :: "string \<Rightarrow> string \<Rightarrow> bool" where
  "contains [] pat = (pat = [])"
| "contains (c # s) pat = (prefix pat (c # s) \<or> contains s pat)"

lemma contains_middle: "contains (pre @ pat @ post) pat"
proof (induction pre)
  case Nil
  have "prefix pat (pat @ post)" by simp
  then show ?case by (cases "pat @ post") simp_all
qed simp

definition is_digit :: "char \<Rightarrow> bool" where
  "is_digit c \<longleftrightarrow> 48 \<le> byte_of c \<and> byte_of c \<le> 57"

definition digit_val :: "char \<Rightarrow> nat" where
  "digit_val c = byte_of c - 48"

fun read_digits :: "nat \<Rightarrow> string \<Rightarrow> nat option" where
  "read_digits acc [] = Some acc"
| "read_digits acc (c # s) = (if is_digit c then read_digits (10 * acc + digit_val c) s else None)"

text \<open>\<open>u8::from_str\<close>: an optional \<open>+\<close>, then at least one digit, all digits, in range.\<close>

definition parse_u8 :: "string \<Rightarrow> u8 option" where
  "parse_u8 s =
     (let ds = (if s \<noteq> [] \<and> hd s = CHR ''+'' then tl s else s)
      in if ds = [] then None
         else case read_digits 0 ds of
             None \<Rightarrow> None
           | Some n \<Rightarrow> if n \<le> 255 then Some (of_nat n) else None)"

text \<open>Decimal rendering of an integer (\<open>Display\<close>), and the width option \<open>{:0w}\<close>, which
  pads with zeros after the sign.\<close>

definition digit_char :: "nat \<Rightarrow> char" where
  "digit_char d = char_of (48 + d)"

fun dec :: "nat \<Rightarrow> string" where
  "dec n = (if n < 10 then [digit_char n] else dec (n div 10) @ [digit_char (n mod 10)])"

declare dec.simps [simp del]

definition show_int :: "int \<Rightarrow> string" where
  "show_int i = (if i < 0 then CHR ''-'' # dec (nat (- i)) else dec (nat i))"

definition pad0 :: "nat \<Rightarrow> string \<Rightarrow> string" where
  "pad0 w s = replicate (w - length s) (CHR ''0'') @ s"

definition fmt0 :: "nat \<Rightarrow> int \<Rightarrow> string" where
  "fmt0 w i = (if i < 0 then CHR ''-'' # pad0 (w - 1) (dec (nat (- i))) else pad0 w (dec (nat i)))"

definition pad_right :: "nat \<Rightarrow> string \<Rightarrow> string" where
  "pad_right w s = s @ replicate (w - length s) (CHR '' '')"

section \<open>Reading a rendered number back\<close>

lemma digit_char_inverse:
  assumes "d < 10"
  shows "is_digit (digit_char d)" "digit_val (digit_char d) = d"
  using assms by (simp_all add: is_digit_def digit_val_def digit_char_def byte_of_def)

lemma read_digits_append:
  "read_digits acc (s @ t) = (case read_digits acc s of None \<Rightarrow> None | Some n \<Rightarrow> read_digits n t)"
  by (induction acc s rule: read_digits.induct) auto

lemma length_dec_pos [simp]: "0 < length (dec n)"
  by (subst dec.simps) simp

lemma read_digits_dec: "read_digits 0 (dec n) = Some n"
proof (induction n rule: dec.induct)
  case (1 n)
  show ?case
  proof (cases "n < 10")
    case True
    then show ?thesis by (simp add: dec.simps [of n] digit_char_inverse)
  next
    case False
    then show ?thesis using 1 by (simp add: dec.simps [of n] read_digits_append digit_char_inverse)
  qed
qed

lemma read_digits_zeros: "read_digits 0 (replicate k (CHR ''0'') @ s) = read_digits 0 s"
  by (induction k) (simp_all add: is_digit_def digit_val_def byte_of_def)

lemma read_pad0: "read_digits 0 (pad0 w (dec n)) = Some n"
  by (simp add: pad0_def read_digits_zeros read_digits_dec)

lemma length_dec: "n < 10 ^ k \<Longrightarrow> 0 < k \<Longrightarrow> length (dec n) \<le> k"
proof (induction n arbitrary: k rule: dec.induct)
  case (1 n)
  show ?case
  proof (cases "n < 10")
    case True
    then show ?thesis using 1 by (simp add: dec.simps [of n])
  next
    case False
    then obtain j where k: "k = Suc j" "0 < j" using 1 by (cases k; cases "k - 1") auto
    have "n div 10 < 10 ^ j" using 1 k by (simp add: less_mult_imp_div_less mult.commute)
    from 1(1) [OF False this k(2)] show ?thesis using False k by (simp add: dec.simps [of n])
  qed
qed

lemma length_pad0: "length s \<le> w \<Longrightarrow> length (pad0 w s) = w"
  by (simp add: pad0_def)

lemma fmt0_nonneg: "0 \<le> i \<Longrightarrow> fmt0 w i = pad0 w (dec (nat i))"
  by (simp add: fmt0_def)

lemma length_fmt0: "0 \<le> i \<Longrightarrow> i < 10 ^ w \<Longrightarrow> 0 < w \<Longrightarrow> length (fmt0 w i) = w"
  by (simp add: fmt0_nonneg length_pad0 length_dec nat_less_iff)

lemma read_fmt0: "0 \<le> i \<Longrightarrow> read_digits 0 (fmt0 w i) = Some (nat i)"
  by (simp add: fmt0_nonneg read_pad0)

end
