(* ===== verification/Civil.thy ===== *)
theory Civil
  imports Prelude "HOL-Library.Signed_Division"
begin

text \<open>
  The calendar arithmetic of \<open>src/src/logctl.rs\<close> (\<open>iso_timestamp\<close>), and an independent
  definition of the proleptic Gregorian calendar it is compared with: leap years, month
  lengths and the number of a day counted from 1970-01-01.
\<close>

section \<open>The code's conversion from a day number to a date\<close>

text \<open>The divisions of the code: \<open>era\<close> divides an \<open>i64\<close> that may be negative, so it
  truncates (\<open>sdiv\<close>); the others divide \<open>u64\<close> values, or quantities that are never
  negative, where truncation and \<open>div\<close> agree.\<close>

definition civil_from_days :: "int \<Rightarrow> int \<times> int \<times> int" where
  "civil_from_days days =
     (let z = days + 719468;
          era = (if 0 \<le> z then z else z - 146096) sdiv 146097;
          doe = z - era * 146097;
          yoe = (doe - doe div 1460 + doe div 36524 - doe div 146096) div 365;
          y = yoe + era * 400;
          doy = doe - (365 * yoe + yoe div 4 - yoe div 100);
          mp = (5 * doy + 2) div 153;
          d = doy - (153 * mp + 2) div 5 + 1;
          m_num = (if mp < 10 then mp + 3 else mp - 9);
          year = (if m_num \<le> 2 then y + 1 else y)
      in (year, m_num, d))"

section \<open>The calendar\<close>

definition leap :: "int \<Rightarrow> bool" where
  "leap y \<longleftrightarrow> 4 dvd y \<and> (\<not> 100 dvd y \<or> 400 dvd y)"

definition month_days :: "int \<Rightarrow> int \<Rightarrow> int" where
  "month_days y m =
     (if m = 2 then (if leap y then 29 else 28)
      else if m = 4 \<or> m = 6 \<or> m = 9 \<or> m = 11 then 30 else 31)"

definition valid_date :: "int \<times> int \<times> int \<Rightarrow> bool" where
  "valid_date = (\<lambda>(y, m, d). 1 \<le> m \<and> m \<le> 12 \<and> 1 \<le> d \<and> d \<le> month_days y m)"

definition days_before_month :: "int \<Rightarrow> int \<Rightarrow> int" where
  "days_before_month y m = sum_list (map (month_days y) [1..m - 1])"

definition days_before_year :: "int \<Rightarrow> int" where
  "days_before_year y = 365 * (y - 1) + (y - 1) div 4 - (y - 1) div 100 + (y - 1) div 400 - 719162"

definition day_number :: "int \<times> int \<times> int \<Rightarrow> int" where
  "day_number = (\<lambda>(y, m, d). days_before_year y + days_before_month y m + (d - 1))"

section \<open>The year inside a 400-year era\<close>

definition fdays :: "int \<Rightarrow> int" where
  "fdays x = x - x div 1460 + x div 36524 - x div 146096"

definition gdays :: "int \<Rightarrow> int" where
  "gdays y = 365 * y + y div 4 - y div 100 + y div 400"

lemma era_div: "(if 0 \<le> z then z else z - 146096) sdiv 146097 = (z::int) div 146097"
proof (cases "0 \<le> z")
  case True
  then show ?thesis by (cases "z = 0") (simp_all add: signed_divide_int_def)
next
  case False
  define q where "q = (146096 - z) div 146097"
  define r where "r = (146096 - z) mod 146097"
  have "146096 - z = 146097 * q + r" "0 \<le> r" "r < 146097" by (simp_all add: q_def r_def)
  then have "z = 146097 * (- q) + (146096 - r)" "0 \<le> 146096 - r" "146096 - r < 146097" by simp_all
  then have "z div 146097 = - q" by (rule int_div_pos_eq)
  moreover have "(z - 146096) sdiv 146097 = - q" using False by (simp add: signed_divide_int_def q_def sgn_if)
  ultimately show ?thesis using False by simp
qed

lemma step_aux:
  "a' \<le> a + 1 \<Longrightarrow> b \<le> b' \<Longrightarrow> c' = 0 \<Longrightarrow> c = 0 \<Longrightarrow> x - a + b - c \<le> (x + 1) - a' + b' - (c'::int)"
  by simp

lemma fdays_step:
  assumes "0 \<le> x" "x < 146096" shows "fdays x \<le> fdays (x + 1)"
proof (cases "x = 146095")
  case True
  then show ?thesis by (simp add: fdays_def)
next
  case False
  then have c: "(x + 1) div 146096 = 0" "x div 146096 = 0" using assms by simp_all
  have "(x + 1) div 1460 \<le> (x + 1460) div 1460" by (rule zdiv_mono1) auto
  also have "\<dots> = x div 1460 + 1" by (rule div_add_self2) simp
  finally have a: "(x + 1) div 1460 \<le> x div 1460 + 1" .
  have b: "x div 36524 \<le> (x + 1) div 36524" by (rule zdiv_mono1) auto
  show ?thesis unfolding fdays_def by (rule step_aux [OF a b c])
qed

lemma fdays_mono:
  assumes "0 \<le> x" "x \<le> y" "y \<le> 146096" shows "fdays x \<le> fdays y"
  using assms(2,3)
proof (induction y rule: int_ge_induct)
  case base
  then show ?case by simp
next
  case (step i)
  then show ?case using fdays_step [of i] assms(1) by simp
qed

lemma fdays_endpoints:
  "list_all (\<lambda>y. 365 * y \<le> fdays (gdays y) \<and> fdays (gdays (y + 1) - 1) \<le> 365 * y + 364) [0..399]"
  by code_simp

lemma gdays_range: "list_all (\<lambda>y. 0 \<le> gdays y \<and> gdays (y + 1) \<le> 146097) [0..399]"
  by code_simp

lemma gdays_cover:
  assumes "0 \<le> d" "d < gdays (int n)"
  shows "\<exists>y. 0 \<le> y \<and> y < int n \<and> gdays y \<le> d \<and> d < gdays (y + 1)"
  using assms
proof (induction n)
  case 0
  then show ?case by (simp add: gdays_def)
next
  case (Suc n)
  show ?case
  proof (cases "d < gdays (int n)")
    case True
    then obtain y where "0 \<le> y" "y < int n" "gdays y \<le> d" "d < gdays (y + 1)" using Suc by auto
    then show ?thesis by (intro exI [of _ y]) simp
  next
    case False
    then show ?thesis using Suc.prems by (intro exI [of _ "int n"]) (simp add: add.commute)
  qed
qed

lemma fdays_div:
  assumes "0 \<le> y" "y \<le> 399" "gdays y \<le> d" "d < gdays (y + 1)"
  shows "fdays d div 365 = y"
proof -
  have e: "365 * y \<le> fdays (gdays y)" "fdays (gdays (y + 1) - 1) \<le> 365 * y + 364"
    using fdays_endpoints assms(1,2) by (auto simp: list_all_iff)
  have "0 \<le> gdays y" "gdays (y + 1) \<le> 146097"
    using gdays_range assms(1,2) by (auto simp: list_all_iff)
  then have "365 * y \<le> fdays d" "fdays d \<le> 365 * y + 364"
    using e fdays_mono [of "gdays y" d] fdays_mono [of d "gdays (y + 1) - 1"] assms by auto
  then show ?thesis by simp
qed

lemma gdays_era: "gdays (y + e * 400) = gdays y + e * 146097"
proof -
  have "(y + e * 400) div 4 = y div 4 + e * 100"
    using div_mult_self1 [of 4 y "e * 100"] by (simp add: algebra_simps)
  moreover have "(y + e * 400) div 100 = y div 100 + e * 4"
    using div_mult_self1 [of 100 y "e * 4"] by (simp add: algebra_simps)
  moreover have "(y + e * 400) div 400 = y div 400 + e"
    using div_mult_self1 [of 400 y e] by (simp add: algebra_simps)
  ultimately show ?thesis by (simp add: gdays_def)
qed

lemma div_pred: "0 < n \<Longrightarrow> (y - 1) div n = y div n - (if n dvd y then 1 else (0::int))"
  for n :: int
proof -
  assume n: "0 < n"
  define q where "q = y div n"
  define r where "r = y mod n"
  have y: "y = n * q + r" "0 \<le> r" "r < n" using n by (simp_all add: q_def r_def)
  have d: "n dvd y \<longleftrightarrow> r = 0" by (simp add: r_def dvd_eq_mod_eq_0)
  show ?thesis
  proof (cases "r = 0")
    case True
    have "(y - 1) div n = q - 1"
      by (rule int_div_pos_eq [where r = "n - 1"]) (use y True n in \<open>simp_all add: algebra_simps\<close>)
    then show ?thesis using d True by (simp add: q_def)
  next
    case False
    have "(y - 1) div n = q"
      by (rule int_div_pos_eq [where r = "r - 1"]) (use y False in simp_all)
    then show ?thesis using d False by (simp add: q_def)
  qed
qed

lemma gdays_pred: "gdays y = gdays (y - 1) + 365 + (if leap y then 1 else 0)"
proof -
  have "(400::int) dvd y \<Longrightarrow> 100 dvd y" "(100::int) dvd y \<Longrightarrow> 4 dvd y"
    by (auto elim: dvd_trans [rotated])
  then show ?thesis by (simp add: gdays_def div_pred leap_def)
qed

section \<open>The month inside a year that starts in March\<close>

definition mp_of :: "int \<Rightarrow> int" where
  "mp_of doy = (5 * doy + 2) div 153"

definition d_of :: "int \<Rightarrow> int" where
  "d_of doy = doy - (153 * mp_of doy + 2) div 5 + 1"

lemma month_table:
  "list_all (\<lambda>doy.
     let mp = mp_of doy; d = d_of doy
     in 0 \<le> mp \<and> mp \<le> 11 \<and> 1 \<le> d
      \<and> (mp < 10 \<longrightarrow> d \<le> month_days 1 (mp + 3) \<and> days_before_month 1 (mp + 3) + d - 1 = doy + 59)
      \<and> (mp = 10 \<longrightarrow> d \<le> 31 \<and> d - 1 = doy - 306)
      \<and> (mp = 11 \<longrightarrow> d \<le> 29 \<and> (doy < 365 \<longrightarrow> d \<le> 28) \<and> 31 + d - 1 = doy - 306)) [0..365]"
  by code_simp

lemma leap_1 [simp]: "\<not> leap 1"
  by (simp add: leap_def)

lemma month_days_not2: "m \<noteq> 2 \<Longrightarrow> month_days y m = month_days 1 m"
  by (simp add: month_days_def)

lemma days_before_1_2: "days_before_month y 1 = 0" "days_before_month y 2 = 31"
  by (simp_all add: days_before_month_def month_days_def)

lemma days_before_ge3:
  assumes "3 \<le> m"
  shows "days_before_month y m = days_before_month 1 m + (if leap y then 1 else 0)"
proof -
  have "[1..m - 1] = [1, 2] @ [3..m - 1]" using assms by (simp add: upto_rec1)
  then have split: "days_before_month y m =
      month_days y 1 + (month_days y 2 + sum_list (map (month_days y) [3..m - 1]))" for y
    by (simp add: days_before_month_def)
  have tail: "sum_list (map (month_days y) [3..m - 1]) = sum_list (map (month_days 1) [3..m - 1])"
    by (intro arg_cong [where f = sum_list] map_cong refl month_days_not2) auto
  show ?thesis unfolding split tail by (simp add: month_days_def)
qed

section \<open>Correctness\<close>

lemma days_before_year_gdays: "days_before_year y = gdays (y - 1) - 719162"
  by (simp add: days_before_year_def gdays_def)

lemma civil_date_in_year:
  assumes doy: "0 \<le> doy" "doy \<le> 365" and leapy: "doy = 365 \<Longrightarrow> leap (y + 1)"
  defines "m \<equiv> if mp_of doy < 10 then mp_of doy + 3 else mp_of doy - 9"
  defines "Y \<equiv> if m \<le> 2 then y + 1 else y"
  shows "valid_date (Y, m, d_of doy) \<and> day_number (Y, m, d_of doy) = gdays y + doy - 719468"
proof -
  have t: "0 \<le> mp_of doy" "mp_of doy \<le> 11" "1 \<le> d_of doy"
    "mp_of doy < 10 \<Longrightarrow> d_of doy \<le> month_days 1 (mp_of doy + 3) \<and>
       days_before_month 1 (mp_of doy + 3) + d_of doy - 1 = doy + 59"
    "mp_of doy = 10 \<Longrightarrow> d_of doy \<le> 31 \<and> d_of doy - 1 = doy - 306"
    "mp_of doy = 11 \<Longrightarrow> d_of doy \<le> 29 \<and> (doy < 365 \<longrightarrow> d_of doy \<le> 28) \<and> 31 + d_of doy - 1 = doy - 306"
    using month_table doy by (auto simp: list_all_iff Let_def)
  consider (spring) "mp_of doy < 10" | (jan) "mp_of doy = 10" | (feb) "mp_of doy = 11"
    using t(2) by linarith
  then show ?thesis
  proof cases
    case spring
    then have mY: "m = mp_of doy + 3" "Y = y" "3 \<le> m" using t(1) by (simp_all add: m_def Y_def)
    have "d_of doy \<le> month_days y m" using t(4) [OF spring] mY month_days_not2 [of m y] by simp
    moreover have "days_before_year y = gdays y - 365 - (if leap y then 1 else 0) - 719162"
      using gdays_pred [of y] by (simp add: days_before_year_gdays)
    ultimately show ?thesis
      using t(3) t(4) [OF spring] mY spring days_before_ge3 [of m y]
      by (simp add: valid_date_def day_number_def)
  next
    case jan
    then have mY: "m = 1" "Y = y + 1" by (simp_all add: m_def Y_def)
    then show ?thesis using t(3) t(5) [OF jan]
      by (simp add: valid_date_def day_number_def days_before_1_2 days_before_year_gdays month_days_def)
  next
    case feb
    then have mY: "m = 2" "Y = y + 1" by (simp_all add: m_def Y_def)
    have "d_of doy \<le> month_days (y + 1) 2"
      using t(6) [OF feb] leapy doy by (cases "doy = 365") (auto simp: month_days_def)
    then show ?thesis using t(3) t(6) [OF feb] mY
      by (simp add: valid_date_def day_number_def days_before_1_2 days_before_year_gdays)
  qed
qed

lemma civil_from_days_parts:
  obtains era yoe doy where
    "days + 719468 = era * 146097 + gdays yoe + doy" "0 \<le> yoe" "yoe \<le> 399" "0 \<le> doy"
    "gdays yoe + doy < gdays (yoe + 1)"
    "civil_from_days days =
       (let m = (if mp_of doy < 10 then mp_of doy + 3 else mp_of doy - 9)
        in (if m \<le> 2 then yoe + era * 400 + 1 else yoe + era * 400, m, d_of doy))"
proof -
  define z where "z = days + 719468"
  define era where "era = z div 146097"
  define doe where "doe = z mod 146097"
  have z: "z = era * 146097 + doe" by (simp add: era_def doe_def)
  have doe: "0 \<le> doe" "doe < gdays (int 400)" by (simp_all add: doe_def gdays_def)
  obtain yoe where y: "0 \<le> yoe" "yoe \<le> 399" "gdays yoe \<le> doe" "doe < gdays (yoe + 1)"
    using gdays_cover [OF doe] by auto
  have yoe: "(doe - doe div 1460 + doe div 36524 - doe div 146096) div 365 = yoe"
    using fdays_div [OF y] by (simp add: fdays_def)
  have g: "365 * yoe + yoe div 4 - yoe div 100 = gdays yoe"
    using y by (simp add: gdays_def)
  have e: "z - era * 146097 = doe" using z by simp
  have "civil_from_days days =
      (let doy = doe - gdays yoe; m = (if mp_of doy < 10 then mp_of doy + 3 else mp_of doy - 9)
       in (if m \<le> 2 then yoe + era * 400 + 1 else yoe + era * 400, m, d_of doy))"
    unfolding civil_from_days_def Let_def z_def [symmetric] era_div era_def [symmetric] e yoe g
      mp_of_def [symmetric] d_of_def [symmetric] by (rule refl)
  then show thesis using y z
    by (intro that [of era yoe "doe - gdays yoe"]) (simp_all add: z_def Let_def)
qed

lemma civil_correct:
  "valid_date (civil_from_days days) \<and> day_number (civil_from_days days) = days"
proof -
  obtain era yoe doy where p:
    "days + 719468 = era * 146097 + gdays yoe + doy" "0 \<le> yoe" "yoe \<le> 399" "0 \<le> doy"
    "gdays yoe + doy < gdays (yoe + 1)"
    and c: "civil_from_days days =
       (let m = (if mp_of doy < 10 then mp_of doy + 3 else mp_of doy - 9)
        in (if m \<le> 2 then yoe + era * 400 + 1 else yoe + era * 400, m, d_of doy))"
    by (rule civil_from_days_parts)
  have l: "leap (yoe + era * 400 + 1) \<longleftrightarrow> leap (yoe + 1)"
  proof -
    have "yoe + era * 400 + 1 = yoe + 1 + 4 * (era * 100)" "yoe + era * 400 + 1 = yoe + 1 + 100 * (era * 4)"
      "yoe + era * 400 + 1 = yoe + 1 + 400 * era" by simp_all
    then show ?thesis unfolding leap_def by (metis dvd_add_left_iff dvd_triv_left)
  qed
  have s: "gdays (yoe + 1) = gdays yoe + 365 + (if leap (yoe + 1) then 1 else 0)"
    using gdays_pred [of "yoe + 1"] by simp
  have "doy \<le> 365" "doy = 365 \<Longrightarrow> leap (yoe + era * 400 + 1)"
    using p(5) s l by (auto split: if_splits)
  note r = civil_date_in_year [OF p(4) this]
  show ?thesis using r p(1) unfolding c Let_def by (simp add: gdays_era)
qed

end
