(* ===== verification/Logctl.thy ===== *)
theory Logctl
  imports Rust_Str Civil
begin

text \<open>
  \<open>src/src/logctl.rs\<close>: the two runtime-adjustable atomics (log level, mic-log mode), the
  functions that parse, store and name them, the logger itself and its timestamp.
  The state is the record \<open>logctl\<close>, whose fields are the two \<open>AtomicU8\<close> bytes as they
  are stored; every setter returns the new state and its \<open>Result\<close>.
\<close>

section \<open>Levels and modes\<close>

text \<open>\<open>log::Level\<close> and \<open>log::LevelFilter\<close>, with the numeric values the \<open>log\<close> crate
  documents for \<open>as u8\<close> and for the comparison of a level with a filter.\<close>

datatype level = LError | LWarn | LInfo | LDebug | LTrace

datatype level_filter = FOff | FError | FWarn | FInfo | FDebug | FTrace

fun level_num :: "level \<Rightarrow> nat" where
  "level_num LError = 1" | "level_num LWarn = 2" | "level_num LInfo = 3"
| "level_num LDebug = 4" | "level_num LTrace = 5"

fun filter_num :: "level_filter \<Rightarrow> nat" where
  "filter_num FOff = 0" | "filter_num FError = 1" | "filter_num FWarn = 2"
| "filter_num FInfo = 3" | "filter_num FDebug = 4" | "filter_num FTrace = 5"

definition filter_as_u8 :: "level_filter \<Rightarrow> u8" where
  "filter_as_u8 l = of_nat (filter_num l)"

fun level_display :: "level \<Rightarrow> string" where
  "level_display LError = ''ERROR''" | "level_display LWarn = ''WARN''"
| "level_display LInfo = ''INFO''" | "level_display LDebug = ''DEBUG''"
| "level_display LTrace = ''TRACE''"

datatype mic_log_mode = MOff | MixedOnly | SoloOnly | MAll

fun mic_as_u8 :: "mic_log_mode \<Rightarrow> u8" where
  "mic_as_u8 MOff = 0" | "mic_as_u8 MixedOnly = 1" | "mic_as_u8 SoloOnly = 2" | "mic_as_u8 MAll = 3"

definition mic_from_u8 :: "u8 \<Rightarrow> mic_log_mode" where
  "mic_from_u8 v = (if v = 0 then MOff else if v = 1 then MixedOnly else if v = 2 then SoloOnly else MAll)"

fun mic_name :: "mic_log_mode \<Rightarrow> string" where
  "mic_name MOff = ''off''" | "mic_name MixedOnly = ''mixed''"
| "mic_name SoloOnly = ''solo''" | "mic_name MAll = ''all''"

definition level_filter_from_u8 :: "u8 \<Rightarrow> level_filter" where
  "level_filter_from_u8 v =
     (if v = 0 then FOff else if v = 1 then FError else if v = 2 then FWarn
      else if v = 3 then FInfo else if v = 4 then FDebug else FTrace)"

fun level_name :: "level_filter \<Rightarrow> string" where
  "level_name FOff = ''off''" | "level_name FError = ''error''" | "level_name FWarn = ''warn''"
| "level_name FInfo = ''info''" | "level_name FDebug = ''debug''" | "level_name FTrace = ''trace''"

definition parse_level :: "(string \<Rightarrow> string) \<Rightarrow> string \<Rightarrow> (string, level_filter) result" where
  "parse_level dbg s =
     (let other = to_ascii_lowercase s
      in if other = ''off'' then Inr FOff
         else if other = ''error'' then Inr FError
         else if other = ''warn'' then Inr FWarn
         else if other = ''info'' then Inr FInfo
         else if other = ''debug'' then Inr FDebug
         else if other = ''trace'' then Inr FTrace
         else Inl (''unknown level '' @ dbg other @ '': expected off|error|warn|info|debug|trace''))"

definition parse_mic_mode :: "(string \<Rightarrow> string) \<Rightarrow> string \<Rightarrow> (string, mic_log_mode) result" where
  "parse_mic_mode dbg s =
     (let other = to_ascii_lowercase s
      in if other = ''off'' then Inr MOff
         else if other = ''mixed'' then Inr MixedOnly
         else if other = ''solo'' then Inr SoloOnly
         else if other = ''all'' then Inr MAll
         else Inl (''unknown mic-log mode '' @ dbg other @ '': expected off|mixed|solo|all''))"

section \<open>The runtime state\<close>

record logctl =
  LOG_LEVEL :: u8
  MIC_LOG_MODE :: u8

definition logctl_init :: logctl where
  "logctl_init = \<lparr>LOG_LEVEL = filter_as_u8 FError, MIC_LOG_MODE = mic_as_u8 MixedOnly\<rparr>"

definition set_level :: "(string \<Rightarrow> string) \<Rightarrow> string \<Rightarrow> logctl \<Rightarrow> (string, string) result \<times> logctl" where
  "set_level dbg s c =
     (case parse_level dbg s of
        Inl e \<Rightarrow> (Inl e, c)
      | Inr lvl \<Rightarrow> (Inr (level_name lvl), c\<lparr>LOG_LEVEL := filter_as_u8 lvl\<rparr>))"

definition get_level :: "logctl \<Rightarrow> string" where
  "get_level c = level_name (level_filter_from_u8 (LOG_LEVEL c))"

definition set_mic_mode :: "(string \<Rightarrow> string) \<Rightarrow> string \<Rightarrow> logctl \<Rightarrow> (string, string) result \<times> logctl" where
  "set_mic_mode dbg s c =
     (case parse_mic_mode dbg s of
        Inl e \<Rightarrow> (Inl e, c)
      | Inr mode \<Rightarrow> (Inr (mic_name mode), c\<lparr>MIC_LOG_MODE := mic_as_u8 mode\<rparr>))"

definition get_mic_mode :: "logctl \<Rightarrow> string" where
  "get_mic_mode c = mic_name (mic_from_u8 (MIC_LOG_MODE c))"

definition mic_log_allowed :: "logctl \<Rightarrow> bool \<Rightarrow> bool" where
  "mic_log_allowed c mixed =
     (case mic_from_u8 (MIC_LOG_MODE c) of
        MOff \<Rightarrow> False | MixedOnly \<Rightarrow> mixed | SoloOnly \<Rightarrow> \<not> mixed | MAll \<Rightarrow> True)"

section \<open>The logger\<close>

text \<open>The wall clock is an input: seconds since the epoch (a \<open>u64\<close>, cast to \<open>i64\<close>) and
  milliseconds.\<close>

definition iso_timestamp :: "u64 \<Rightarrow> nat \<Rightarrow> string" where
  "iso_timestamp as_secs millis =
     (let secs = sint as_secs;
          days = secs div 86400;
          sod = secs mod 86400;
          h = sod div 3600; m = (sod div 60) mod 60; s = sod mod 60
      in case civil_from_days days of
           (year, m_num, d) \<Rightarrow>
             fmt0 4 year @ ''-'' @ fmt0 2 m_num @ ''-'' @ fmt0 2 d @ ''T'' @
             fmt0 2 h @ '':'' @ fmt0 2 m @ '':'' @ fmt0 2 s @ ''.'' @ fmt0 3 (int millis) @ ''Z'')"

definition log_enabled :: "logctl \<Rightarrow> level \<Rightarrow> bool" where
  "log_enabled c l \<longleftrightarrow> level_num l \<le> filter_num (level_filter_from_u8 (LOG_LEVEL c))"

record log_record =
  rec_level :: level
  rec_target :: string
  rec_args :: string

definition log_line :: "u64 \<Rightarrow> nat \<Rightarrow> log_record \<Rightarrow> string" where
  "log_line secs millis r =
     ''['' @ iso_timestamp secs millis @ '' '' @ pad_right 5 (level_display (rec_level r)) @ '' '' @
     rec_target r @ ''] '' @ rec_args r @ [CHR 0x0A]"

text \<open>\<open>Log::log\<close>: the bytes written to standard error, if any.\<close>

definition log_log :: "logctl \<Rightarrow> u64 \<Rightarrow> nat \<Rightarrow> log_record \<Rightarrow> string option" where
  "log_log c secs millis r =
     (if \<not> log_enabled c (rec_level r) then None else Some (log_line secs millis r))"

section \<open>Parsing, storing and naming\<close>

lemma filter_from_as [simp]: "level_filter_from_u8 (filter_as_u8 l) = l"
  by (cases l) (simp_all add: level_filter_from_u8_def filter_as_u8_def)

lemma mic_from_as [simp]: "mic_from_u8 (mic_as_u8 m) = m"
  by (cases m) (simp_all add: mic_from_u8_def)

lemma parse_level_name: "parse_level dbg s = Inr l \<Longrightarrow> level_name l = to_ascii_lowercase s"
  by (auto simp: parse_level_def Let_def split: if_splits)

lemma parse_level_of_name:
  "to_ascii_lowercase s = level_name l \<Longrightarrow> parse_level dbg s = Inr l"
  by (cases l) (simp_all add: parse_level_def Let_def)

lemma parse_mic_name: "parse_mic_mode dbg s = Inr m \<Longrightarrow> mic_name m = to_ascii_lowercase s"
  by (auto simp: parse_mic_mode_def Let_def split: if_splits)

lemma parse_mic_of_name:
  "to_ascii_lowercase s = mic_name m \<Longrightarrow> parse_mic_mode dbg s = Inr m"
  by (cases m) (simp_all add: parse_mic_mode_def Let_def)

lemma get_level_store: "get_level (c\<lparr>LOG_LEVEL := filter_as_u8 l\<rparr>) = level_name l"
  by (simp add: get_level_def)

lemma get_mic_store: "get_mic_mode (c\<lparr>MIC_LOG_MODE := mic_as_u8 m\<rparr>) = mic_name m"
  by (simp add: get_mic_mode_def)

text \<open>Setting the log level is all or nothing. When the lower-cased argument is a level name
  the setter answers that name, the getter reports it, records of at most that level are
  printed and no others, and the mic-log mode is untouched; otherwise it answers an error and
  the state is unchanged.\<close>

theorem set_level_sound:
  "case set_level dbg s c of
     (Inr n, c') \<Rightarrow> n = to_ascii_lowercase s \<and> get_level c' = n \<and> MIC_LOG_MODE c' = MIC_LOG_MODE c
                   \<and> (\<exists>l. level_name l = n \<and> (\<forall>r secs ms. log_log c' secs ms r \<noteq> None \<longleftrightarrow> level_num (rec_level r) \<le> filter_num l))
   | (Inl e, c') \<Rightarrow> c' = c \<and> to_ascii_lowercase s \<notin> range level_name"
proof (cases "parse_level dbg s")
  case (Inl e)
  then have "to_ascii_lowercase s \<noteq> level_name l" for l
    using parse_level_of_name [of s l dbg] by auto
  then show ?thesis using Inl by (auto simp: set_level_def)
next
  case (Inr l)
  then have "level_name l = to_ascii_lowercase s" by (rule parse_level_name)
  then show ?thesis using Inr
    by (auto simp: set_level_def get_level_store log_log_def log_enabled_def intro!: exI [of _ l])
qed

lemma mic_allowed_store:
  "mic_log_allowed (c\<lparr>MIC_LOG_MODE := mic_as_u8 m\<rparr>) mixed =
     (case m of MOff \<Rightarrow> False | MixedOnly \<Rightarrow> mixed | SoloOnly \<Rightarrow> \<not> mixed | MAll \<Rightarrow> True)"
  by (simp add: mic_log_allowed_def)

text \<open>Setting the mic-log mode is all or nothing, and afterwards the per-tick decision logs a
  transition in a shared room exactly for the modes "mixed" and "all", and in a solo room exactly
  for "solo" and "all".\<close>

theorem set_mic_mode_sound:
  "case set_mic_mode dbg s c of
     (Inr n, c') \<Rightarrow> n = to_ascii_lowercase s \<and> get_mic_mode c' = n \<and> LOG_LEVEL c' = LOG_LEVEL c
        \<and> (mic_log_allowed c' True \<longleftrightarrow> n = ''mixed'' \<or> n = ''all'')
        \<and> (mic_log_allowed c' False \<longleftrightarrow> n = ''solo'' \<or> n = ''all'')
   | (Inl e, c') \<Rightarrow> c' = c \<and> to_ascii_lowercase s \<notin> range mic_name"
proof (cases "parse_mic_mode dbg s")
  case (Inl e)
  then have "to_ascii_lowercase s \<noteq> mic_name m" for m
    using parse_mic_of_name [of s m dbg] by auto
  then show ?thesis using Inl by (auto simp: set_mic_mode_def)
next
  case (Inr m)
  then have "to_ascii_lowercase s = mic_name m" by (rule parse_mic_name [symmetric])
  then show ?thesis
    by (simp add: set_mic_mode_def Inr get_mic_store mic_allowed_store) (cases m; simp)
qed

section \<open>The timestamp\<close>

text \<open>Reading the fixed columns of a timestamp back, the calendar shape its consumers rely on.\<close>

definition parse_iso :: "string \<Rightarrow> (int \<times> int \<times> int \<times> int \<times> int \<times> int \<times> int) option" where
  "parse_iso t =
     (if length t = 24 \<and> t ! 4 = CHR ''-'' \<and> t ! 7 = CHR ''-'' \<and> t ! 10 = CHR ''T'' \<and> t ! 13 = CHR '':''
         \<and> t ! 16 = CHR '':'' \<and> t ! 19 = CHR ''.'' \<and> t ! 23 = CHR ''Z''
      then case (read_digits 0 (take 4 t), read_digits 0 (take 2 (drop 5 t)), read_digits 0 (take 2 (drop 8 t)),
                 read_digits 0 (take 2 (drop 11 t)), read_digits 0 (take 2 (drop 14 t)),
                 read_digits 0 (take 2 (drop 17 t)), read_digits 0 (take 3 (drop 20 t))) of
             (Some y, Some mo, Some d, Some h, Some mi, Some s, Some ms) \<Rightarrow>
               Some (int y, int mo, int d, int h, int mi, int s, int ms)
           | _ \<Rightarrow> None
      else None)"

lemma parse_iso_layout:
  assumes "length y = 4" "length mo = 2" "length d = 2" "length h = 2" "length mi = 2" "length s = 2" "length ms = 3"
    and "read_digits 0 y = Some yv" "read_digits 0 mo = Some mov" "read_digits 0 d = Some dv"
    "read_digits 0 h = Some hv" "read_digits 0 mi = Some miv" "read_digits 0 s = Some sv" "read_digits 0 ms = Some msv"
  shows "parse_iso (y @ ''-'' @ mo @ ''-'' @ d @ ''T'' @ h @ '':'' @ mi @ '':'' @ s @ ''.'' @ ms @ ''Z'')
     = Some (int yv, int mov, int dv, int hv, int miv, int sv, int msv)"
  using assms by (simp add: parse_iso_def nth_append)

lemma gdays_le: "x \<le> y \<Longrightarrow> gdays x \<le> gdays y"
proof (induction y rule: int_ge_induct)
  case base
  then show ?case by simp
next
  case (step i)
  then show ?case using gdays_pred [of "i + 1"] by simp
qed

lemma day_in_year:
  assumes "valid_date (y, m, d)"
  shows "days_before_year y \<le> day_number (y, m, d)" "day_number (y, m, d) < days_before_year (y + 1)"
proof -
  have m: "m \<in> set [1..12]" using assms by (simp add: valid_date_def)
  have b: "0 \<le> days_before_month y m \<and> days_before_month y m + month_days y m \<le> 365 + (if leap y then 1 else 0)"
    using m by (simp add: upto_rec1 days_before_month_def month_days_def) (elim disjE; simp add: upto_rec1 month_days_def)
  have "days_before_year (y + 1) = days_before_year y + 365 + (if leap y then 1 else 0)"
    using gdays_pred [of y] by (simp add: days_before_year_gdays)
  then show "days_before_year y \<le> day_number (y, m, d)" "day_number (y, m, d) < days_before_year (y + 1)"
    using b assms by (auto simp: day_number_def valid_date_def)
qed

lemma civil_year_range:
  assumes "0 \<le> days" "days < 2932897" "civil_from_days days = (y, m, d)"
  shows "0 \<le> y" "y < 10000"
proof -
  have v: "valid_date (y, m, d)" "day_number (y, m, d) = days"
    using civil_correct [of days] assms(3) by auto
  have lo: "gdays (y - 1) - 719162 \<le> days" "days < gdays y - 719162"
    using day_in_year [OF v(1)] v(2) by (simp_all add: days_before_year_gdays)
  show "0 \<le> y"
  proof (rule ccontr)
    assume "\<not> 0 \<le> y"
    then have "gdays y \<le> gdays (- 1)" by (intro gdays_le) simp
    then show False using lo(2) assms(1) by (simp add: gdays_def)
  qed
  show "y < 10000"
  proof (rule ccontr)
    assume "\<not> y < 10000"
    then have "gdays 9999 \<le> gdays (y - 1)" by (intro gdays_le) simp
    then show False using lo(1) assms(2) by (simp add: gdays_def)
  qed
qed

lemma base60: "p * 60 + q = r \<Longrightarrow> r * 60 + s = t \<Longrightarrow> p * 3600 + q * 60 + s = (t::int)"
  by simp

text \<open>C31. For every clock reading from 1970 to the end of 9999 the timestamp has the fixed layout
  \<open>YYYY-MM-DDTHH:MM:SS.mmmZ\<close>, and reading its fields back gives a valid Gregorian date and
  time of day that denote exactly the second the clock showed, with its milliseconds.\<close>

theorem iso_timestamp_correct:
  assumes "0 \<le> sint secs" "sint secs < 253402300800" "ms < 1000"
  shows "\<exists>y mo d h mi s.
    parse_iso (iso_timestamp secs ms) = Some (y, mo, d, h, mi, s, int ms)
    \<and> valid_date (y, mo, d) \<and> 0 \<le> h \<and> h < 24 \<and> 0 \<le> mi \<and> mi < 60 \<and> 0 \<le> s \<and> s < 60
    \<and> day_number (y, mo, d) * 86400 + h * 3600 + mi * 60 + s = sint secs"
proof -
  define days where "days = sint secs div 86400"
  define sod where "sod = sint secs mod 86400"
  define h where "h = sod div 3600"
  define mi where "mi = sod div 60 mod 60"
  define s where "s = sod mod 60"
  obtain y mo d where c: "civil_from_days days = (y, mo, d)" by (metis surj_pair)
  have v: "valid_date (y, mo, d)" "day_number (y, mo, d) = days"
    using civil_correct [of days] c by auto
  have days: "0 \<le> days" "days < 2932897" using assms unfolding days_def by linarith+
  note yr = civil_year_range [OF days c]
  have sod: "0 \<le> sod" "sod < 86400" by (simp_all add: sod_def)
  have t: "0 \<le> h" "h < 24" "0 \<le> mi" "mi < 60" "0 \<le> s" "s < 60"
    using sod unfolding h_def mi_def s_def by (simp_all add: pos_imp_zdiv_nonneg_iff)
  have md: "0 \<le> mo" "mo < 100" "0 \<le> d" "d < 100"
    using v(1) by (auto simp: valid_date_def month_days_def split: if_splits)
  have ts: "iso_timestamp secs ms =
     fmt0 4 y @ ''-'' @ fmt0 2 mo @ ''-'' @ fmt0 2 d @ ''T'' @ fmt0 2 h @ '':'' @
     fmt0 2 mi @ '':'' @ fmt0 2 s @ ''.'' @ fmt0 3 (int ms) @ ''Z''"
    using c by (simp add: iso_timestamp_def Let_def days_def sod_def h_def mi_def s_def)
  have p: "parse_iso (iso_timestamp secs ms) =
     Some (int (nat y), int (nat mo), int (nat d), int (nat h), int (nat mi), int (nat s), int (nat (int ms)))"
    unfolding ts by (rule parse_iso_layout) (use yr t md assms(3) in \<open>simp_all add: length_fmt0 read_fmt0\<close>)
  have "sod div 60 div 60 = h" unfolding h_def by (simp add: zdiv_zmult2_eq [symmetric])
  then have "h * 3600 + mi * 60 + s = sod"
    using base60 [OF div_mult_mod_eq [of "sod div 60" 60] div_mult_mod_eq [of sod 60]]
    by (simp only: mi_def s_def)
  moreover have "days * 86400 + sod = sint secs" by (simp add: days_def sod_def)
  ultimately have total: "day_number (y, mo, d) * 86400 + h * 3600 + mi * 60 + s = sint secs"
    unfolding v(2) by (simp only: add.assoc)
  show ?thesis
    using p v(1) t total yr(1) md(1,3)
    by (intro exI [of _ y] exI [of _ mo] exI [of _ d] exI [of _ h] exI [of _ mi] exI [of _ s]) simp
qed

theorem iso_timestamp_correct_witness:
  "\<exists>y mo d h mi s.
    parse_iso (iso_timestamp 1700000000 5) = Some (y, mo, d, h, mi, s, 5)
    \<and> valid_date (y, mo, d) \<and> 0 \<le> h \<and> h < 24 \<and> 0 \<le> mi \<and> mi < 60 \<and> 0 \<le> s \<and> s < 60
    \<and> day_number (y, mo, d) * 86400 + h * 3600 + mi * 60 + s = 1700000000"
  using iso_timestamp_correct [of 1700000000 5] by simp

end
