(* ===== verification/Ieee.thy ===== *)
theory Ieee
  imports Prelude
begin

text \<open>
  IEEE 754 binary arithmetic, as Rust's \<open>f32\<close> and \<open>f64\<close> have it: a value is NaN, an
  infinity (\<open>FInf True\<close> is the negative one) or a finite real, and an operation on finite
  values is the exact result rounded to nearest, ties to even, to the precision of the format
  (24 or 53 bits), with gradual underflow and with overflow to an infinity. Every rounding is
  computed (\<open>rnd_real\<close>), so closed terms evaluate.

  Two things are left out, because no code of the program can observe them: the sign of zero
  (a division by zero, the only operation it matters for here, never happens: the program's
  divisors are positive constants, a length and two distances known to be nonzero) and NaN
  payloads. \<open>sin\<close>, \<open>cos\<close> and \<open>tanh\<close> have unspecified precision in Rust and are the
  fields of the parameter record \<open>libm\<close>.

  The lemmas show that rounding is monotone, fixes the representable numbers and errs by at
  most half a unit in the last place; \<open>fbetween\<close> facts carry intervals through operations.
\<close>

section \<open>Formats and rounding\<close>

datatype fp = FNaN | FInf bool | Fin real

datatype fmt = F32 | F64

definition prec :: "fmt \<Rightarrow> int" where
  "prec f = (case f of F32 \<Rightarrow> 24 | F64 \<Rightarrow> 53)"

definition emin :: "fmt \<Rightarrow> int" where
  "emin f = (case f of F32 \<Rightarrow> -126 | F64 \<Rightarrow> -1022)"

definition emax :: "fmt \<Rightarrow> int" where
  "emax f = (case f of F32 \<Rightarrow> 127 | F64 \<Rightarrow> 1023)"

definition pow2 :: "int \<Rightarrow> real" where
  "pow2 i = 2 powi i"

definition maxfin :: "fmt \<Rightarrow> real" where
  "maxfin f = (2 - pow2 (1 - prec f)) * pow2 (emax f)"

text \<open>The exponent of a nonzero number, the \<open>k\<close> with \<open>2^k \<le> |x| < 2^(k+1)\<close>: the binary
  logarithm of the integer part, or of the integer part of the reciprocal.\<close>

function ilog :: "int \<Rightarrow> int" where
  "ilog n = (if n \<le> 1 then 0 else 1 + ilog (n div 2))"
  by pat_completeness auto
termination
  by (relation "measure nat") auto

declare ilog.simps [simp del]

definition bexp :: "real \<Rightarrow> int" where
  "bexp x =
     (if 1 \<le> \<bar>x\<bar> then ilog \<lfloor>\<bar>x\<bar>\<rfloor> else - ilog (\<lceil>1 / \<bar>x\<bar>\<rceil> - 1) - 1)"

definition qexp :: "fmt \<Rightarrow> real \<Rightarrow> int" where
  "qexp f x = max (bexp x) (emin f) - (prec f - 1)"

definition rne :: "real \<Rightarrow> int" where
  "rne y =
     (let n = \<lfloor>y\<rfloor>; d = y - of_int n
      in if d < 1 / 2 then n
         else if 1 / 2 < d then n + 1
         else if even n then n else n + 1)"

definition rnd_real :: "fmt \<Rightarrow> real \<Rightarrow> real" where
  "rnd_real f x = (if x = 0 then 0 else of_int (rne (x / pow2 (qexp f x))) * pow2 (qexp f x))"

definition rnd :: "fmt \<Rightarrow> real \<Rightarrow> fp" where
  "rnd f x = (let r = rnd_real f x in if maxfin f < \<bar>r\<bar> then FInf (r < 0) else Fin r)"

section \<open>Powers of two and exponents\<close>

lemma pow2_pos [simp]: "0 < pow2 i"
  by (simp add: pow2_def)

lemma pow2_nonneg [simp]: "0 \<le> pow2 i"
  by (simp add: less_imp_le)

lemma pow2_neq0 [simp]: "pow2 i \<noteq> 0"
  using pow2_pos [of i] by linarith

lemma pow2_add: "pow2 (i + j) = pow2 i * pow2 j"
  by (simp add: pow2_def power_int_add)

lemma pow2_0 [simp]: "pow2 0 = 1" and pow2_1 [simp]: "pow2 1 = 2"
  by (simp_all add: pow2_def)

lemma pow2_succ: "pow2 (i + 1) = 2 * pow2 i"
  by (simp add: pow2_add)

lemma pow2_minus: "pow2 (- i) = 1 / pow2 i"
  by (simp add: pow2_def power_int_minus field_simps)

lemma pow2_diff: "pow2 (i - j) = pow2 i / pow2 j"
  using pow2_add [of i "- j"] by (simp add: pow2_minus)

lemma pow2_nat: "pow2 (int n) = 2 ^ n"
  by (simp add: pow2_def)

lemma pow2_strict_mono: "i < j \<Longrightarrow> pow2 i < pow2 j"
  unfolding pow2_def by (rule power_int_strict_increasing) simp_all

lemma pow2_less_iff [simp]: "pow2 i < pow2 j \<longleftrightarrow> i < j"
  using pow2_strict_mono [of i j] pow2_strict_mono [of j i] by (cases i j rule: linorder_cases) auto

lemma pow2_le_iff [simp]: "pow2 i \<le> pow2 j \<longleftrightarrow> i \<le> j"
  by (simp add: not_less [symmetric])

lemma pow2_mono: "i \<le> j \<Longrightarrow> pow2 i \<le> pow2 j"
  by simp

lemma pow2_code [code]:
  "pow2 i = (if 0 \<le> i then of_int (2 ^ nat i) else 1 / of_int (2 ^ nat (- i)))"
  using pow2_nat [of "nat i"] pow2_nat [of "nat (- i)"] pow2_minus [of "- i"] by (cases "0 \<le> i") simp_all

lemma ilog_bounds:
  assumes "1 \<le> n"
  shows "0 \<le> ilog n \<and> pow2 (ilog n) \<le> of_int n \<and> of_int n + 1 \<le> pow2 (ilog n + 1)"
  using assms
proof (induction n rule: ilog.induct)
  case (1 n)
  show ?case
  proof (cases "n \<le> 1")
    case True
    then have "n = 1" using 1 by simp
    then show ?thesis by (simp add: ilog.simps)
  next
    case False
    define m where "m = n div 2"
    have m: "n = 2 * m \<or> n = 2 * m + 1" "1 \<le> m" using False by (auto simp: m_def)
    then have "real_of_int n = 2 * of_int m \<or> real_of_int n = 2 * of_int m + 1" by auto
    moreover have "0 \<le> ilog m \<and> pow2 (ilog m) \<le> of_int m \<and> of_int m + 1 \<le> pow2 (ilog m + 1)"
      using 1(1) [OF False] m(2) by (simp add: m_def)
    moreover have i: "ilog n = ilog m + 1" using False by (simp add: ilog.simps [of n] m_def)
    moreover have "pow2 (ilog n + 1) = 2 * pow2 (ilog m + 1)" unfolding i by (rule pow2_succ)
    moreover have "pow2 (ilog n) = 2 * pow2 (ilog m)" unfolding i by (rule pow2_succ)
    ultimately show ?thesis by linarith
  qed
qed

lemma bexp_bounds:
  assumes "x \<noteq> 0"
  shows "pow2 (bexp x) \<le> \<bar>x\<bar>" "\<bar>x\<bar> < pow2 (bexp x + 1)"
proof -
  have "pow2 (bexp x) \<le> \<bar>x\<bar> \<and> \<bar>x\<bar> < pow2 (bexp x + 1)"
  proof (cases "1 \<le> \<bar>x\<bar>")
    case True
    define n where "n = \<lfloor>\<bar>x\<bar>\<rfloor>"
    from True have n1: "1 \<le> n" by (simp add: n_def le_floor_iff)
    have nx: "of_int n \<le> \<bar>x\<bar>" "\<bar>x\<bar> < of_int n + 1" unfolding n_def by linarith+
    have "bexp x = ilog n" using True by (simp add: bexp_def n_def)
    then show ?thesis using nx ilog_bounds [OF n1] by auto
  next
    case False
    define y where "y = 1 / \<bar>x\<bar>"
    define n where "n = \<lceil>y\<rceil> - 1"
    have y1: "1 < y" using False assms by (simp add: y_def)
    have n1: "1 \<le> n" using y1 unfolding n_def by linarith
    have ny: "of_int n < y" "y \<le> of_int n + 1" unfolding n_def by linarith+
    note k = ilog_bounds [OF n1]
    have b: "bexp x = - (ilog n + 1)" "bexp x + 1 = - ilog n"
      using False by (simp_all add: bexp_def n_def y_def)
    have x: "\<bar>x\<bar> = 1 / y" by (simp add: y_def)
    have "1 / pow2 (ilog n + 1) \<le> 1 / y" using ny k y1 by (intro divide_left_mono) auto
    moreover have "1 / y < 1 / pow2 (ilog n)" using ny k y1 by (intro divide_strict_left_mono) auto
    moreover have "pow2 (bexp x) = 1 / pow2 (ilog n + 1)" unfolding b(1) by (rule pow2_minus)
    moreover have "pow2 (bexp x + 1) = 1 / pow2 (ilog n)" unfolding b(2) by (rule pow2_minus)
    ultimately show ?thesis using x by simp
  qed
  then show "pow2 (bexp x) \<le> \<bar>x\<bar>" "\<bar>x\<bar> < pow2 (bexp x + 1)" by auto
qed


lemma bexp_unique:
  assumes "pow2 k \<le> \<bar>x\<bar>" "\<bar>x\<bar> < pow2 (k + 1)"
  shows "bexp x = k"
proof -
  have "x \<noteq> 0" using assms(1) pow2_pos [of k] by (auto simp: not_le [symmetric])
  note b = bexp_bounds [OF this]
  have "pow2 k < pow2 (bexp x + 1)" "pow2 (bexp x) < pow2 (k + 1)"
    using assms b by linarith+
  then show ?thesis by simp
qed

lemma bexp_less:
  assumes "x \<noteq> 0" "\<bar>x\<bar> < pow2 k"
  shows "bexp x < k"
  using bexp_bounds(1) [OF assms(1)] assms(2) pow2_less_iff [of "bexp x" k] by linarith

lemma bexp_mono:
  assumes "x \<noteq> 0" "\<bar>x\<bar> \<le> \<bar>y\<bar>"
  shows "bexp x \<le> bexp y"
proof -
  have "y \<noteq> 0" using assms by auto
  then have "pow2 (bexp x) < pow2 (bexp y + 1)"
    using bexp_bounds(1) [OF assms(1)] bexp_bounds(2) [of y] assms(2) by linarith
  then show ?thesis by simp
qed

lemma bexp_minus [simp]: "bexp (- x) = bexp x"
  by (simp add: bexp_def)

section \<open>Rounding is monotone and accurate\<close>

lemma rne_of_int [simp]: "rne (of_int n) = n"
  by (simp add: rne_def)

lemma rne_mono:
  assumes "x \<le> y" shows "rne x \<le> rne y"
proof (cases "\<lfloor>x\<rfloor> < \<lfloor>y\<rfloor>")
  case True
  then show ?thesis by (simp add: rne_def Let_def)
next
  case False
  then have "\<lfloor>x\<rfloor> = \<lfloor>y\<rfloor>" using floor_mono [OF assms] by simp
  then show ?thesis using assms by (simp add: rne_def Let_def)
qed

lemma rne_error: "\<bar>of_int (rne x) - x\<bar> \<le> 1 / 2"
proof -
  define d where "d = x - of_int \<lfloor>x\<rfloor>"
  have d: "0 \<le> d" "d < 1" unfolding d_def by linarith+
  have x: "x = of_int \<lfloor>x\<rfloor> + d" by (simp add: d_def)
  have "of_int (rne x) - x = - d \<and> d \<le> 1 / 2 \<or> of_int (rne x) - x = 1 - d \<and> 1 / 2 \<le> d"
    by (auto simp: rne_def Let_def d_def [symmetric]) (auto simp: d_def)
  then show ?thesis using d by auto
qed

lemma rne_le: "x \<le> of_int n \<Longrightarrow> real_of_int (rne x) \<le> of_int n"
  using rne_mono [of x "of_int n"] by simp

lemma rne_ge: "of_int n \<le> x \<Longrightarrow> of_int n \<le> real_of_int (rne x)"
  using rne_mono [of "of_int n" x] by simp

lemma rne_minus [simp]: "rne (- x) = - rne x"
proof (cases "x = of_int \<lfloor>x\<rfloor>")
  case True
  then have "rne x = \<lfloor>x\<rfloor>" "rne (- x) = - \<lfloor>x\<rfloor>"
    using rne_of_int [of "\<lfloor>x\<rfloor>"] rne_of_int [of "- \<lfloor>x\<rfloor>"] by simp_all
  then show ?thesis by simp
next
  case False
  define n where "n = \<lfloor>x\<rfloor>"
  have n: "of_int n < x" "x < of_int n + 1" using False unfolding n_def by linarith+
  have m: "\<lfloor>- x\<rfloor> = - n - 1" using n by (intro floor_unique) auto
  show ?thesis unfolding rne_def m Let_def using n by (auto simp: n_def [symmetric])
qed

lemma qexp_ge: "emin f - (prec f - 1) \<le> qexp f x" "bexp x - (prec f - 1) \<le> qexp f x"
  by (simp_all add: qexp_def)

lemma qexp_minus [simp]: "qexp f (- x) = qexp f x"
  by (simp add: qexp_def)

lemma rnd_real_0 [simp]: "rnd_real f 0 = 0"
  by (simp add: rnd_real_def)

lemma rnd_real_minus [simp]: "rnd_real f (- x) = - rnd_real f x"
  by (simp add: rnd_real_def)

lemma rnd_real_error: "\<bar>rnd_real f x - x\<bar> \<le> pow2 (qexp f x) / 2"
proof (cases "x = 0")
  case False
  let ?q = "pow2 (qexp f x)"
  have "rnd_real f x - x = (of_int (rne (x / ?q)) - x / ?q) * ?q"
    using False by (simp add: rnd_real_def left_diff_distrib)
  then have "\<bar>rnd_real f x - x\<bar> = \<bar>of_int (rne (x / ?q)) - x / ?q\<bar> * ?q"
    by (simp add: abs_mult)
  also have "\<dots> \<le> 1 / 2 * ?q" by (intro mult_right_mono rne_error) simp
  finally show ?thesis by simp
qed simp

definition repr :: "fmt \<Rightarrow> real \<Rightarrow> bool" where
  "repr f x \<longleftrightarrow> (\<exists>m e. x = of_int m * pow2 e \<and> \<bar>m\<bar> < 2 ^ nat (prec f) \<and> emin f - (prec f - 1) \<le> e)"

lemma prec_pos: "2 \<le> prec f"
  by (cases f) (simp_all add: prec_def)

lemma rnd_real_repr:
  assumes "repr f x" shows "rnd_real f x = x"
proof (cases "x = 0")
  case False
  obtain m e where x: "x = of_int m * pow2 e" and m: "\<bar>m\<bar> < 2 ^ nat (prec f)"
    and e: "emin f - (prec f - 1) \<le> e" using assms by (auto simp: repr_def)
  have "\<bar>real_of_int m\<bar> < pow2 (prec f)"
    using m prec_pos [of f] pow2_nat [of "nat (prec f)"] by (simp flip: of_int_less_iff [where 'a = real])
  then have "\<bar>x\<bar> < pow2 (prec f + e)" by (simp add: x abs_mult pow2_add)
  from bexp_less [OF False this] have q: "qexp f x \<le> e" using e by (simp add: qexp_def)
  define d where "d = nat (e - qexp f x)"
  have "pow2 e = 2 ^ d * pow2 (qexp f x)"
    using q by (simp add: d_def pow2_nat [symmetric] pow2_add [symmetric])
  then have xq: "x = of_int (m * 2 ^ d) * pow2 (qexp f x)" by (simp add: x)
  then have "x / pow2 (qexp f x) = of_int (m * 2 ^ d)" by (metis nonzero_mult_div_cancel_right pow2_neq0)
  then have "rne (x / pow2 (qexp f x)) = m * 2 ^ d" by (metis rne_of_int)
  then show ?thesis using False xq by (simp add: rnd_real_def)
qed simp

lemma repr_minus [simp]: "repr f (- x) \<longleftrightarrow> repr f x"
proof -
  have "repr f x \<Longrightarrow> repr f (- x)" for x
  proof -
    assume "repr f x"
    then obtain m e where "x = of_int m * pow2 e" "\<bar>m\<bar> < 2 ^ nat (prec f)" "emin f - (prec f - 1) \<le> e"
      by (auto simp: repr_def)
    then show "repr f (- x)" unfolding repr_def by (intro exI [of _ "- m"] exI [of _ e]) simp
  qed
  from this [of x] this [of "- x"] show ?thesis by auto
qed

lemma rnd_real_nonneg: "0 \<le> x \<Longrightarrow> 0 \<le> rnd_real f x"
  using rne_mono [of 0 "x / pow2 (qexp f x)"] rne_of_int [of 0] by (simp add: rnd_real_def)

lemma rnd_real_mono_pos:
  assumes "0 < x" "x \<le> y"
  shows "rnd_real f x \<le> rnd_real f y"
proof -
  have bxy: "bexp x \<le> bexp y" using assms by (intro bexp_mono) auto
  show ?thesis
  proof (cases "qexp f x = qexp f y")
    case True
    have "rne (x / pow2 (qexp f x)) \<le> rne (y / pow2 (qexp f x))"
      using assms by (intro rne_mono divide_right_mono) auto
    then show ?thesis using assms True by (simp add: rnd_real_def)
  next
    case False
    then have lt: "qexp f x < qexp f y" and b: "bexp x < bexp y"
      and qy: "qexp f y = bexp y - (prec f - 1)"
      using bxy by (auto simp: qexp_def)
    define d where "d = nat (bexp y - qexp f x)"
    define c where "c = nat (prec f - 1)"
    have d: "bexp y = int d + qexp f x" using lt qy prec_pos [of f] by (simp add: d_def)
    have c: "bexp y = int c + qexp f y" using qy prec_pos [of f] by (simp add: c_def)
    have pd: "pow2 (bexp y) = of_int (2 ^ d) * pow2 (qexp f x)"
      by (subst d) (simp add: pow2_add pow2_nat)
    have pc: "pow2 (bexp y) = of_int (2 ^ c) * pow2 (qexp f y)"
      by (subst c) (simp add: pow2_add pow2_nat)
    have "x < pow2 (bexp x + 1)" using bexp_bounds(2) [of x] assms by simp
    also have "\<dots> \<le> pow2 (bexp y)" using b by simp
    finally have "x / pow2 (qexp f x) \<le> of_int (2 ^ d)"
      by (simp only: pd divide_le_eq pow2_pos) simp
    have xy0: "x \<noteq> 0" "y \<noteq> 0" using assms by auto
    from rne_le [OF \<open>x / pow2 (qexp f x) \<le> of_int (2 ^ d)\<close>]
    have "of_int (rne (x / pow2 (qexp f x))) * pow2 (qexp f x) \<le> of_int (2 ^ d) * pow2 (qexp f x)"
      by (rule mult_right_mono) simp
    then have x: "rnd_real f x \<le> pow2 (bexp y)"
      using xy0 by (simp only: pd rnd_real_def if_False)
    have "pow2 (bexp y) \<le> y" using bexp_bounds(1) [of y] assms by simp
    then have "of_int (2 ^ c) \<le> y / pow2 (qexp f y)"
      by (simp only: pc le_divide_eq pow2_pos) simp
    from rne_ge [OF this]
    have "of_int (2 ^ c) * pow2 (qexp f y) \<le> of_int (rne (y / pow2 (qexp f y))) * pow2 (qexp f y)"
      by (rule mult_right_mono) simp
    then have "pow2 (bexp y) \<le> rnd_real f y"
      using xy0 by (simp only: pc rnd_real_def if_False)
    with x show ?thesis by simp
  qed
qed

lemma rnd_real_mono: "x \<le> y \<Longrightarrow> rnd_real f x \<le> rnd_real f y"
proof (cases "0 < x")
  case True
  then show "x \<le> y \<Longrightarrow> ?thesis" by (rule rnd_real_mono_pos)
next
  case False
  assume xy: "x \<le> y"
  show ?thesis
  proof (cases "0 \<le> y")
    case True
    have "0 \<le> rnd_real f (- x)" using False by (intro rnd_real_nonneg) simp
    with rnd_real_nonneg [OF True, of f] show ?thesis by simp
  next
    case ny: False
    from xy ny have "rnd_real f (- y) \<le> rnd_real f (- x)" by (intro rnd_real_mono_pos) auto
    then show ?thesis by simp
  qed
qed


lemma repr_of_int: "\<bar>n\<bar> < 2 ^ 24 \<Longrightarrow> repr f (of_int n)"
  unfolding repr_def
  by (intro exI [of _ n] exI [of _ 0]) (cases f; simp add: prec_def emin_def)

lemma repr_0 [simp]: "repr f 0"
  using repr_of_int [of 0 f] by simp

lemma repr_1 [simp]: "repr f 1"
  using repr_of_int [of 1 f] by simp

lemma repr_numeral [simp]: "numeral k < (2 ^ 24 :: int) \<Longrightarrow> repr f (numeral k)"
  using repr_of_int [of "numeral k" f] by simp

lemma repr_pow2: "emin f - (prec f - 1) \<le> e \<Longrightarrow> repr f (pow2 e)"
  unfolding repr_def using prec_pos [of f]
  by (intro exI [of _ 1] exI [of _ e]) (simp add: one_less_power)

lemma repr_maxfin: "repr f (maxfin f)"
proof -
  have "maxfin f = of_int (2 ^ nat (prec f) - 1) * pow2 (emax f - prec f + 1)"
  proof -
    have "pow2 (emax f - prec f + 1) = pow2 (emax f) * pow2 (1 - prec f)"
      by (simp add: pow2_add [symmetric] algebra_simps)
    moreover have "real_of_int (2 ^ nat (prec f) - 1) = pow2 (prec f) - 1"
      using pow2_nat [of "nat (prec f)"] prec_pos [of f] by simp
    moreover have "pow2 (prec f) * pow2 (1 - prec f) = 2"
      by (simp add: pow2_add [symmetric])
    ultimately show ?thesis by (simp add: maxfin_def algebra_simps)
  qed
  moreover have "emin f - (prec f - 1) \<le> emax f - prec f + 1"
    by (cases f) (simp_all add: emin_def emax_def prec_def)
  moreover have "\<bar>2 ^ nat (prec f) - 1 :: int\<bar> < 2 ^ nat (prec f)" by simp
  ultimately show ?thesis unfolding repr_def by blast
qed

lemma maxfin_pos [simp]: "0 < maxfin f"
proof -
  have "pow2 (1 - prec f) < pow2 1" using prec_pos [of f] by (intro pow2_strict_mono) simp
  then show ?thesis by (simp add: maxfin_def)
qed

lemma maxfin_less: "maxfin f < pow2 (emax f + 1)"
proof -
  have "(2 - pow2 (1 - prec f)) * pow2 (emax f) < 2 * pow2 (emax f)"
    by (intro mult_strict_right_mono) simp_all
  then show ?thesis by (simp only: maxfin_def pow2_succ)
qed

lemma maxfin_ge: "pow2 127 \<le> maxfin f"
proof -
  have "pow2 (1 - prec f) \<le> pow2 0" using prec_pos [of f] by (subst pow2_le_iff) simp
  then have "1 * pow2 (emax f) \<le> maxfin f" unfolding maxfin_def by (intro mult_right_mono) simp_all
  moreover have "pow2 127 \<le> pow2 (emax f)" by (subst pow2_le_iff) (cases f; simp add: emax_def)
  ultimately show ?thesis by linarith
qed

lemma small_maxfin: "\<bar>x\<bar> \<le> 2 ^ 127 \<Longrightarrow> \<bar>x\<bar> \<le> maxfin f"
  using maxfin_ge [of f] pow2_nat [of 127] by simp

text \<open>What the clients of a rounding rely on.\<close>

locale rounding =
  fixes rd :: "real \<Rightarrow> real" and rep :: "real \<Rightarrow> bool"
  assumes rd_mono: "x \<le> y \<Longrightarrow> rd x \<le> rd y"
    and rd_rep: "rep x \<Longrightarrow> rd x = x"
    and rd_neg: "rd (- x) = - rd x"
begin

lemma between:
  assumes "rep lo" "rep hi" "lo \<le> x" "x \<le> hi" shows "lo \<le> rd x \<and> rd x \<le> hi"
  using rd_mono [OF assms(3)] rd_mono [OF assms(4)] assms(1,2) by (simp add: rd_rep)

lemma abs_le:
  assumes "rep m" "\<bar>x\<bar> \<le> m" shows "\<bar>rd x\<bar> \<le> m"
  using rd_mono [of x m] rd_mono [of "- x" m] assms by (simp add: rd_rep rd_neg abs_le_iff)

lemma nonneg:
  assumes "rep 0" "0 \<le> x" shows "0 \<le> rd x"
  using rd_mono [OF assms(2)] assms(1) by (simp add: rd_rep)

end

interpretation rd: rounding "rnd_real f" "repr f" for f
  by unfold_locales (simp_all add: rnd_real_mono rnd_real_repr)

lemma rnd_Fin: "\<bar>x\<bar> \<le> maxfin f \<Longrightarrow> rnd f x = Fin (rnd_real f x)"
  using rd.abs_le [OF repr_maxfin, of x f] by (simp add: rnd_def Let_def)

lemma rnd_repr: "repr f x \<Longrightarrow> \<bar>x\<bar> \<le> maxfin f \<Longrightarrow> rnd f x = Fin x"
  by (simp add: rnd_Fin rnd_real_repr)

lemma rnd_Fin_D: "rnd f x = Fin y \<Longrightarrow> y = rnd_real f x \<and> \<bar>y\<bar> \<le> maxfin f"
  by (auto simp: rnd_def Let_def split: if_splits)

lemma rnd_not_NaN [simp]: "rnd f x \<noteq> FNaN"
  by (simp add: rnd_def Let_def)

definition fbetween :: "real \<Rightarrow> real \<Rightarrow> fp \<Rightarrow> bool" where
  "fbetween lo hi a \<longleftrightarrow> (case a of Fin x \<Rightarrow> lo \<le> x \<and> x \<le> hi | _ \<Rightarrow> False)"

lemma fbetween_Fin [simp]: "fbetween lo hi (Fin x) \<longleftrightarrow> lo \<le> x \<and> x \<le> hi"
  by (simp add: fbetween_def)

lemma fbetweenE:
  assumes "fbetween lo hi a" obtains x where "a = Fin x" "lo \<le> x" "x \<le> hi"
  using assms by (cases a) (auto simp: fbetween_def)

lemma rnd_between:
  assumes "repr f lo" "repr f hi" "\<bar>lo\<bar> \<le> maxfin f" "\<bar>hi\<bar> \<le> maxfin f" "lo \<le> x" "x \<le> hi"
  shows "fbetween lo hi (rnd f x)"
proof -
  have "\<bar>x\<bar> \<le> maxfin f" using assms by auto
  then show ?thesis using rd.between [OF assms(1,2,5,6)] by (simp add: rnd_Fin)
qed

section \<open>Operations\<close>

definition is_finite :: "fp \<Rightarrow> bool" where
  "is_finite a = (case a of Fin _ \<Rightarrow> True | _ \<Rightarrow> False)"

definition is_nan :: "fp \<Rightarrow> bool" where
  "is_nan a = (case a of FNaN \<Rightarrow> True | _ \<Rightarrow> False)"

fun fp_le :: "fp \<Rightarrow> fp \<Rightarrow> bool" where
  "fp_le FNaN b = False"
| "fp_le (FInf s) b = (case b of FNaN \<Rightarrow> False | FInf t \<Rightarrow> (t \<longrightarrow> s) | Fin y \<Rightarrow> s)"
| "fp_le (Fin x) b = (case b of FNaN \<Rightarrow> False | FInf t \<Rightarrow> \<not> t | Fin y \<Rightarrow> x \<le> y)"

definition fp_lt :: "fp \<Rightarrow> fp \<Rightarrow> bool" where
  "fp_lt a b \<longleftrightarrow> fp_le a b \<and> a \<noteq> b"

definition fp_eq :: "fp \<Rightarrow> fp \<Rightarrow> bool" where
  "fp_eq a b \<longleftrightarrow> fp_le a b \<and> fp_le b a"

fun fneg :: "fp \<Rightarrow> fp" where
  "fneg FNaN = FNaN"
| "fneg (FInf s) = FInf (\<not> s)"
| "fneg (Fin x) = Fin (- x)"

fun fadd :: "fmt \<Rightarrow> fp \<Rightarrow> fp \<Rightarrow> fp" where
  "fadd f FNaN b = FNaN"
| "fadd f (FInf s) b = (case b of FNaN \<Rightarrow> FNaN | FInf t \<Rightarrow> if s = t then FInf s else FNaN | Fin _ \<Rightarrow> FInf s)"
| "fadd f (Fin x) b = (case b of FNaN \<Rightarrow> FNaN | FInf t \<Rightarrow> FInf t | Fin y \<Rightarrow> rnd f (x + y))"

definition fsub :: "fmt \<Rightarrow> fp \<Rightarrow> fp \<Rightarrow> fp" where
  "fsub f a b = fadd f a (fneg b)"

fun fmul :: "fmt \<Rightarrow> fp \<Rightarrow> fp \<Rightarrow> fp" where
  "fmul f FNaN b = FNaN"
| "fmul f (FInf s) b = (case b of FNaN \<Rightarrow> FNaN | FInf t \<Rightarrow> FInf (s \<noteq> t)
     | Fin y \<Rightarrow> if y = 0 then FNaN else FInf (s \<noteq> (y < 0)))"
| "fmul f (Fin x) b = (case b of FNaN \<Rightarrow> FNaN
     | FInf t \<Rightarrow> if x = 0 then FNaN else FInf ((x < 0) \<noteq> t) | Fin y \<Rightarrow> rnd f (x * y))"

fun fdiv :: "fmt \<Rightarrow> fp \<Rightarrow> fp \<Rightarrow> fp" where
  "fdiv f FNaN b = FNaN"
| "fdiv f (FInf s) b = (case b of FNaN \<Rightarrow> FNaN | FInf t \<Rightarrow> FNaN | Fin y \<Rightarrow> FInf (s \<noteq> (y < 0)))"
| "fdiv f (Fin x) b = (case b of FNaN \<Rightarrow> FNaN | FInf t \<Rightarrow> Fin 0
     | Fin y \<Rightarrow> if y = 0 then (if x = 0 then FNaN else FInf (x < 0)) else rnd f (x / y))"

fun fsqrt :: "fmt \<Rightarrow> fp \<Rightarrow> fp" where
  "fsqrt f FNaN = FNaN"
| "fsqrt f (FInf s) = (if s then FNaN else FInf False)"
| "fsqrt f (Fin x) = (if x < 0 then FNaN else rnd f (sqrt x))"

fun fcast :: "fmt \<Rightarrow> fp \<Rightarrow> fp" where
  "fcast f FNaN = FNaN"
| "fcast f (FInf s) = FInf s"
| "fcast f (Fin x) = rnd f x"

definition fp_min :: "fp \<Rightarrow> fp \<Rightarrow> fp" where
  "fp_min a b = (if is_nan a then b else if is_nan b then a else if fp_le a b then a else b)"

definition fp_clamp :: "fp \<Rightarrow> fp \<Rightarrow> fp \<Rightarrow> fp" where
  "fp_clamp lo hi a = (if fp_lt a lo then lo else if fp_lt hi a then hi else a)"

text \<open>\<open>as u8\<close>: truncation towards zero, saturating, NaN to zero.\<close>

definition fp_as_u8 :: "fp \<Rightarrow> u8" where
  "fp_as_u8 a =
     (case a of FNaN \<Rightarrow> 0 | FInf s \<Rightarrow> (if s then 0 else 255)
      | Fin x \<Rightarrow> if x < 0 then 0 else if 255 \<le> x then 255 else of_int \<lfloor>x\<rfloor>)"

text \<open>Conversion of an integer to a float, and a decimal literal.\<close>

definition fp_of_int :: "fmt \<Rightarrow> int \<Rightarrow> fp" where
  "fp_of_int f n = rnd f (of_int n)"

text \<open>\<open>Iterator::sum\<close> over floats, from left to right.\<close>

definition fp_sum :: "fmt \<Rightarrow> fp list \<Rightarrow> fp" where
  "fp_sum f xs = foldl (fadd f) (Fin 0) xs"

text \<open>The functions of the platform's math library.\<close>

record libm =
  m_cos :: "fp \<Rightarrow> fp"
  m_sin :: "fp \<Rightarrow> fp"
  m_tanh :: "fp \<Rightarrow> fp"

section \<open>Bounds\<close>

lemma numeral_le_maxfin [simp]: "numeral k \<le> (2 ^ 127 :: real) \<Longrightarrow> numeral k \<le> maxfin f"
  using small_maxfin [of "numeral k" f] by simp

lemma one_le_maxfin [simp]: "1 \<le> maxfin f"
  using small_maxfin [of 1 f] by simp

lemma maxfin_nonneg [simp]: "0 \<le> maxfin f"
  using maxfin_pos [of f] by linarith

lemma is_finite_simps [simp]:
  "is_finite (Fin x)" "\<not> is_finite FNaN" "\<not> is_finite (FInf s)"
  by (simp_all add: is_finite_def)

lemma is_finiteE: assumes "is_finite a" obtains x where "a = Fin x"
  using assms by (cases a) auto

lemma is_nan_simps [simp]: "\<not> is_nan (Fin x)" "is_nan FNaN" "\<not> is_nan (FInf s)"
  by (simp_all add: is_nan_def)

lemma fp_lt_Fin [simp]: "fp_lt (Fin x) (Fin y) \<longleftrightarrow> x < y"
  by (auto simp: fp_lt_def)

lemma fp_eq_Fin [simp]: "fp_eq (Fin x) (Fin y) \<longleftrightarrow> x = y"
  by (auto simp: fp_eq_def)

lemma fp_cmp_NaN [simp]:
  "\<not> fp_le a FNaN" "\<not> fp_lt a FNaN" "\<not> fp_lt FNaN a" "\<not> fp_eq a FNaN" "\<not> fp_eq FNaN a"
  by (cases a; simp add: fp_lt_def fp_eq_def)+

lemma fbetween_mono: "fbetween a b x \<Longrightarrow> c \<le> a \<Longrightarrow> b \<le> d \<Longrightarrow> fbetween c d x"
  by (cases x) (auto simp: fbetween_def)

lemma fbetween_finite: "fbetween a b x \<Longrightarrow> is_finite x"
  by (cases x) (auto simp: fbetween_def)

lemma fadd_between [fp_bounds]:
  assumes "fbetween a b x" "fbetween c d y" "repr f (a + c)" "repr f (b + d)"
    "\<bar>a + c\<bar> \<le> maxfin f" "\<bar>b + d\<bar> \<le> maxfin f"
  shows "fbetween (a + c) (b + d) (fadd f x y)"
  using assms by (elim fbetweenE) (simp add: rnd_between)

lemma fmul_between [fp_bounds]:
  assumes "fbetween (- a) a x" "fbetween (- b) b y" "repr f (a * b)" "\<bar>a * b\<bar> \<le> maxfin f"
  shows "fbetween (- (a * b)) (a * b) (fmul f x y)"
proof -
  obtain p q where p: "x = Fin p" "\<bar>p\<bar> \<le> a" "y = Fin q" "\<bar>q\<bar> \<le> b"
    using assms(1,2) by (elim fbetweenE) auto
  then have "\<bar>p * q\<bar> \<le> a * b" unfolding abs_mult by (intro mult_mono) auto
  then show ?thesis using p assms(3,4) by (auto intro!: rnd_between simp: abs_le_iff)
qed

lemma fmul_between_nonneg [fp_bounds]:
  assumes "fbetween 0 a x" "fbetween 0 b y" "repr f (a * b)" "\<bar>a * b\<bar> \<le> maxfin f"
  shows "fbetween 0 (a * b) (fmul f x y)"
  using assms by (elim fbetweenE) (auto intro!: rnd_between mult_mono)

lemma fcast_between [fp_bounds]:
  assumes "fbetween a b x" "repr f a" "repr f b" "\<bar>a\<bar> \<le> maxfin f" "\<bar>b\<bar> \<le> maxfin f"
  shows "fbetween a b (fcast f x)"
  using assms by (elim fbetweenE) (simp add: rnd_between)

lemma rnd_mono: "x \<le> y \<Longrightarrow> fp_le (rnd f x) (rnd f y)"
  using rnd_real_mono [of x y f] by (auto simp: rnd_def Let_def abs_if)

lemma fp_le_refl: "a \<noteq> FNaN \<Longrightarrow> fp_le a a"
  by (cases a) auto

lemma fp_le_trans: "fp_le a b \<Longrightarrow> fp_le b c \<Longrightarrow> fp_le a c"
  by (cases a; cases b; cases c) (auto split: if_splits)

end
