(* ===== verification/Serde_Value.thy ===== *)
theory Serde_Value
  imports Rust_Str Ieee
begin

text \<open>
  The data model of the \<open>serde_json\<close> crate, as its documentation states it: the public
  enum \<open>Value\<close> with its six variants, the accessors \<open>get\<close>, \<open>as_str\<close>, \<open>as_bool\<close>,
  \<open>as_i64\<close>, \<open>as_u64\<close>, \<open>as_f64\<close>, \<open>as_array\<close>, \<open>as_object\<close>, and objects as maps that
  iterate in key order (the crate's \<open>preserve_order\<close> feature is off in
  \<open>src/Cargo.lock\<close>). It is the type of the requests and replies the program handles.

  The crate's code is not part of the repository: its text parser and its printer are
  parameters (\<open>from_str\<close>, \<open>from_slice\<close>, \<open>ser\<close>) of the definitions that call them.
\<close>

text \<open>A number is an unsigned or a negative 64-bit integer, or a (finite) float.\<close>

datatype number = PosInt u64 | NegInt "64 word" | Flt fp

datatype json =
    JNull
  | JBool bool
  | JNum number
  | JStr string
  | JArr "json list"
  | JObj "(string \<times> json) list"

fun jget :: "json \<Rightarrow> string \<Rightarrow> json option" where
  "jget (JObj m) k = map_of m k"
| "jget _ k = None"

fun as_str :: "json \<Rightarrow> string option" where
  "as_str (JStr s) = Some s"
| "as_str _ = None"

fun as_bool :: "json \<Rightarrow> bool option" where
  "as_bool (JBool b) = Some b"
| "as_bool _ = None"

fun as_array :: "json \<Rightarrow> json list option" where
  "as_array (JArr xs) = Some xs"
| "as_array _ = None"

fun as_object :: "json \<Rightarrow> (string \<times> json) list option" where
  "as_object (JObj m) = Some m"
| "as_object _ = None"

fun as_u64 :: "json \<Rightarrow> u64 option" where
  "as_u64 (JNum (PosInt n)) = Some n"
| "as_u64 _ = None"

fun as_i64 :: "json \<Rightarrow> int option" where
  "as_i64 (JNum (PosInt n)) = (if unat n < 2 ^ 63 then Some (uint n) else None)"
| "as_i64 (JNum (NegInt i)) = Some (sint i)"
| "as_i64 _ = None"

fun as_f64 :: "json \<Rightarrow> fp option" where
  "as_f64 (JNum (PosInt n)) = Some (fp_of_int F64 (uint n))"
| "as_f64 (JNum (NegInt i)) = Some (fp_of_int F64 (sint i))"
| "as_f64 (JNum (Flt x)) = Some x"
| "as_f64 _ = None"

text \<open>Inserting into an object (a \<open>BTreeMap\<close>) and the \<open>json!\<close> object literal.\<close>

fun bt_insert :: "string \<Rightarrow> json \<Rightarrow> (string \<times> json) list \<Rightarrow> (string \<times> json) list" where
  "bt_insert k v [] = [(k, v)]"
| "bt_insert k v ((k', v') # m) =
     (if k = k' then (k, v) # m
      else if k < k' then (k, v) # (k', v') # m
      else (k', v') # bt_insert k v m)"

definition bt_of_list :: "(string \<times> json) list \<Rightarrow> (string \<times> json) list" where
  "bt_of_list kvs = foldl (\<lambda>m (k, v). bt_insert k v m) [] kvs"

definition json_obj :: "(string \<times> json) list \<Rightarrow> json" where
  "json_obj kvs = JObj (bt_of_list kvs)"

lemma map_of_bt_insert: "map_of (bt_insert k v m) j = (if j = k then Some v else map_of m j)"
  by (induction k v m rule: bt_insert.induct) auto

interpretation bt: kv_lookup "[]" map_of bt_insert
  by unfold_locales (simp_all add: map_of_bt_insert)

lemma jget_json_obj: "jget (json_obj kvs) k = map_of (rev kvs) k"
  by (simp add: json_obj_def bt_of_list_def bt.get_put_all)

lemma set_bt_insert: "fst ` set (bt_insert k v m) = insert k (fst ` set m)"
  by (induction k v m rule: bt_insert.induct) auto

lemma sorted_bt_insert: "sorted_wrt (<) (map fst m) \<Longrightarrow> sorted_wrt (<) (map fst (bt_insert k v m))"
proof (induction k v m rule: bt_insert.induct)
  case (1 k v)
  then show ?case by simp
next
  case (2 k v k' v' m)
  have "\<forall>x \<in> set (map fst (bt_insert k v m)). k' < x" if "\<not> k < k'" "k \<noteq> k'"
    using that 2(2) set_bt_insert [of k v m] by auto
  then show ?case using 2 by auto
qed

lemma sorted_bt_of_list: "sorted_wrt (<) (map fst (bt_of_list kvs))"
proof -
  have "sorted_wrt (<) (map fst m) \<Longrightarrow>
      sorted_wrt (<) (map fst (foldl (\<lambda>m (k, v). bt_insert k v m) m kvs))" for m
  proof (induction kvs arbitrary: m)
    case Nil
    then show ?case by simp
  next
    case (Cons kv kvs)
    then show ?case by (cases kv) (simp add: sorted_bt_insert)
  qed
  then show ?thesis by (simp add: bt_of_list_def)
qed

text \<open>The crate never produces a number that is not finite: its parser rejects a literal
  that overflows.\<close>

fun json_finite :: "json \<Rightarrow> bool" where
  "json_finite (JNum (Flt x)) = fbetween (- maxfin F64) (maxfin F64) x"
| "json_finite (JArr xs) = (\<forall>x \<in> set xs. json_finite x)"
| "json_finite (JObj m) = (\<forall>kv \<in> set m. json_finite (snd kv))"
| "json_finite _ = True"

end
