(* ===== verification/Proto.thy ===== *)
theory Proto
  imports Serde_Value
begin

text \<open>
  \<open>src/src/proto.rs\<close>: the JSON-RPC envelope, the viewer's capability bodies and the
  data-channel protocol. Every parser of the file is a function of the parsed \<open>Value\<close>;
  an error is the message the code formats, with the parameter \<open>dbg\<close> for \<open>{:?}\<close>.
\<close>

section \<open>JSON-RPC envelope\<close>

definition METHOD_PROVISION :: string where
  "METHOD_PROVISION = ''provision_voice_account_request''"

definition METHOD_SIGNALING :: string where
  "METHOD_SIGNALING = ''voice_signaling_request''"

record rpc_params =
  rp_request :: json
  rp_user_id :: string
  rp_scene :: string

record rpc_request =
  rq_id :: json
  rq_method :: string
  rq_params :: rpc_params

definition rpc_ok :: "json \<Rightarrow> json \<Rightarrow> json" where
  "rpc_ok i res = json_obj [(''jsonrpc'', JStr ''2.0''), (''id'', i), (''result'', res)]"

definition rpc_err :: "json \<Rightarrow> string \<Rightarrow> json" where
  "rpc_err i message = json_obj [(''jsonrpc'', JStr ''2.0''), (''id'', i), (''error'', JStr message)]"

section \<open>Capability bodies\<close>

datatype channel_type = Local | MultiAgent

definition channel_type_parse :: "string \<Rightarrow> channel_type option" where
  "channel_type_parse s =
     (if s = ''local'' then Some Local else if s = ''multiagent'' then Some MultiAgent else None)"

record provision_request =
  pr_logout :: bool
  pr_viewer_session :: "string option"
  pr_offer_sdp :: "string option"
  pr_channel_type :: "channel_type option"
  pr_parcel_local_id :: i32
  pr_channel :: "string option"

definition VOICE_SERVER_TYPE :: string where
  "VOICE_SERVER_TYPE = ''webrtc''"

definition jget_str :: "json \<Rightarrow> string \<Rightarrow> string option" where
  "jget_str v k = Option.bind (jget v k) as_str"

definition provision_parse :: "(string \<Rightarrow> string) \<Rightarrow> json \<Rightarrow> (string, provision_request) result" where
  "provision_parse dbg v =
     res_bind
       (case jget_str v ''voice_server_type'' of
          None \<Rightarrow> Inr ()
        | Some vst \<Rightarrow>
            if \<not> eq_ignore_ascii_case vst VOICE_SERVER_TYPE
            then Inl (''voice_server_type is '' @ dbg vst @ '', not webrtc'') else Inr ())
       (\<lambda>_. res_bind
         (case jget v ''jsep'' of
            None \<Rightarrow> Inr None
          | Some jsep \<Rightarrow>
              let ty = unwrap_or (jget_str jsep ''type'') ''''
              in if ty \<noteq> '''' \<and> ty \<noteq> ''offer''
                 then Inl (''jsep type is '' @ dbg ty @ '', expected offer'')
                 else Inr (opt_filter (\<lambda>s. s \<noteq> '''') (jget_str jsep ''sdp'')))
         (\<lambda>offer. Inr
           \<lparr>pr_logout = unwrap_or (Option.bind (jget v ''logout'') as_bool) False,
            pr_viewer_session = jget_str v ''viewer_session'',
            pr_offer_sdp = offer,
            pr_channel_type = Option.bind (jget_str v ''channel_type'') channel_type_parse,
            pr_parcel_local_id = of_int (unwrap_or (Option.bind (jget v ''parcel_local_id'') as_i64) 0),
            pr_channel = opt_filter (\<lambda>s. s \<noteq> '''') (jget_str v ''channel'')\<rparr>))"

definition provision_answer :: "string \<Rightarrow> string \<Rightarrow> json" where
  "provision_answer sess sdp =
     json_obj
       [(''viewer_session'', JStr sess),
        (''jsep'', json_obj [(''type'', JStr ''answer''), (''sdp'', JStr sdp)])]"

record ice_candidate =
  ic_candidate :: string
  ic_sdp_mid :: "string option"
  ic_sdp_mline_index :: "u16 option"

record signaling_request =
  sg_viewer_session :: "string option"
  sg_candidates :: "ice_candidate list"
  sg_completed :: bool

fun read_candidates :: "json list \<Rightarrow> ice_candidate list" where
  "read_candidates [] = []"
| "read_candidates (c # arr) =
     (let cand = unwrap_or (jget_str c ''candidate'') ''''
      in if cand = '''' then read_candidates arr
         else \<lparr>ic_candidate = cand,
               ic_sdp_mid = jget_str c ''sdpMid'',
               ic_sdp_mline_index = map_option of_int (Option.bind (jget c ''sdpMLineIndex'') as_i64)\<rparr>
              # read_candidates arr)"

definition signaling_parse :: "json \<Rightarrow> signaling_request" where
  "signaling_parse v =
     \<lparr>sg_viewer_session = jget_str v ''viewer_session'',
      sg_candidates = (case Option.bind (jget v ''candidates'') as_array of
                      None \<Rightarrow> [] | Some arr \<Rightarrow> read_candidates arr),
      sg_completed = unwrap_or (Option.bind (Option.bind (jget v ''candidate'') (\<lambda>c. jget c ''completed'')) as_bool) False\<rparr>"

section \<open>Data-channel protocol\<close>

type_synonym vec3 = "fp \<times> fp \<times> fp"
type_synonym vec4 = "fp \<times> fp \<times> fp \<times> fp"

record viewer_data_message =
  vd_join :: "bool option"
  vd_avatar_pos :: "vec3 option"
  vd_avatar_rot :: "vec4 option"
  vd_listener_pos :: "vec3 option"
  vd_listener_rot :: "vec4 option"
  vd_user_gain :: "(string \<times> u32) list"
  vd_user_mute :: "(string \<times> bool) list"

definition viewer_data_default :: viewer_data_message where
  "viewer_data_default =
     \<lparr>vd_join = None, vd_avatar_pos = None, vd_avatar_rot = None, vd_listener_pos = None, vd_listener_rot = None,
      vd_user_gain = [], vd_user_mute = []\<rparr>"

definition PEER_GAIN_CONVERSION_FACTOR :: fp where "PEER_GAIN_CONVERSION_FACTOR = Fin 220"
definition POSITION_SCALE :: fp where "POSITION_SCALE = Fin 100"
definition MAX_PEER_ENTRIES :: nat where "MAX_PEER_ENTRIES = 256"
definition MAX_PEER_GAIN :: fp where "MAX_PEER_GAIN = Fin 4"

definition coord :: "json \<Rightarrow> string \<Rightarrow> fp option" where
  "coord v k = map_option (\<lambda>x. fdiv F64 x POSITION_SCALE) (Option.bind (jget v k) as_f64)"

definition parse_vec3 :: "json \<Rightarrow> vec3 option" where
  "parse_vec3 v =
     Option.bind (coord v ''x'') (\<lambda>x. Option.bind (coord v ''y'') (\<lambda>y. Option.bind (coord v ''z'') (\<lambda>z.
       Some (x, y, z))))"

definition parse_vec4 :: "json \<Rightarrow> vec4 option" where
  "parse_vec4 v =
     Option.bind (coord v ''x'') (\<lambda>x. Option.bind (coord v ''y'') (\<lambda>y. Option.bind (coord v ''z'') (\<lambda>z.
       Option.bind (coord v ''w'') (\<lambda>w. Some (x, y, z, w)))))"

fun read_gains :: "(string \<times> json) list \<Rightarrow> (string \<times> u32) list" where
  "read_gains [] = []"
| "read_gains ((k, val) # obj) =
     (case as_u64 val of None \<Rightarrow> read_gains obj | Some g \<Rightarrow> (k, ucast g) # read_gains obj)"

fun read_mutes :: "(string \<times> json) list \<Rightarrow> (string \<times> bool) list" where
  "read_mutes [] = []"
| "read_mutes ((k, val) # obj) =
     (case as_bool val of None \<Rightarrow> read_mutes obj | Some b \<Rightarrow> (k, b) # read_mutes obj)"

definition viewer_data_of_value :: "json \<Rightarrow> viewer_data_message" where
  "viewer_data_of_value v =
     \<lparr>vd_join = map_option (\<lambda>j. unwrap_or (Option.bind (jget j ''p'') as_bool) False) (jget v ''j''),
      vd_avatar_pos = Option.bind (jget v ''sp'') parse_vec3,
      vd_avatar_rot = Option.bind (jget v ''sh'') parse_vec4,
      vd_listener_pos = Option.bind (jget v ''lp'') parse_vec3,
      vd_listener_rot = Option.bind (jget v ''lh'') parse_vec4,
      vd_user_gain = (case Option.bind (jget v ''ug'') as_object of
                     None \<Rightarrow> [] | Some obj \<Rightarrow> read_gains (take MAX_PEER_ENTRIES obj)),
      vd_user_mute = (case Option.bind (jget v ''m'') as_object of
                     None \<Rightarrow> [] | Some obj \<Rightarrow> read_mutes (take MAX_PEER_ENTRIES obj))\<rparr>"

definition viewer_data_parse ::
    "(string \<Rightarrow> ('e, json) result) \<Rightarrow> string \<Rightarrow> ('e, viewer_data_message) result" where
  "viewer_data_parse from_str text = res_bind (from_str text) (\<lambda>v. Inr (viewer_data_of_value v))"

record roster_entry =
  re_joined :: bool
  re_primary :: bool
  re_power :: u8
  re_speaking :: bool
  re_moderator_muted :: bool

definition LEVEL_SCALE_TO_WIRE :: fp where "LEVEL_SCALE_TO_WIRE = Fin 128"
definition SPEAKING_AUDIO_LEVEL :: fp where "SPEAKING_AUDIO_LEVEL = rnd F32 (30 / 100)"

definition leave_value :: "string \<Rightarrow> json" where
  "leave_value agent_id = json_obj [(agent_id, json_obj [(''l'', JBool True)])]"

definition leave_json :: "(json \<Rightarrow> string) \<Rightarrow> string \<Rightarrow> string" where
  "leave_json ser agent_id = ser (leave_value agent_id)"

definition roster_entry_value :: "roster_entry \<Rightarrow> json" where
  "roster_entry_value e =
     json_obj
       ((if re_joined e then [(''j'', json_obj [(''p'', JBool (re_primary e))])] else []) @
        [(''p'', JNum (PosInt (ucast (re_power e)))), (''v'', JBool (re_speaking e)),
         (''m'', JBool (re_moderator_muted e))])"

definition roster_value :: "(string \<times> roster_entry) list \<Rightarrow> json" where
  "roster_value entries = json_obj (map (\<lambda>(k, e). (k, roster_entry_value e)) entries)"

definition roster_json :: "(json \<Rightarrow> string) \<Rightarrow> (string \<times> roster_entry) list \<Rightarrow> string" where
  "roster_json ser entries = ser (roster_value entries)"

section \<open>What the parsers accept and what the builders emit\<close>

lemma rpc_ok_fields:
  "jget (rpc_ok i r) ''jsonrpc'' = Some (JStr ''2.0'')" "jget (rpc_ok i r) ''id'' = Some i"
  "jget (rpc_ok i r) ''result'' = Some r" "jget (rpc_ok i r) ''error'' = None"
  by (simp_all add: rpc_ok_def jget_json_obj)

lemma rpc_err_fields:
  "jget (rpc_err i e) ''jsonrpc'' = Some (JStr ''2.0'')" "jget (rpc_err i e) ''id'' = Some i"
  "jget (rpc_err i e) ''result'' = None" "jget (rpc_err i e) ''error'' = Some (JStr e)"
  by (simp_all add: rpc_err_def jget_json_obj)

definition foreign_server :: "json \<Rightarrow> bool" where
  "foreign_server v \<longleftrightarrow>
     (\<exists>t. jget v ''voice_server_type'' = Some (JStr t) \<and> to_ascii_lowercase t \<noteq> ''webrtc'')"

definition foreign_jsep :: "json \<Rightarrow> bool" where
  "foreign_jsep v \<longleftrightarrow>
     (\<exists>j t. jget v ''jsep'' = Some j \<and> jget j ''type'' = Some (JStr t) \<and> t \<noteq> '''' \<and> t \<noteq> ''offer'')"

lemma as_str_Some_iff: "as_str v = Some s \<longleftrightarrow> v = JStr s"
  by (cases v) auto

lemma jget_str_Some_iff: "jget_str v k = Some s \<longleftrightarrow> jget v k = Some (JStr s)"
  by (auto simp: jget_str_def as_str_Some_iff bind_eq_Some_conv)

lemma lower_webrtc: "to_ascii_lowercase VOICE_SERVER_TYPE = ''webrtc''"
  by (simp add: VOICE_SERVER_TYPE_def to_ascii_lowercase_def ascii_lower_def byte_of_def)

lemma server_check:
  "(case jget_str v ''voice_server_type'' of None \<Rightarrow> Inr ()
    | Some vst \<Rightarrow> if \<not> eq_ignore_ascii_case vst VOICE_SERVER_TYPE then Inl (m vst) else Inr ()) = Inr ()
   \<longleftrightarrow> \<not> foreign_server v"
  by (auto simp: foreign_server_def eq_ignore_ascii_case_def lower_webrtc jget_str_Some_iff [symmetric]
      split: option.splits)

lemma channel_type_parse_Some:
  "channel_type_parse s = Some t \<longleftrightarrow> s = (case t of Local \<Rightarrow> ''local'' | MultiAgent \<Rightarrow> ''multiagent'')"
  by (cases t; simp add: channel_type_parse_def)

lemma channel_type_read:
  "Option.bind (jget_str v k) channel_type_parse = Some t \<longleftrightarrow>
     jget v k = Some (JStr (case t of Local \<Rightarrow> ''local'' | MultiAgent \<Rightarrow> ''multiagent''))"
  by (simp only: bind_eq_Some_conv channel_type_parse_Some jget_str_Some_iff) blast

lemma u64_half: "uint (n :: u64) < 9223372036854775808 \<longleftrightarrow> unat n < 9223372036854775808"
proof -
  have "uint n = int (unat n)" by simp
  then show ?thesis by linarith
qed

lemma i32_read:
  "uint (of_int (unwrap_or (Option.bind w as_i64) 0) :: i32) =
     (case w of
        Some (JNum (PosInt n)) \<Rightarrow> if uint n < 2 ^ 63 then uint n mod 2 ^ 32 else 0
      | Some (JNum (NegInt i)) \<Rightarrow> sint i mod 2 ^ 32
      | _ \<Rightarrow> 0)"
proof (cases w)
  case (Some j)
  have z: "uint (of_int z :: i32) = z mod 4294967296" for z by (simp add: uint_word_of_int)
  show ?thesis
  proof (cases j)
    case (JNum n)
    then show ?thesis
    proof (cases n)
      case (NegInt i)
      then show ?thesis using Some JNum z [of "sint i"] by simp
    qed (use Some JNum in \<open>simp_all add: z u64_half\<close>)
  qed (use Some in simp_all)
qed simp

text \<open>C30. A provision body is refused exactly when it names another voice server (compared without
  regard to ASCII case) or carries a \<open>jsep\<close> whose type is neither empty nor "offer". An
  accepted body yields the SDP of its offer only when that is a non-empty string; its logout flag (false unless
  it is the Boolean true), session and non-empty channel verbatim; its channel type exactly when that is
  "local" or "multiagent"; and its parcel as the low 32 bits of the integer given, when that fits into 64
  signed bits, and 0 otherwise.\<close>

theorem provision_parse_accepts:
  "case provision_parse dbg v of
     Inl _ \<Rightarrow> foreign_server v \<or> foreign_jsep v
   | Inr r \<Rightarrow> \<not> foreign_server v \<and> \<not> foreign_jsep v
       \<and> (\<forall>s. pr_offer_sdp r = Some s \<longleftrightarrow> s \<noteq> '''' \<and> (\<exists>j. jget v ''jsep'' = Some j \<and> jget j ''sdp'' = Some (JStr s)))
       \<and> (pr_logout r \<longleftrightarrow> jget v ''logout'' = Some (JBool True))
       \<and> (\<forall>s. pr_viewer_session r = Some s \<longleftrightarrow> jget v ''viewer_session'' = Some (JStr s))
       \<and> (\<forall>s. pr_channel r = Some s \<longleftrightarrow> s \<noteq> '''' \<and> jget v ''channel'' = Some (JStr s))
       \<and> (\<forall>t. pr_channel_type r = Some t \<longleftrightarrow>
            jget v ''channel_type'' = Some (JStr (case t of Local \<Rightarrow> ''local'' | MultiAgent \<Rightarrow> ''multiagent'')))
       \<and> uint (pr_parcel_local_id r) =
            (case jget v ''parcel_local_id'' of
               Some (JNum (PosInt n)) \<Rightarrow> if uint n < 2 ^ 63 then uint n mod 2 ^ 32 else 0
             | Some (JNum (NegInt i)) \<Rightarrow> sint i mod 2 ^ 32
             | _ \<Rightarrow> 0)"
proof -
  let ?chk = "case jget_str v ''voice_server_type'' of None \<Rightarrow> Inr ()
    | Some vst \<Rightarrow> if \<not> eq_ignore_ascii_case vst VOICE_SERVER_TYPE
        then Inl (''voice_server_type is '' @ dbg vst @ '', not webrtc'') else Inr ()"
  have lo: "unwrap_or (Option.bind (jget v ''logout'') as_bool) False \<longleftrightarrow> jget v ''logout'' = Some (JBool True)"
    by (cases "jget v ''logout''"; simp) (rename_tac x; case_tac x; simp)
  have fj: "foreign_jsep v \<longleftrightarrow> (\<exists>j t. jget v ''jsep'' = Some j \<and> jget_str j ''type'' = Some t \<and> t \<noteq> '''' \<and> t \<noteq> ''offer'')"
    by (simp add: foreign_jsep_def jget_str_Some_iff)
  show ?thesis
  proof (cases ?chk)
    case (Inl e)
    then have "foreign_server v"
      using server_check [where v = v and m = "\<lambda>vst. ''voice_server_type is '' @ dbg vst @ '', not webrtc''"]
      by auto
    then show ?thesis using Inl by (simp add: provision_parse_def)
  next
    case (Inr u)
    then have ns: "\<not> foreign_server v"
      using server_check [where v = v and m = "\<lambda>vst. ''voice_server_type is '' @ dbg vst @ '', not webrtc''"]
      by auto

    show ?thesis
    proof (cases "jget v ''jsep''")
      case None
      then show ?thesis using Inr ns
        by (simp add: provision_parse_def fj lo channel_type_read i32_read del: of_int_numeral) (simp add: jget_str_Some_iff [symmetric] opt_filter_Some_iff conj_commute)
    next
      case (Some j)
      then show ?thesis using Inr ns
        by (cases "jget_str j ''type''")
          (simp_all add: provision_parse_def fj lo Let_def channel_type_read i32_read, simp_all add: jget_str_Some_iff [symmetric]
            opt_filter_Some_iff conj_commute)
    qed
  qed
qed

definition candidate_of :: "json \<Rightarrow> ice_candidate" where
  "candidate_of c = \<lparr>ic_candidate = unwrap_or (jget_str c ''candidate'') '''', ic_sdp_mid = jget_str c ''sdpMid'',
     ic_sdp_mline_index = map_option of_int (Option.bind (jget c ''sdpMLineIndex'') as_i64)\<rparr>"

lemma read_candidates_filter:
  "read_candidates arr = map candidate_of (filter (\<lambda>c. \<exists>s. jget c ''candidate'' = Some (JStr s) \<and> s \<noteq> '''') arr)"
proof (induction arr)
  case Nil
  then show ?case by simp
next
  case (Cons c arr)
  have "unwrap_or (jget_str c ''candidate'') '''' = '''' \<longleftrightarrow> \<not> (\<exists>s. jget c ''candidate'' = Some (JStr s) \<and> s \<noteq> '''')"
    by (cases "jget_str c ''candidate''") (auto simp: jget_str_Some_iff [symmetric])
  then show ?case using Cons by (auto simp: Let_def candidate_of_def)
qed

text \<open>Trickled ICE loses nothing: the candidates of a signalling request are the entries of
  the plural key that carry a non-empty candidate string, in their order, with index and mid; and
  the end marker is read from the singular key.\<close>

theorem signaling_parse_candidates:
  "sg_candidates (signaling_parse v) =
     (case jget v ''candidates'' of
        Some (JArr arr) \<Rightarrow>
          map candidate_of (filter (\<lambda>c. \<exists>s. jget c ''candidate'' = Some (JStr s) \<and> s \<noteq> '''') arr)
      | _ \<Rightarrow> [])
   \<and> (sg_completed (signaling_parse v) \<longleftrightarrow>
        (\<exists>c. jget v ''candidate'' = Some c \<and> jget c ''completed'' = Some (JBool True)))"
proof -
  have b: "as_bool x = Some t \<longleftrightarrow> x = JBool t" for x t by (cases x) auto
  have "unwrap_or (Option.bind (Option.bind (jget v ''candidate'') (\<lambda>c. jget c ''completed'')) as_bool) False \<longleftrightarrow>
      (\<exists>c. jget v ''candidate'' = Some c \<and> jget c ''completed'' = Some (JBool True))"
    by (auto simp: unwrap_or_def b bind_eq_Some_conv split: option.splits)
  then show ?thesis
    by (auto simp: signaling_parse_def read_candidates_filter split: option.splits json.splits)
qed

section \<open>Bounds on what a data-channel message carries\<close>

definition coord_bound :: real where "coord_bound = pow2 1018"

definition coord_ok :: "fp \<Rightarrow> bool" where
  "coord_ok x \<longleftrightarrow> fbetween (- coord_bound) coord_bound x"

definition vec3_ok :: "vec3 \<Rightarrow> bool" where
  "vec3_ok = (\<lambda>(x, y, z). coord_ok x \<and> coord_ok y \<and> coord_ok z)"

definition vec4_ok :: "vec4 \<Rightarrow> bool" where
  "vec4_ok = (\<lambda>(x, y, z, w). coord_ok x \<and> coord_ok y \<and> coord_ok z \<and> coord_ok w)"

lemma repr_coord_bound [simp]: "repr F64 coord_bound" "repr F64 (- coord_bound)"
  by (simp_all add: coord_bound_def repr_pow2 emin_def prec_def)

lemma coord_bound_maxfin: "100 * coord_bound \<ge> maxfin F64" "coord_bound \<le> maxfin F64" "0 < coord_bound"
proof -
  have p: "pow2 1023 = 32 * coord_bound"
    using pow2_add [of 5 1018] pow2_nat [of 5] by (simp add: coord_bound_def)
  have q: "0 < pow2 (- 52)" "pow2 (- 52) \<le> 1" using pow2_le_iff [of "-52" 0] by (simp_all del: pow2_le_iff)
  have m: "maxfin F64 = (2 - pow2 (- 52)) * (32 * coord_bound)"
    by (simp add: maxfin_def prec_def emax_def p)
  show c: "0 < coord_bound" by (simp add: coord_bound_def)
  have "(2 - pow2 (- 52)) * (32 * coord_bound) \<le> 2 * (32 * coord_bound)"
    using q c by (intro mult_right_mono) auto
  then show "100 * coord_bound \<ge> maxfin F64" unfolding m using c by linarith
  have "1 * (32 * coord_bound) \<le> (2 - pow2 (- 52)) * (32 * coord_bound)"
    using q c by (intro mult_right_mono) auto
  then show "coord_bound \<le> maxfin F64" unfolding m using c by linarith
qed

lemma as_f64_bound:
  assumes "json_finite v" "as_f64 v = Some x"
  shows "fbetween (- maxfin F64) (maxfin F64) x"
proof -
  have i: "fbetween (- maxfin F64) (maxfin F64) (fp_of_int F64 n)" if "\<bar>n\<bar> \<le> 2 ^ 64" for n
  proof -
    have "\<bar>real_of_int n\<bar> \<le> 2 ^ 64" using that by (metis of_int_abs of_int_le_numeral_power_cancel_iff)
    then have "\<bar>real_of_int n\<bar> \<le> maxfin F64" by (intro small_maxfin) simp
    then show ?thesis unfolding fp_of_int_def by (intro rnd_between) (auto simp: repr_maxfin)
  qed
  have "\<bar>uint (u :: u64)\<bar> \<le> 2 ^ 64" for u using uint_bounded [of u] by simp
  moreover have "\<bar>sint (u :: u64)\<bar> \<le> 2 ^ 64" for u using sint_range_size [of u] by (simp add: word_size abs_le_iff)
  ultimately show ?thesis using assms i by (cases v rule: as_f64.cases) auto
qed

lemma jget_finite: "json_finite v \<Longrightarrow> jget v k = Some w \<Longrightarrow> json_finite w"
  by (cases v) (fastforce dest: map_of_SomeD)+

lemma coord_finite:
  assumes "json_finite v" "coord v k = Some x" shows "coord_ok x"
proof -
  obtain w y where w: "jget v k = Some w" "as_f64 w = Some y" "x = fdiv F64 y POSITION_SCALE"
    using assms(2) by (auto simp: coord_def bind_eq_Some_conv)
  obtain r where r: "y = Fin r" "\<bar>r\<bar> \<le> maxfin F64"
    using as_f64_bound [OF jget_finite [OF assms(1) w(1)] w(2)] by (elim fbetweenE) auto
  have "\<bar>r / 100\<bar> \<le> coord_bound" using r(2) coord_bound_maxfin(1) by simp
  then show ?thesis using w r coord_bound_maxfin
    by (auto simp: coord_ok_def POSITION_SCALE_def abs_le_iff intro!: rnd_between)
qed

lemma parse_vec_ok:
  "json_finite v \<Longrightarrow> parse_vec3 v = Some p \<Longrightarrow> vec3_ok p"
  "json_finite v \<Longrightarrow> parse_vec4 v = Some q \<Longrightarrow> vec4_ok q"
  by (auto simp: parse_vec3_def parse_vec4_def vec3_ok_def vec4_ok_def bind_eq_Some_conv intro: coord_finite)

definition data_ok :: "viewer_data_message \<Rightarrow> bool" where
  "data_ok m \<longleftrightarrow> pred_option vec3_ok (vd_avatar_pos m) \<and> pred_option vec4_ok (vd_avatar_rot m)
     \<and> pred_option vec3_ok (vd_listener_pos m) \<and> pred_option vec4_ok (vd_listener_rot m)
     \<and> length (vd_user_gain m) \<le> MAX_PEER_ENTRIES \<and> length (vd_user_mute m) \<le> MAX_PEER_ENTRIES"

lemma length_reads: "length (read_gains xs) \<le> length xs" "length (read_mutes xs) \<le> length xs"
  by (induction xs; force split: option.splits)+

lemma parsed_data_ok:
  assumes "json_finite v" shows "data_ok (viewer_data_of_value v)"
proof -
  have v3: "pred_option vec3_ok (Option.bind (jget v k) parse_vec3)"
    and v4: "pred_option vec4_ok (Option.bind (jget v k) parse_vec4)" for k
    using jget_finite [OF assms, of k] by (cases "jget v k"; simp add: option.pred_set parse_vec_ok)+
  have g: "length (case x of None \<Rightarrow> [] | Some obj \<Rightarrow> read_gains (take n obj)) \<le> n"
    and u: "length (case x of None \<Rightarrow> [] | Some obj \<Rightarrow> read_mutes (take n obj)) \<le> n" for x n
    by (cases x; simp add: length_reads order_trans [OF length_reads(1)] order_trans [OF length_reads(2)])+
  show ?thesis by (simp add: data_ok_def viewer_data_of_value_def v3 v4 g u)
qed

text \<open>Whatever JSON a viewer sends, the parsed message is bounded: every coordinate is finite
  and at most 2^1018 in magnitude (so the difference of two of them cannot overflow), and at most
  256 gain and 256 mute requests are taken.\<close>

theorem viewer_data_sane:
  assumes "json_finite v" shows "data_ok (viewer_data_of_value v)"
  using assms by (rule parsed_data_ok)

theorem viewer_data_sane_witness:
  "data_ok (viewer_data_of_value
     (JObj [(''sp'', JObj [(''x'', JNum (PosInt 12345)), (''y'', JNum (NegInt (- 200))), (''z'', JNum (PosInt 2100))]),
            (''ug'', JObj [(''a'', JNum (PosInt 110))])]))"
  by (rule viewer_data_sane) simp

section \<open>The roster\<close>

text \<open>Reading a roster message back: an agent's key holds the fields of the last entry for that
  agent (power, speaking, muted, and "j" with the primary flag exactly for a join), it is never a
  leave notice, and an agent without an entry has no key.\<close>

theorem roster_lookup:
  "case map_of (rev entries) agent of
     None \<Rightarrow> jget (roster_value entries) agent = None
   | Some e \<Rightarrow> \<exists>o'. jget (roster_value entries) agent = Some o'
       \<and> jget o' ''j'' = (if re_joined e then Some (json_obj [(''p'', JBool (re_primary e))]) else None)
       \<and> jget o' ''p'' = Some (JNum (PosInt (ucast (re_power e))))
       \<and> jget o' ''v'' = Some (JBool (re_speaking e)) \<and> jget o' ''m'' = Some (JBool (re_moderator_muted e))
       \<and> jget o' ''l'' = None"
proof -
  have "jget (roster_value entries) agent = map_option roster_entry_value (map_of (rev entries) agent)"
    unfolding roster_value_def jget_json_obj
    by (induction entries rule: rev_induct) (auto simp: map_of_map rev_map [symmetric])
  then show ?thesis
    by (auto simp: roster_entry_value_def jget_json_obj split: option.splits)
qed

end
