(* ===== verification/Mixer.thy ===== *)
theory Mixer
  imports Proto
begin

text \<open>
  \<open>src/src/mixer.rs\<close>: distance attenuation, the 50 m tether, stereo panning, the level
  meter and the stereo sum, in the IEEE arithmetic of the code (\<open>f64\<close> geometry, \<open>f32\<close>
  audio, casts where the code casts). \<open>sin\<close>, \<open>cos\<close> and \<open>tanh\<close> are the parameter
  \<open>L\<close>.
\<close>

section \<open>Constants\<close>

definition SAMPLE_RATE :: nat where "SAMPLE_RATE = 48000"
definition FRAME_SAMPLES :: nat where "FRAME_SAMPLES = 960"
definition REF_DISTANCE :: fp where "REF_DISTANCE = Fin 10"
definition MAX_DISTANCE :: fp where "MAX_DISTANCE = Fin 60"
definition MAX_AUDIO_DIST :: fp where "MAX_AUDIO_DIST = Fin 50"

text \<open>\<open>std::f64::consts::FRAC_PI_4\<close> and \<open>std::f32::consts::FRAC_1_SQRT_2\<close>, the decimal
  literals of the standard library.\<close>

definition FRAC_PI_4 :: fp where
  "FRAC_PI_4 = rnd F64 (785398163397448309615660845819875721 / 10 ^ 36)"

definition FRAC_1_SQRT_2 :: fp where
  "FRAC_1_SQRT_2 = rnd F32 (707106781186547524400844362104849039 / 10 ^ 36)"

section \<open>Attenuation and tether\<close>

definition distance_gain :: "fp \<Rightarrow> fp" where
  "distance_gain distance =
     (if fp_le distance REF_DISTANCE then Fin 1
      else if fp_le MAX_DISTANCE distance then Fin 0
      else fcast F32 (fsub F64 (Fin 1)
             (fdiv F64 (fsub F64 distance REF_DISTANCE) (fsub F64 MAX_DISTANCE REF_DISTANCE))))"

definition v3_sub :: "vec3 \<Rightarrow> vec3 \<Rightarrow> vec3" where
  "v3_sub = (\<lambda>(a0, a1, a2) (b0, b1, b2). (fsub F64 a0 b0, fsub F64 a1 b1, fsub F64 a2 b2))"

text \<open>\<open>(x*x + y*y + z*z).sqrt()\<close>, in the order the code adds.\<close>

definition v3_norm :: "vec3 \<Rightarrow> fp" where
  "v3_norm = (\<lambda>(x, y, z).
     fsqrt F64 (fadd F64 (fadd F64 (fmul F64 x x) (fmul F64 y y)) (fmul F64 z z)))"

definition tether :: "vec3 \<Rightarrow> vec3 \<Rightarrow> vec3" where
  "tether listener avatar =
     (let off = v3_sub listener avatar; d = v3_norm off
      in if fp_le d MAX_AUDIO_DIST \<or> fp_eq d (Fin 0) then listener
         else let k = fdiv F64 MAX_AUDIO_DIST d
              in case avatar of (a0, a1, a2) \<Rightarrow> case off of (o0, o1, o2) \<Rightarrow>
                (fadd F64 a0 (fmul F64 o0 k), fadd F64 a1 (fmul F64 o1 k), fadd F64 a2 (fmul F64 o2 k)))"

section \<open>Panning\<close>

definition world_to_local :: "vec3 \<Rightarrow> vec4 \<Rightarrow> vec3" where
  "world_to_local = (\<lambda>(v0, v1, v2) (q0, q1, q2, q3).
     let qx = fneg q0; qy = fneg q1; qz = fneg q2; qw = q3;
         tx = fmul F64 (Fin 2) (fsub F64 (fmul F64 qy v2) (fmul F64 qz v1));
         ty = fmul F64 (Fin 2) (fsub F64 (fmul F64 qz v0) (fmul F64 qx v2));
         tz = fmul F64 (Fin 2) (fsub F64 (fmul F64 qx v1) (fmul F64 qy v0))
     in (fadd F64 (fadd F64 v0 (fmul F64 qw tx)) (fsub F64 (fmul F64 qy tz) (fmul F64 qz ty)),
         fadd F64 (fadd F64 v1 (fmul F64 qw ty)) (fsub F64 (fmul F64 qz tx) (fmul F64 qx tz)),
         fadd F64 (fadd F64 v2 (fmul F64 qw tz)) (fsub F64 (fmul F64 qx ty) (fmul F64 qy tx))))"

definition pan_weights :: "libm \<Rightarrow> vec3 \<Rightarrow> vec3 \<Rightarrow> vec4 \<Rightarrow> fp \<times> fp" where
  "pan_weights L speaker_world listener_pos listener_rot =
     (case world_to_local (v3_sub speaker_world listener_pos) listener_rot of (l0, l1, l2) \<Rightarrow>
       let horiz = fsqrt F64 (fadd F64 (fmul F64 l0 l0) (fmul F64 l1 l1));
           lateral = (if fp_lt horiz (rnd F64 (1 / 10 ^ 6)) then Fin 0 else fdiv F64 l0 horiz);
           angle = fmul F64 (fadd F64 (fp_clamp (Fin (- 1)) (Fin 1) lateral) (Fin 1)) FRAC_PI_4
       in (fcast F32 (m_cos L angle), fcast F32 (m_sin L angle)))"

section \<open>Level meter\<close>

definition level_to_wire :: "fp list \<Rightarrow> u8" where
  "level_to_wire frame =
     (if frame = [] then 0
      else let sum = fp_sum F32 (map (\<lambda>s. fmul F32 s s) frame);
               rms = fsqrt F32 (fdiv F32 sum (fp_of_int F32 (int (length frame))));
               scaled = fp_min (fmul F32 rms (Fin 4)) (Fin 1)
           in fp_as_u8 (fp_min (fmul F32 scaled LEVEL_SCALE_TO_WIRE) (Fin 127)))"

section \<open>Stereo sum\<close>

record contribution =
  c_frame :: "fp list"
  c_gain :: fp
  c_pan :: "fp \<times> fp"

text \<open>The inner loop: sample \<open>i\<close> of the frame is added to \<open>out[2i]\<close> and \<open>out[2i+1]\<close>. An
  index past the buffer panics (\<open>None\<close>).\<close>

fun add_frame :: "fp \<Rightarrow> fp \<Rightarrow> fp list \<Rightarrow> fp list \<Rightarrow> fp list option" where
  "add_frame gl gr [] out = Some out"
| "add_frame gl gr (s # ss) (l # r # out) =
     map_option (\<lambda>rest. fadd F32 l (fmul F32 s gl) # fadd F32 r (fmul F32 s gr) # rest)
       (add_frame gl gr ss out)"
| "add_frame gl gr (s # ss) out = None"

fun add_contributions :: "contribution list \<Rightarrow> fp list \<Rightarrow> fp list option" where
  "add_contributions [] out = Some out"
| "add_contributions (c # cs) out =
     (if fp_le (c_gain c) (Fin 0) then add_contributions cs out
      else let gl = fmul F32 (c_gain c) (fst (c_pan c)); gr = fmul F32 (c_gain c) (snd (c_pan c))
           in Option.bind (add_frame gl gr (take FRAME_SAMPLES (c_frame c)) out) (add_contributions cs))"

definition soft_clip :: "libm \<Rightarrow> fp \<Rightarrow> fp" where
  "soft_clip L s = (if fp_lt (Fin 1) s \<or> fp_lt s (Fin (- 1)) then m_tanh L s else s)"

definition mix_stereo :: "libm \<Rightarrow> contribution list \<Rightarrow> fp list \<Rightarrow> fp list option" where
  "mix_stereo L contributions out =
     map_option (map (soft_clip L))
       (add_contributions contributions (replicate (length out) (Fin 0)))"

section \<open>Attenuation\<close>

text \<open>The part of the curve between the two distances, on reals.\<close>

definition mid_gain :: "real \<Rightarrow> real" where
  "mid_gain x = rnd_real F32 (rnd_real F64 (1 - rnd_real F64 (rnd_real F64 (x - 10) / 50)))"

lemma rnd_between_real: "repr f lo \<Longrightarrow> repr f hi \<Longrightarrow> lo \<le> x \<Longrightarrow> x \<le> hi \<Longrightarrow> lo \<le> rnd_real f x \<and> rnd_real f x \<le> hi"
  by (rule rd.between)

lemma mid_gain_antitone: "x \<le> y \<Longrightarrow> mid_gain y \<le> mid_gain x"
  unfolding mid_gain_def by (intro rd.rd_mono diff_left_mono divide_right_mono diff_right_mono) auto

lemma mid_gain_range: "10 \<le> x \<Longrightarrow> x \<le> 60 \<Longrightarrow> 0 \<le> mid_gain x \<and> mid_gain x \<le> 1"
proof -
  assume "10 \<le> x" "x \<le> 60"
  then have "0 \<le> rnd_real F64 (x - 10) \<and> rnd_real F64 (x - 10) \<le> 50"
    by (intro rnd_between_real) auto
  then have "0 \<le> rnd_real F64 (rnd_real F64 (x - 10) / 50) \<and> rnd_real F64 (rnd_real F64 (x - 10) / 50) \<le> 1"
    by (intro rnd_between_real) auto
  then have "0 \<le> rnd_real F64 (1 - rnd_real F64 (rnd_real F64 (x - 10) / 50)) \<and>
    rnd_real F64 (1 - rnd_real F64 (rnd_real F64 (x - 10) / 50)) \<le> 1"
    by (intro rnd_between_real) auto
  then show ?thesis unfolding mid_gain_def by (intro rnd_between_real) auto
qed

lemma rnd_small: "\<bar>x\<bar> \<le> 2 ^ 127 \<Longrightarrow> rnd f x = Fin (rnd_real f x)"
  by (intro rnd_Fin small_maxfin)

lemma abs_rnd_small: "\<bar>x\<bar> \<le> n \<Longrightarrow> repr f n \<Longrightarrow> \<bar>rnd_real f x\<bar> \<le> n"
  by (rule rd.abs_le)

lemma distance_gain_mid:
  assumes "10 < x" "x < 60" shows "distance_gain (Fin x) = Fin (mid_gain x)"
proof -
  have a: "0 \<le> rnd_real F64 (x - 10) \<and> rnd_real F64 (x - 10) \<le> 50"
    using assms by (intro rnd_between_real) auto
  then have b: "0 \<le> rnd_real F64 (rnd_real F64 (x - 10) / 50) \<and> rnd_real F64 (rnd_real F64 (x - 10) / 50) \<le> 1"
    by (intro rnd_between_real) auto
  then have c: "0 \<le> rnd_real F64 (1 - rnd_real F64 (rnd_real F64 (x - 10) / 50)) \<and>
    rnd_real F64 (1 - rnd_real F64 (rnd_real F64 (x - 10) / 50)) \<le> 1"
    by (intro rnd_between_real) auto
  show ?thesis
    using assms a b c
    by (simp add: distance_gain_def REF_DISTANCE_def MAX_DISTANCE_def fsub_def rnd_small rnd_real_repr mid_gain_def)
qed

lemma distance_gain_cases:
  assumes "d \<noteq> FNaN"
  obtains (near) "fp_le d (Fin 10)" "distance_gain d = Fin 1"
    | (mid) x where "d = Fin x" "10 < x" "x < 60" "distance_gain d = Fin (mid_gain x)"
    | (far) "fp_le (Fin 60) d" "\<not> fp_le d (Fin 10)" "distance_gain d = Fin 0"
proof (cases "fp_le d (Fin 10)")
  case True
  then show thesis by (intro near) (simp_all add: distance_gain_def REF_DISTANCE_def)
next
  case n: False
  show thesis
  proof (cases "fp_le (Fin 60) d")
    case True
    then show thesis using n by (intro far) (simp_all add: distance_gain_def REF_DISTANCE_def MAX_DISTANCE_def)
  next
    case False
    then obtain x where "d = Fin x" using n assms by (cases d) auto
    then show thesis using n False by (intro mid) (simp_all add: distance_gain_mid)
  qed
qed

lemma distance_gain_range:
  assumes "d \<noteq> FNaN" shows "fbetween 0 1 (distance_gain d)"
  using assms
proof (cases rule: distance_gain_cases)
  case (mid x)
  then show ?thesis using mid_gain_range [of x] by simp
qed simp_all

lemma distance_gain_antitone:
  assumes "fp_le a b" shows "fp_le (distance_gain b) (distance_gain a)"
proof -
  have nn: "a \<noteq> FNaN" "b \<noteq> FNaN" using assms by auto
  note ra = distance_gain_range [OF nn(1)]
  from nn(2) show ?thesis
  proof (cases rule: distance_gain_cases)
    case near
    then have "fp_le a (Fin 10)" using assms fp_le_trans by blast
    then show ?thesis using near by (simp add: distance_gain_def REF_DISTANCE_def)
  next
    case b: (mid y)
    from nn(1) show ?thesis
    proof (cases rule: distance_gain_cases)
      case near
      then show ?thesis using b mid_gain_range [of y] by simp
    next
      case (mid x)
      then show ?thesis using b assms mid_gain_antitone [of x y] by simp
    next
      case far
      then have "fp_le (Fin 60) (Fin y)" using b assms fp_le_trans by blast
      then show ?thesis using b by simp
    qed
  next
    case far
    then show ?thesis using ra by (auto elim!: fbetweenE)
  qed
qed

lemma below_60:
  assumes "repr F64 x" "x < 60" shows "x \<le> 60 - 1 / 2 ^ 47"
proof (cases "32 \<le> x")
  case True
  have "bexp x = 5" using True assms(2) pow2_nat [of 5] pow2_nat [of 6]
    by (intro bexp_unique) simp_all
  then have q: "qexp F64 x = -47" by (simp add: qexp_def prec_def emin_def)
  have p: "pow2 (- 47) = 1 / 2 ^ 47" using pow2_minus [of 47] pow2_nat [of 47] by simp
  define n where "n = rne (x / pow2 (- 47))"
  have x: "x = of_int n / 2 ^ 47"
    using rnd_real_repr [OF assms(1)] True by (simp add: rnd_real_def q n_def p)
  then have "real_of_int n < of_int (60 * 2 ^ 47)" using assms(2) by (simp add: divide_less_eq)
  then have "n \<le> 60 * 2 ^ 47 - 1" by (simp only: of_int_less_iff)
  then have "real_of_int n \<le> of_int (60 * 2 ^ 47 - 1)" by (simp only: of_int_le_iff)
  then show ?thesis using x by (simp add: field_simps)
next
  case False
  then show ?thesis by simp
qed

lemma mid_gain_last: "0 < mid_gain (60 - 1 / 2 ^ 47)"
proof -
  have s: "(60 - 1 / 2 ^ 47 :: real) - 10 = 7036874417766399 / 140737488355328" by simp
  have 1: "rnd_real F64 (7036874417766399 / 140737488355328) = 7036874417766399 / 140737488355328"
    by code_simp
  have 2: "rnd_real F64 (7036874417766399 / 140737488355328 / 50) = 9007199254740991 / 9007199254740992"
    by code_simp
  have 3: "rnd_real F64 (1 - 9007199254740991 / 9007199254740992) = 1 / 9007199254740992"
    by code_simp
  have 4: "rnd_real F32 (1 / 9007199254740992) = 1 / 9007199254740992"
    by code_simp
  show ?thesis unfolding mid_gain_def s 1 2 3 4 by simp
qed


lemma gain_zero_iff:
  assumes "repr F64 x" shows "distance_gain (Fin x) = Fin 0 \<longleftrightarrow> 60 \<le> x"
proof -
  have "mid_gain x \<noteq> 0" if "x < 60"
    using mid_gain_antitone [OF below_60 [OF assms that]] mid_gain_last by linarith
  then show ?thesis
    using distance_gain_mid [of x]
    by (auto simp: distance_gain_def REF_DISTANCE_def MAX_DISTANCE_def split: if_splits)
qed

section \<open>The tether\<close>

definition n3 :: "real \<Rightarrow> real \<Rightarrow> real \<Rightarrow> real" where
  "n3 x y z = sqrt (x\<^sup>2 + y\<^sup>2 + z\<^sup>2)"

lemma n3_nested: "n3 x y z = sqrt ((sqrt (x\<^sup>2 + y\<^sup>2))\<^sup>2 + z\<^sup>2)"
  by (simp add: n3_def)

lemma n3_triangle: "n3 (a + d) (b + e) (c + f) \<le> n3 a b c + n3 d e f"
proof -
  have "sqrt ((a + d)\<^sup>2 + (b + e)\<^sup>2) \<le> sqrt (a\<^sup>2 + b\<^sup>2) + sqrt (d\<^sup>2 + e\<^sup>2)"
    by (rule real_sqrt_sum_squares_triangle_ineq)
  then have "(sqrt ((a + d)\<^sup>2 + (b + e)\<^sup>2))\<^sup>2 \<le> (sqrt (a\<^sup>2 + b\<^sup>2) + sqrt (d\<^sup>2 + e\<^sup>2))\<^sup>2"
    by (intro power_mono) auto
  then have "n3 (a + d) (b + e) (c + f) \<le> sqrt ((sqrt (a\<^sup>2 + b\<^sup>2) + sqrt (d\<^sup>2 + e\<^sup>2))\<^sup>2 + (c + f)\<^sup>2)"
    unfolding n3_nested by simp
  also have "\<dots> \<le> n3 a b c + n3 d e f"
    unfolding n3_nested by (rule real_sqrt_sum_squares_triangle_ineq)
  finally show ?thesis .
qed

lemma n3_scale: "0 \<le> k \<Longrightarrow> n3 (k * a) (k * b) (k * c) = k * n3 a b c"
proof -
  assume k: "0 \<le> k"
  have "(k * a)\<^sup>2 + (k * b)\<^sup>2 + (k * c)\<^sup>2 = k\<^sup>2 * (a\<^sup>2 + b\<^sup>2 + c\<^sup>2)"
    by (simp add: power_mult_distrib algebra_simps)
  then show ?thesis using k by (simp add: n3_def real_sqrt_mult)
qed

lemma n3_mono: "\<bar>a\<bar> \<le> \<bar>d\<bar> \<Longrightarrow> \<bar>b\<bar> \<le> \<bar>e\<bar> \<Longrightarrow> \<bar>c\<bar> \<le> \<bar>f\<bar> \<Longrightarrow> n3 a b c \<le> n3 d e f"
  unfolding n3_def by (intro real_sqrt_le_mono add_mono) (simp_all add: abs_le_square_iff)

lemma n3_sum: "n3 a b c \<le> \<bar>a\<bar> + \<bar>b\<bar> + \<bar>c\<bar>"
proof -
  have "n3 a b c \<le> \<bar>sqrt (a\<^sup>2 + b\<^sup>2)\<bar> + \<bar>c\<bar>" unfolding n3_nested by (rule sqrt_sum_squares_le_sum_abs)
  also have "\<dots> \<le> \<bar>a\<bar> + \<bar>b\<bar> + \<bar>c\<bar>" using sqrt_sum_squares_le_sum_abs [of a b] by simp
  finally show ?thesis .
qed

lemma n3_nonneg [simp]: "0 \<le> n3 a b c"
  by (simp add: n3_def)

lemma n3_abs [simp]: "n3 \<bar>a\<bar> \<bar>b\<bar> \<bar>c\<bar> = n3 a b c"
  by (simp add: n3_def)

text \<open>If three numbers are close to three others relative to a ratio and a constant, so are the lengths.\<close>

lemma n3_close:
  assumes "\<bar>a - d\<bar> \<le> r * \<bar>d\<bar> + e" "\<bar>b - d'\<bar> \<le> r * \<bar>d'\<bar> + e" "\<bar>c - d''\<bar> \<le> r * \<bar>d''\<bar> + e" "0 \<le> r" "0 \<le> e"
  shows "n3 a b c \<le> (1 + r) * n3 d d' d'' + 3 * e"
proof -
  have "n3 a b c \<le> n3 d d' d'' + n3 (a - d) (b - d') (c - d'')"
    using n3_triangle [of d "a - d" d' "b - d'" d'' "c - d''"] by simp
  also have "n3 (a - d) (b - d') (c - d'') \<le> n3 (r * \<bar>d\<bar> + e) (r * \<bar>d'\<bar> + e) (r * \<bar>d''\<bar> + e)"
    using assms by (intro n3_mono) auto
  also have "\<dots> \<le> n3 (r * \<bar>d\<bar>) (r * \<bar>d'\<bar>) (r * \<bar>d''\<bar>) + n3 e e e"
    by (rule n3_triangle)
  also have "\<dots> \<le> r * n3 d d' d'' + 3 * e"
    using n3_sum [of e e e] assms(4,5) by (simp add: n3_scale)
  finally show ?thesis by (simp add: algebra_simps)
qed

text \<open>The unit roundoff \<open>2^-53\<close>, and an absolute error far above the subnormal one.\<close>

abbreviation (input) uu :: real where "uu \<equiv> 1 / 9007199254740992"
abbreviation (input) ee :: real where "ee \<equiv> 1 / 10 ^ 50"

lemma pow2_m53: "pow2 (- 53) = uu"
  using pow2_minus [of 53] pow2_nat [of 53] by simp

lemma rnd_rel:
  assumes "pow2 (- 1022) \<le> \<bar>x\<bar>" shows "\<bar>rnd_real F64 x - x\<bar> \<le> uu * \<bar>x\<bar>"
proof -
  have x0: "x \<noteq> 0" using assms pow2_pos [of "- 1022"] by (auto simp: not_le [symmetric] simp del: pow2_pos)
  have "- 1022 \<le> bexp x"
  proof (rule ccontr)
    assume "\<not> ?thesis"
    then have "pow2 (bexp x + 1) \<le> pow2 (- 1022)" by (subst pow2_le_iff) simp
    then show False using bexp_bounds(2) [OF x0] assms by linarith
  qed
  then have "qexp F64 x = bexp x - 52" by (simp add: qexp_def emin_def prec_def)
  then have "pow2 (qexp F64 x) / 2 = pow2 (bexp x - 53)"
    using pow2_succ [of "bexp x - 53"] by simp
  also have "\<dots> = pow2 (bexp x) * uu" using pow2_add [of "bexp x" "- 53"] pow2_m53 by simp
  also have "\<dots> \<le> \<bar>x\<bar> * uu" using bexp_bounds(1) [OF x0] by (intro mult_right_mono) auto
  finally show ?thesis using rnd_real_error [of F64 x] by simp
qed

lemma rnd_err: "\<bar>rnd_real F64 x - x\<bar> \<le> uu * \<bar>x\<bar> + ee"
proof (cases "pow2 (- 1022) \<le> \<bar>x\<bar>")
  case True
  show ?thesis using rnd_rel [OF True] by simp
next
  case False
  show ?thesis
  proof (cases "x = 0")
    case x0: False
    have "bexp x \<le> - 1022" using bexp_less [OF x0, of "- 1022"] False by simp
    then have "qexp F64 x = - 1074" by (simp add: qexp_def emin_def prec_def)
    moreover have "pow2 (- 1074) \<le> pow2 (- 170)" by simp
    moreover have "pow2 (- 170) \<le> ee"
      using pow2_minus [of 170] pow2_nat [of 170] by (simp add: field_simps)
    moreover have "pow2 (- 1074) \<ge> 0" by simp
    ultimately have "\<bar>rnd_real F64 x - x\<bar> \<le> ee" using rnd_real_error [of F64 x] by (simp only:)
    then show ?thesis by (rule order_trans) simp
  qed simp
qed


lemma rnd_err_nonneg:
  assumes "0 \<le> x"
  shows "x * (1 - uu) - ee \<le> rnd_real F64 x" "rnd_real F64 x \<le> x * (1 + uu) + ee"
  using rnd_err [of x] assms by (auto simp: abs_le_iff algebra_simps)

text \<open>The computed length, when it is finite, is the length up to rounding.\<close>


lemma rnd_nonneg_cases:
  assumes "0 \<le> x" shows "rnd f x = FInf False \<or> rnd f x = Fin (rnd_real f x)"
  using rd.nonneg [of f x] assms by (auto simp: rnd_def Let_def)

lemma fsqrt_Fin_D: "fsqrt f a = Fin y \<Longrightarrow> y \<le> maxfin f"
  by (cases a) (auto dest: rnd_Fin_D split: if_splits)

lemma v3_norm_cases:
  "v3_norm (Fin x, Fin y, Fin z) = FInf False \<or>
   (\<exists>d. v3_norm (Fin x, Fin y, Fin z) = Fin d \<and> 0 \<le> d \<and> d \<le> maxfin F64 \<and> n3 x y z \<le> d * (1 + 8 * uu) + 1 / 10 ^ 20)"
proof -
  define p where "p = rnd_real F64 (x * x)"
  define q where "q = rnd_real F64 (y * y)"
  define r where "r = rnd_real F64 (z * z)"
  define s where "s = rnd_real F64 (rnd_real F64 (p + q) + r)"
  have nn: "0 \<le> p" "0 \<le> q" "0 \<le> r" by (simp_all add: p_def q_def r_def rd.nonneg)
  then have t0: "0 \<le> rnd_real F64 (p + q)" by (simp add: rd.nonneg)
  then have s0: "0 \<le> s" using nn by (simp add: s_def rd.nonneg)
  have dd: "v3_norm (Fin x, Fin y, Fin z) = FInf False \<or>
    v3_norm (Fin x, Fin y, Fin z) = Fin (rnd_real F64 (sqrt s))"
    using rnd_nonneg_cases [of "x * x" F64] rnd_nonneg_cases [of "y * y" F64]
      rnd_nonneg_cases [of "z * z" F64] rnd_nonneg_cases [of "p + q" F64]
      rnd_nonneg_cases [of "rnd_real F64 (p + q) + r" F64] rnd_nonneg_cases [of "sqrt s" F64] nn t0 s0
    unfolding v3_norm_def by (auto simp: p_def [symmetric] q_def [symmetric] r_def [symmetric] s_def [symmetric])
  define d where "d = rnd_real F64 (sqrt s)"
  have d0: "0 \<le> d" using s0 by (simp add: d_def rd.nonneg)
  have "x * x * (1 - uu) - ee \<le> p" "y * y * (1 - uu) - ee \<le> q" "z * z * (1 - uu) - ee \<le> r"
    "(p + q) * (1 - uu) - ee \<le> rnd_real F64 (p + q)"
    "(rnd_real F64 (p + q) + r) * (1 - uu) - ee \<le> s"
    using nn t0 by (auto simp only: p_def q_def r_def s_def intro!: rnd_err_nonneg(1) add_nonneg_nonneg zero_le_square)
  moreover have "0 \<le> x * x" "0 \<le> y * y" "0 \<le> z * z" by simp_all
  ultimately have "x * x + y * y + z * z \<le> s * (1 + 4 * uu) + 6 * ee"
    using nn t0 s0 by (simp add: field_simps)
  then have "n3 x y z \<le> sqrt (s * (1 + 4 * uu) + 6 * ee)"
    by (simp add: n3_def power2_eq_square)
  also have "\<dots> \<le> sqrt (s * (1 + 4 * uu)) + sqrt (6 * ee)"
    using s0 by (intro sqrt_add_le_add_sqrt) auto
  also have "sqrt (6 * ee) \<le> 1 / 10 ^ 21" by (rule real_le_lsqrt) (simp_all add: power_divide)
  also have "sqrt (s * (1 + 4 * uu)) \<le> sqrt (s * (1 + 4 * uu)\<^sup>2)"
    using s0 by (intro real_sqrt_le_mono mult_left_mono) (simp_all add: power2_eq_square)
  also have "\<dots> = sqrt s * (1 + 4 * uu)" by (simp add: real_sqrt_mult)
  finally have a: "n3 x y z \<le> sqrt s * (1 + 4 * uu) + 1 / 10 ^ 21" by simp
  have "sqrt s * (1 - uu) - ee \<le> d" using s0 by (simp only: d_def rnd_err_nonneg(1) real_sqrt_ge_zero)
  then have "sqrt s \<le> d * (1 + 2 * uu) + 2 * ee" using d0 by (simp add: field_simps)
  then have "n3 x y z \<le> d * (1 + 8 * uu) + 1 / 10 ^ 20" using a d0 by (simp add: field_simps)
  moreover have "d \<le> maxfin F64" if "v3_norm (Fin x, Fin y, Fin z) = Fin d"
    using that by (auto simp: v3_norm_def dest: fsqrt_Fin_D)
  ultimately show ?thesis using dd d0 by (auto simp: d_def)
qed


definition ear_ok :: "vec3 \<Rightarrow> bool" where
  "ear_ok = (\<lambda>(x, y, z). \<forall>c \<in> {x, y, z}. fbetween (- (2 * coord_bound)) (2 * coord_bound) c)"

lemma repr_pow2_coord: "0 \<le> k \<Longrightarrow> k \<le> 5 \<Longrightarrow> repr F64 (pow2 k * coord_bound) \<and> pow2 k * coord_bound \<le> maxfin F64"
proof -
  assume k: "0 \<le> k" "k \<le> 5"
  have e: "pow2 k * coord_bound = pow2 (k + 1018)" by (simp add: coord_bound_def pow2_add)
  have "pow2 (k + 1018) \<le> pow2 1023" using k by (intro pow2_mono) simp
  moreover have "pow2 1023 \<le> maxfin F64"
  proof -
    have "1 \<le> 2 - pow2 (- 52)" using pow2_le_iff [of "- 52" 0] by (simp del: pow2_le_iff)
    then have "1 * pow2 1023 \<le> (2 - pow2 (- 52)) * pow2 1023" by (intro mult_right_mono) auto
    then show ?thesis by (simp add: maxfin_def emax_def prec_def)
  qed
  ultimately have "pow2 (k + 1018) \<le> maxfin F64" by (rule order_trans)
  then show ?thesis using k by (simp add: e repr_pow2 emin_def prec_def)
qed

lemma coord_multiples [simp]:
  "repr F64 (2 * coord_bound)" "2 * coord_bound \<le> maxfin F64"
  "repr F64 (4 * coord_bound)" "4 * coord_bound \<le> maxfin F64" "0 < coord_bound"
  using repr_pow2_coord [of 1] repr_pow2_coord [of 2] pow2_nat [of 2] coord_bound_maxfin(3) by simp_all

lemma coord_bound_big: "2 ^ 100 \<le> coord_bound"
proof -
  have "pow2 100 \<le> pow2 1018" by (intro pow2_mono) simp
  then show ?thesis using pow2_nat [of 100] unfolding coord_bound_def by (simp only: nat_numeral of_nat_numeral)
qed

lemma coord_diff:
  assumes "\<bar>x\<bar> \<le> 2 * coord_bound" "\<bar>a\<bar> \<le> coord_bound"
  shows "fsub F64 (Fin x) (Fin a) = Fin (rnd_real F64 (x - a))" "\<bar>rnd_real F64 (x - a)\<bar> \<le> 4 * coord_bound"
proof -
  have d: "\<bar>x - a\<bar> \<le> 4 * coord_bound" using assms by simp
  then show "\<bar>rnd_real F64 (x - a)\<bar> \<le> 4 * coord_bound" by (rule rd.abs_le [OF coord_multiples(3)])
  have "\<bar>x - a\<bar> \<le> maxfin F64" using d coord_multiples(4) by linarith
  then show "fsub F64 (Fin x) (Fin a) = Fin (rnd_real F64 (x - a))" by (simp add: fsub_def rnd_Fin)
qed

text \<open>One component of the clamped position: the avatar plus a small offset.\<close>

lemma tether_component:
  assumes "\<bar>a\<bar> \<le> coord_bound" "\<bar>v\<bar> \<le> 51"
  shows "fadd F64 (Fin a) (Fin v) = Fin (rnd_real F64 (a + v))"
    "\<bar>rnd_real F64 (a + v)\<bar> \<le> 2 * coord_bound"
    "\<bar>(rnd_real F64 (a + v) - a) - v\<bar> \<le> uu * \<bar>v\<bar> + (uu * \<bar>a\<bar> + ee)"
proof -
  have "(51::real) \<le> 2 ^ 100" by simp
  then have "\<bar>v\<bar> \<le> coord_bound" using assms(2) coord_bound_big by linarith
  then have b: "\<bar>a + v\<bar> \<le> 2 * coord_bound" using assms(1) by linarith
  then show "\<bar>rnd_real F64 (a + v)\<bar> \<le> 2 * coord_bound" by (rule rd.abs_le [OF coord_multiples(1)])
  have "\<bar>a + v\<bar> \<le> maxfin F64" using b coord_multiples(2) by linarith
  then show "fadd F64 (Fin a) (Fin v) = Fin (rnd_real F64 (a + v))" by (simp add: rnd_Fin)
  have "uu * \<bar>a + v\<bar> \<le> uu * (\<bar>a\<bar> + \<bar>v\<bar>)" by (intro mult_left_mono abs_triangle_ineq) simp
  then show "\<bar>(rnd_real F64 (a + v) - a) - v\<bar> \<le> uu * \<bar>v\<bar> + (uu * \<bar>a\<bar> + ee)"
    using rnd_err [of "a + v"] by (simp add: diff_diff_eq distrib_left)
qed

text \<open>Scaling an offset of length \<open>d > 50\<close> back by \<open>50 / d\<close>.\<close>

lemma scale_back:
  assumes "50 < d" "n \<le> d * (1 + 8 * uu) + 1 / 10 ^ 20" "0 \<le> n" "d \<le> maxfin F64"
  shows "rnd_real F64 (50 / d) * n \<le> 50 * (1 + 20 * uu)" "0 \<le> rnd_real F64 (50 / d)"
    "rnd_real F64 (50 / d) \<le> 1"
proof -
  define k where "k = rnd_real F64 (50 / d)"
  show k0: "0 \<le> rnd_real F64 (50 / d)" using assms(1) by (intro rd.nonneg) auto
  show "rnd_real F64 (50 / d) \<le> 1" using rd.rd_mono [of "50 / d" 1 F64] assms(1) by (simp add: rnd_real_repr)
  have "pow2 (- 1022) = 4 * pow2 (- 1024)" using pow2_add [of 2 "- 1024"] pow2_nat [of 2] by simp
  also have "\<dots> = 4 / pow2 1024" using pow2_minus [of 1024] by simp
  also have "\<dots> \<le> 4 / d"
    using assms(1,4) maxfin_less [of F64] by (intro divide_left_mono) (auto simp: emax_def)
  also have "\<dots> \<le> 50 / d" using assms(1) by (intro divide_right_mono) auto
  finally have "\<bar>k - 50 / d\<bar> \<le> uu * (50 / d)"
    using rnd_rel [of "50 / d"] assms(1) by (simp add: k_def)
  then have "k - 50 / d \<le> uu * (50 / d)" by (simp only: abs_le_iff)
  moreover have "50 / d * (1 + uu) = 50 / d + uu * (50 / d)" by (simp only: distrib_left mult.commute mult_1)
  ultimately have "k \<le> 50 / d * (1 + uu)" by linarith
  then have "k * n \<le> 50 / d * (1 + uu) * (d * (1 + 8 * uu) + 1 / 10 ^ 20)"
    using assms k0 by (intro mult_mono) (auto simp: k_def)
  also have "\<dots> = 50 * (1 + uu) * (1 + 8 * uu) + 50 / d * (1 + uu) * (1 / 10 ^ 20)"
    using assms(1) by (simp add: field_simps)
  also have "50 / d * (1 + uu) * (1 / 10 ^ 20) \<le> 1 * (1 + uu) * (1 / 10 ^ 20)"
    using assms(1) by (intro mult_right_mono) auto
  finally have "k * n \<le> 50 * (1 + uu) * (1 + 8 * uu) + 1 * (1 + uu) * (1 / 10 ^ 20)" by simp
  then show "rnd_real F64 (50 / d) * n \<le> 50 * (1 + 20 * uu)" by (simp add: k_def)
qed


lemma ear_ok_iff: "ear_ok (x, y, z) \<longleftrightarrow> (\<exists>p q r. x = Fin p \<and> y = Fin q \<and> z = Fin r \<and>
    \<bar>p\<bar> \<le> 2 * coord_bound \<and> \<bar>q\<bar> \<le> 2 * coord_bound \<and> \<bar>r\<bar> \<le> 2 * coord_bound)"
  by (auto simp: ear_ok_def abs_le_iff fbetween_def split: fp.splits)

lemma vec3_ok_iff: "vec3_ok (x, y, z) \<longleftrightarrow> (\<exists>p q r. x = Fin p \<and> y = Fin q \<and> z = Fin r \<and>
    \<bar>p\<bar> \<le> coord_bound \<and> \<bar>q\<bar> \<le> coord_bound \<and> \<bar>r\<bar> \<le> coord_bound)"
  by (auto simp: vec3_ok_def coord_ok_def abs_le_iff fbetween_def split: fp.splits)

lemma vec3_ok_ear_ok: "vec3_ok v \<Longrightarrow> ear_ok v"
  by (cases v) (force simp: ear_ok_iff vec3_ok_iff)

text \<open>The distance of a position from another, on reals.\<close>

definition near :: "real \<Rightarrow> vec3 \<Rightarrow> vec3 \<Rightarrow> bool" where
  "near d v w \<longleftrightarrow> (case (v, w) of
     ((Fin x, Fin y, Fin z), (Fin p, Fin q, Fin r)) \<Rightarrow> n3 (x - p) (y - q) (z - r) \<le> d | _ \<Rightarrow> False)"

definition span :: "vec3 \<Rightarrow> real" where
  "span v = (case v of (Fin x, Fin y, Fin z) \<Rightarrow> \<bar>x\<bar> + \<bar>y\<bar> + \<bar>z\<bar> | _ \<Rightarrow> 0)"

lemma rnd_inv_err: "\<bar>x - rnd_real F64 x\<bar> \<le> 2 * uu * \<bar>rnd_real F64 x\<bar> + 2 * ee"
  using rnd_err [of x] by (simp add: abs_if split: if_splits)

text \<open>The clamped branch, on reals, for an offset \<open>p\<close> of length below \<open>50\<close> and a bit.\<close>

lemma clamp_near:
  assumes "\<bar>r0 - a0 - v0\<bar> \<le> uu * \<bar>v0\<bar> + (uu * \<bar>a0\<bar> + ee)" "\<bar>r1 - a1 - v1\<bar> \<le> uu * \<bar>v1\<bar> + (uu * \<bar>a1\<bar> + ee)"
    "\<bar>r2 - a2 - v2\<bar> \<le> uu * \<bar>v2\<bar> + (uu * \<bar>a2\<bar> + ee)" "n3 v0 v1 v2 \<le> 50 * (1 + 30 * uu)"
  shows "n3 (r0 - a0) (r1 - a1) (r2 - a2) \<le> 50 + 1 / 10 ^ 12 + 3 * uu * (\<bar>a0\<bar> + \<bar>a1\<bar> + \<bar>a2\<bar>)"
proof -
  define s where "s = \<bar>a0\<bar> + \<bar>a1\<bar> + \<bar>a2\<bar>"
  have s: "\<bar>a0\<bar> \<le> s" "\<bar>a1\<bar> \<le> s" "\<bar>a2\<bar> \<le> s" by (simp_all add: s_def)
  have w: "uu * \<bar>a\<bar> + ee \<le> uu * s + ee" if "\<bar>a\<bar> \<le> s" for a using that by simp
  have "n3 (r0 - a0) (r1 - a1) (r2 - a2) \<le> (1 + uu) * n3 v0 v1 v2 + 3 * (uu * s + ee)"
  proof (rule n3_close)
    show "\<bar>r0 - a0 - v0\<bar> \<le> uu * \<bar>v0\<bar> + (uu * s + ee)" using assms(1) w [OF s(1)] by linarith
    show "\<bar>r1 - a1 - v1\<bar> \<le> uu * \<bar>v1\<bar> + (uu * s + ee)" using assms(2) w [OF s(2)] by linarith
    show "\<bar>r2 - a2 - v2\<bar> \<le> uu * \<bar>v2\<bar> + (uu * s + ee)" using assms(3) w [OF s(3)] by linarith
  qed (simp_all add: s_def)
  also have "(1 + uu) * n3 v0 v1 v2 \<le> (1 + uu) * (50 * (1 + 30 * uu))"
    using assms(4) by (intro mult_left_mono) auto
  finally show ?thesis unfolding s_def [symmetric] by simp
qed

lemma scaled_offset:
  assumes "0 \<le> k" "k \<le> 1" "k * n3 x y z \<le> 50 * (1 + 20 * uu)" "\<bar>x\<bar> \<le> 4 * coord_bound"
    "\<bar>y\<bar> \<le> 4 * coord_bound" "\<bar>z\<bar> \<le> 4 * coord_bound"
  shows "\<exists>v0 v1 v2. fmul F64 (Fin x) (Fin k) = Fin v0 \<and> fmul F64 (Fin y) (Fin k) = Fin v1 \<and>
    fmul F64 (Fin z) (Fin k) = Fin v2 \<and> n3 v0 v1 v2 \<le> 50 * (1 + 30 * uu)"
proof -
  have m: "fmul F64 (Fin w) (Fin k) = Fin (rnd_real F64 (w * k))" if "\<bar>w\<bar> \<le> 4 * coord_bound" for w
  proof -
    have "\<bar>w * k\<bar> \<le> 4 * coord_bound * 1" unfolding abs_mult using assms(1,2) that by (intro mult_mono) auto
    then have "\<bar>w * k\<bar> \<le> maxfin F64" using coord_multiples(4) by linarith
    then show ?thesis by (simp add: rnd_Fin)
  qed
  have "n3 (rnd_real F64 (x * k)) (rnd_real F64 (y * k)) (rnd_real F64 (z * k))
    \<le> (1 + uu) * n3 (x * k) (y * k) (z * k) + 3 * ee"
    by (intro n3_close rnd_err) auto
  also have "n3 (x * k) (y * k) (z * k) = k * n3 x y z"
    using n3_scale [OF assms(1), of x y z] by (simp only: mult.commute)
  also have "(1 + uu) * (k * n3 x y z) + 3 * ee \<le> (1 + uu) * (50 * (1 + 20 * uu)) + 3 * ee"
    using assms(3) by (intro add_mono mult_left_mono) auto
  also have "\<dots> \<le> 50 * (1 + 30 * uu)" by simp
  finally show ?thesis using m [OF assms(4)] m [OF assms(5)] m [OF assms(6)] by blast
qed

lemma component_le_n3: "\<bar>x\<bar> \<le> n3 x y z" "\<bar>y\<bar> \<le> n3 x y z" "\<bar>z\<bar> \<le> n3 x y z"
  unfolding n3_def by (rule real_le_rsqrt, simp)+

lemma tether_far:
  assumes "v3_sub listener (Fin a0, Fin a1, Fin a2) = (Fin x, Fin y, Fin z)"
    "\<not> (\<exists>d. v3_norm (Fin x, Fin y, Fin z) = Fin d \<and> d \<le> 50)"
    "\<bar>x\<bar> \<le> 4 * coord_bound" "\<bar>y\<bar> \<le> 4 * coord_bound" "\<bar>z\<bar> \<le> 4 * coord_bound"
  shows "\<exists>v0 v1 v2. n3 v0 v1 v2 \<le> 50 * (1 + 30 * uu) \<and> tether listener (Fin a0, Fin a1, Fin a2) =
    (fadd F64 (Fin a0) (Fin v0), fadd F64 (Fin a1) (Fin v1), fadd F64 (Fin a2) (Fin v2))"
proof -
  obtain d where d: "v3_norm (Fin x, Fin y, Fin z) = d" by blast
  have c: "d = FInf False \<or> (\<exists>r. d = Fin r \<and> 50 < r \<and> r \<le> maxfin F64 \<and> n3 x y z \<le> r * (1 + 8 * uu) + 1 / 10 ^ 20)"
    using v3_norm_cases [of x y z] assms(2) d by auto
  have "\<exists>k. fdiv F64 MAX_AUDIO_DIST d = Fin k \<and> 0 \<le> k \<and> k \<le> 1 \<and> k * n3 x y z \<le> 50 * (1 + 20 * uu)"
  proof (cases "d = FInf False")
    case False
    then obtain r where r: "d = Fin r" "50 < r" "r \<le> maxfin F64" "n3 x y z \<le> r * (1 + 8 * uu) + 1 / 10 ^ 20"
      using c by auto
    note s = scale_back [OF r(2,4) n3_nonneg r(3)]
    have "50 / r \<le> 1" "0 \<le> 50 / r" using r(2) by auto
    then have "\<bar>50 / r\<bar> \<le> maxfin F64" using one_le_maxfin [of F64] by linarith
    then have "fdiv F64 MAX_AUDIO_DIST d = Fin (rnd_real F64 (50 / r))"
      using r(1,2) by (simp add: MAX_AUDIO_DIST_def rnd_Fin)
    then show ?thesis using s by blast
  qed (simp add: MAX_AUDIO_DIST_def)
  then obtain k where k: "fdiv F64 MAX_AUDIO_DIST d = Fin k" "0 \<le> k" "k \<le> 1" "k * n3 x y z \<le> 50 * (1 + 20 * uu)"
    by blast
  obtain v0 v1 v2 where v: "fmul F64 (Fin x) (Fin k) = Fin v0" "fmul F64 (Fin y) (Fin k) = Fin v1"
    "fmul F64 (Fin z) (Fin k) = Fin v2" "n3 v0 v1 v2 \<le> 50 * (1 + 30 * uu)"
    using scaled_offset [OF k(2-4) assms(3-5)] by auto
  have "\<not> (fp_le d MAX_AUDIO_DIST \<or> fp_eq d (Fin 0))"
    using c by (auto simp: MAX_AUDIO_DIST_def fp_eq_def)
  then have "tether listener (Fin a0, Fin a1, Fin a2) =
    (fadd F64 (Fin a0) (Fin v0), fadd F64 (Fin a1) (Fin v1), fadd F64 (Fin a2) (Fin v2))"
    by (simp only: tether_def assms(1) d Let_def if_False prod.case k(1) v(1-3))
  then show ?thesis using v(4) by blast
qed

lemma tether_bound:
  assumes "ear_ok listener" "vec3_ok avatar"
  shows "near (50 + 1 / 10 ^ 12 + 3 * uu * span avatar) (tether listener avatar) avatar
    \<and> ear_ok (tether listener avatar)"
proof -
  obtain l0 l1 l2 where l: "listener = (Fin l0, Fin l1, Fin l2)" "\<bar>l0\<bar> \<le> 2 * coord_bound"
    "\<bar>l1\<bar> \<le> 2 * coord_bound" "\<bar>l2\<bar> \<le> 2 * coord_bound"
    using assms(1) by (cases listener) (auto simp: ear_ok_iff)
  obtain a0 a1 a2 where a: "avatar = (Fin a0, Fin a1, Fin a2)" "\<bar>a0\<bar> \<le> coord_bound"
    "\<bar>a1\<bar> \<le> coord_bound" "\<bar>a2\<bar> \<le> coord_bound"
    using assms(2) by (cases avatar) (auto simp: vec3_ok_iff)
  define o0 where "o0 = rnd_real F64 (l0 - a0)"
  define o1 where "o1 = rnd_real F64 (l1 - a1)"
  define o2 where "o2 = rnd_real F64 (l2 - a2)"
  have off: "v3_sub listener avatar = (Fin o0, Fin o1, Fin o2)"
    using l a by (simp add: v3_sub_def coord_diff o0_def o1_def o2_def)
  have ob: "\<bar>o0\<bar> \<le> 4 * coord_bound" "\<bar>o1\<bar> \<le> 4 * coord_bound" "\<bar>o2\<bar> \<le> 4 * coord_bound"
    using coord_diff(2) [OF l(2) a(2)] coord_diff(2) [OF l(3) a(3)] coord_diff(2) [OF l(4) a(4)]
    by (simp_all only: o0_def o1_def o2_def)
  have se: "span avatar = \<bar>a0\<bar> + \<bar>a1\<bar> + \<bar>a2\<bar>" by (simp add: span_def a)
  let ?d = "v3_norm (Fin o0, Fin o1, Fin o2)"
  show ?thesis
  proof (cases "\<exists>d. ?d = Fin d \<and> d \<le> 50")
    case True
    then obtain d where d: "?d = Fin d" "d \<le> 50" by blast
    have n: "n3 o0 o1 o2 \<le> 50 * (1 + 20 * uu)" using v3_norm_cases [of o0 o1 o2] d by auto
    have "n3 (l0 - a0) (l1 - a1) (l2 - a2) \<le> (1 + 2 * uu) * n3 o0 o1 o2 + 3 * (2 * ee)"
      using rnd_inv_err [of "l0 - a0"] rnd_inv_err [of "l1 - a1"] rnd_inv_err [of "l2 - a2"]
      by (intro n3_close) (simp_all only: o0_def o1_def o2_def, simp_all)
    also have "\<dots> \<le> (1 + 2 * uu) * (50 * (1 + 20 * uu)) + 3 * (2 * ee)"
      using n by (intro add_mono mult_left_mono) auto
    also have "\<dots> \<le> 50 + 1 / 10 ^ 12" by simp
    also have "\<dots> \<le> 50 + 1 / 10 ^ 12 + 3 * uu * span avatar" by (simp add: se)
    finally have "near (50 + 1 / 10 ^ 12 + 3 * uu * span avatar) listener avatar"
      by (simp add: near_def l(1) a(1))
    moreover have "tether listener avatar = listener"
      using d by (simp add: tether_def off Let_def MAX_AUDIO_DIST_def)
    ultimately show ?thesis using assms(1) by simp
  next
    case False
    obtain v0 v1 v2 where v: "n3 v0 v1 v2 \<le> 50 * (1 + 30 * uu)"
      "tether listener avatar = (fadd F64 (Fin a0) (Fin v0), fadd F64 (Fin a1) (Fin v1), fadd F64 (Fin a2) (Fin v2))"
      using tether_far [OF off [unfolded a(1)] False] ob a(1) by auto
    have v51: "\<bar>v0\<bar> \<le> 51" "\<bar>v1\<bar> \<le> 51" "\<bar>v2\<bar> \<le> 51"
      using component_le_n3 [where x = v0 and y = v1 and z = v2] v(1) by simp_all
    note t = tether_component [OF a(2) v51(1)] tether_component [OF a(3) v51(2)] tether_component [OF a(4) v51(3)]
    have "near (50 + 1 / 10 ^ 12 + 3 * uu * span avatar) (tether listener avatar) avatar"
      using clamp_near [OF t(3) t(6) t(9) v(1)] unfolding near_def v(2) t(1,4,7) se
      by (simp only: a(1) prod.case fp.case)
    moreover have "ear_ok (tether listener avatar)" using t by (simp add: v(2) ear_ok_iff)
    ultimately show ?thesis by simp
  qed
qed

section \<open>Panning\<close>

text \<open>\<open>mag k x\<close>: \<open>x\<close> is finite and at most \<open>2^k\<close> in magnitude.\<close>

definition mag :: "int \<Rightarrow> fp \<Rightarrow> bool" where
  "mag k x \<longleftrightarrow> fbetween (- pow2 k) (pow2 k) x"

lemma mag_Fin [simp]: "mag k (Fin x) \<longleftrightarrow> \<bar>x\<bar> \<le> pow2 k"
  by (auto simp: mag_def abs_le_iff)

lemma magE: assumes "mag k a" obtains x where "a = Fin x" "\<bar>x\<bar> \<le> pow2 k"
  using assms by (cases a) (auto simp: mag_def fbetween_def abs_le_iff)

lemma mag_mono: "mag k a \<Longrightarrow> k \<le> j \<Longrightarrow> mag j a"
  by (elim magE) (auto intro: order_trans [OF _ pow2_mono])

lemma mag_rnd: "\<bar>x\<bar> \<le> pow2 k \<Longrightarrow> - 1000 \<le> k \<Longrightarrow> k \<le> 1020 \<Longrightarrow> mag k (rnd F64 x)"
proof -
  assume x: "\<bar>x\<bar> \<le> pow2 k" and k: "- 1000 \<le> k" "k \<le> 1020"
  have m: "pow2 k \<le> maxfin F64"
  proof -
    have "pow2 k \<le> pow2 2 * pow2 1018" using k unfolding pow2_add [symmetric] by (intro pow2_mono) simp
    then show ?thesis using coord_multiples(4) pow2_nat [of 2] by (simp add: coord_bound_def)
  qed
  have r: "repr F64 (pow2 k)" using k by (intro repr_pow2) (simp add: emin_def prec_def)
  have "\<bar>x\<bar> \<le> maxfin F64" using x m by (rule order_trans)
  then show ?thesis using rd.abs_le [OF r x] by (simp add: rnd_Fin)
qed

lemma mag_mul: "mag k a \<Longrightarrow> mag j b \<Longrightarrow> - 1000 \<le> k + j \<Longrightarrow> k + j \<le> 1020 \<Longrightarrow> mag (k + j) (fmul F64 a b)"
  by (elim magE) (auto simp: abs_mult pow2_add intro!: mag_rnd mult_mono)

lemma mag_add: "mag k a \<Longrightarrow> mag k b \<Longrightarrow> - 1001 \<le> k \<Longrightarrow> k \<le> 1019 \<Longrightarrow> mag (k + 1) (fadd F64 a b)"
  by (elim magE) (auto simp: pow2_succ intro!: mag_rnd)

lemma mag_neg: "mag k a \<Longrightarrow> mag k (fneg a)"
  by (elim magE) auto

lemma mag_sub: "mag k a \<Longrightarrow> mag k b \<Longrightarrow> - 1001 \<le> k \<Longrightarrow> k \<le> 1019 \<Longrightarrow> mag (k + 1) (fsub F64 a b)"
  unfolding fsub_def by (intro mag_add mag_neg)

definition mag3 :: "int \<Rightarrow> vec3 \<Rightarrow> bool" where
  "mag3 k = (\<lambda>(x, y, z). mag k x \<and> mag k y \<and> mag k z)"

definition mag4 :: "int \<Rightarrow> vec4 \<Rightarrow> bool" where
  "mag4 k = (\<lambda>(x, y, z, w). mag k x \<and> mag k y \<and> mag k z \<and> mag k w)"

lemma cross_mag:
  assumes "mag 200 a" "mag 200 b" "mag k v" "mag k w" "0 \<le> k" "k \<le> 210"
  shows "mag (k + 201) (fsub F64 (fmul F64 a v) (fmul F64 b w))"
  using mag_sub [OF mag_mul [OF assms(1,3)] mag_mul [OF assms(2,4)]] assms(5,6)
  by (simp add: add.commute)

lemma world_to_local_mag:
  assumes "mag3 7 v" "mag4 200 q"
  shows "mag3 412 (world_to_local v q)"
proof -
  obtain v0 v1 v2 where v: "v = (v0, v1, v2)" "mag 7 v0" "mag 7 v1" "mag 7 v2"
    using assms(1) by (cases v) (auto simp: mag3_def)
  obtain q0 q1 q2 q3 where q: "q = (q0, q1, q2, q3)" "mag 200 (fneg q0)" "mag 200 (fneg q1)" "mag 200 (fneg q2)" "mag 200 q3"
    using assms(2) by (cases q) (auto simp: mag4_def mag_neg)
  have two: "mag 1 (Fin 2)" by simp
  have t: "mag 209 (fmul F64 (Fin 2) (fsub F64 (fmul F64 a x) (fmul F64 b y)))"
    if "mag 200 a" "mag 200 b" "mag 7 x" "mag 7 y" for a b x y
    using mag_mul [OF two cross_mag [OF that]] by simp
  have c: "mag 412 (fadd F64 (fadd F64 x (fmul F64 w t1)) (fsub F64 (fmul F64 a t2) (fmul F64 b t3)))"
    if "mag 7 x" "mag 200 w" "mag 209 t1" "mag 209 t2" "mag 209 t3" "mag 200 a" "mag 200 b" for x w t1 t2 t3 a b
  proof -
    have "mag 409 (fmul F64 w t1)" using mag_mul [OF that(2,3)] by simp
    then have "mag 410 (fadd F64 x (fmul F64 w t1))"
      using mag_add [of 409 x] mag_mono [OF that(1), of 409] by simp
    moreover have "mag 410 (fsub F64 (fmul F64 a t2) (fmul F64 b t3))"
      using cross_mag [OF that(6,7,4,5)] by simp
    ultimately have "mag 411 (fadd F64 (fadd F64 x (fmul F64 w t1)) (fsub F64 (fmul F64 a t2) (fmul F64 b t3)))"
      using mag_add [of 410] by simp
    then show ?thesis by (rule mag_mono) simp
  qed
  show ?thesis unfolding v(1) q(1) world_to_local_def Let_def mag3_def prod.case
    using v q by (intro conjI c t) assumption+
qed


text \<open>What the code relies on from the math library: \<open>cos\<close> and \<open>sin\<close> of an angle between 0 and 2
  are accurate to \<open>2^-40\<close>, \<open>tanh\<close> stays within \<open>[-1, 1]\<close>, and NaN gives NaN.\<close>

definition libm_ok :: "libm \<Rightarrow> bool" where
  "libm_ok L \<longleftrightarrow>
     (\<forall>x. 0 \<le> x \<and> x \<le> 2 \<longrightarrow>
        (\<exists>c s. m_cos L (Fin x) = Fin c \<and> m_sin L (Fin x) = Fin s \<and>
           \<bar>c - cos x\<bar> \<le> 1 / 2 ^ 40 \<and> \<bar>s - sin x\<bar> \<le> 1 / 2 ^ 40)) \<and>
     (\<forall>a. a \<noteq> FNaN \<longrightarrow> fbetween (- 1) 1 (m_tanh L a)) \<and>
     m_cos L FNaN = FNaN \<and> m_sin L FNaN = FNaN \<and> m_tanh L FNaN = FNaN"

text \<open>A library that rounds the exact functions is one.\<close>

definition exact_libm :: libm where
  "exact_libm = \<lparr>m_cos = (\<lambda>a. case a of Fin x \<Rightarrow> rnd F64 (cos x) | _ \<Rightarrow> FNaN),
     m_sin = (\<lambda>a. case a of Fin x \<Rightarrow> rnd F64 (sin x) | _ \<Rightarrow> FNaN),
     m_tanh = (\<lambda>a. case a of Fin x \<Rightarrow> rnd F32 (tanh x) | FInf s \<Rightarrow> Fin (if s then - 1 else 1) | FNaN \<Rightarrow> FNaN)\<rparr>"

lemma rnd_unit:
  assumes "\<bar>x\<bar> \<le> 1" shows "rnd F64 x = Fin (rnd_real F64 x)" "\<bar>rnd_real F64 x - x\<bar> \<le> 1 / 2 ^ 40"
proof -
  show "rnd F64 x = Fin (rnd_real F64 x)"
    using order_trans [OF assms one_le_maxfin] by (rule rnd_Fin)
  have "uu * \<bar>x\<bar> + ee \<le> 1 / 2 ^ 40" using assms by simp
  then show "\<bar>rnd_real F64 x - x\<bar> \<le> 1 / 2 ^ 40" using rnd_err [of x] by linarith
qed

lemma exact_libm_ok: "libm_ok exact_libm"
proof -
  have t: "fbetween (- 1) 1 (rnd F32 (tanh x))" for x :: real
    using tanh_real_lt_1 [of x] tanh_real_gt_neg1 [of x] by (intro rnd_between) auto
  have c: "\<bar>cos x\<bar> \<le> 1" "\<bar>sin x\<bar> \<le> 1" for x :: real by simp_all
  show ?thesis unfolding libm_ok_def exact_libm_def
    using rnd_unit [OF c(1)] rnd_unit [OF c(2)] t by (auto split: fp.split)
qed

lemma FRAC_PI_4_value: "FRAC_PI_4 = Fin (7074237752028440 / 9007199254740992)"
  unfolding FRAC_PI_4_def by code_simp

lemma sqrt_nonneg_cases:
  assumes "fbetween 0 (pow2 1000) a" obtains h where "fsqrt F64 a = Fin h" "0 \<le> h"
proof -
  obtain x where x: "a = Fin x" "0 \<le> x" "x \<le> pow2 1000" using assms by (elim fbetweenE)
  have "sqrt x \<le> sqrt (pow2 1000)" using x by simp
  also have "\<dots> = pow2 500"
    using pow2_add [of 500 500] by (simp add: real_sqrt_mult [symmetric] real_sqrt_unique power2_eq_square)
  finally have "\<bar>sqrt x\<bar> \<le> pow2 500" using x by simp
  then have "mag 500 (rnd F64 (sqrt x))" by (rule mag_rnd) simp_all
  then obtain h where h: "rnd F64 (sqrt x) = Fin h" by (elim magE)
  then have "0 \<le> h" using rd.nonneg [of F64 "sqrt x"] x rnd_Fin_D [OF h] by simp
  then show thesis using that x h by simp
qed


lemma fp_clamp_Fin: "lo \<le> hi \<Longrightarrow> \<exists>c. fp_clamp (Fin lo) (Fin hi) (Fin x) = Fin c \<and> lo \<le> c \<and> c \<le> hi"
  by (auto simp: fp_clamp_def)

text \<open>The lateral component is a number in \<open>[-1, 1]\<close> when the local vector is not huge.\<close>

definition lateral_of :: "fp \<Rightarrow> fp \<Rightarrow> fp" where
  "lateral_of x y =
     (let horiz = fsqrt F64 (fadd F64 (fmul F64 x x) (fmul F64 y y))
      in fp_clamp (Fin (- 1)) (Fin 1) (if fp_lt horiz (rnd F64 (1 / 10 ^ 6)) then Fin 0 else fdiv F64 x horiz))"

lemma threshold: "\<exists>t. rnd F64 (1 / 10 ^ 6) = Fin t \<and> pow2 (- 20) \<le> t"
proof -
  have "pow2 (- 20) = 1 / 1048576" using pow2_minus [of 20] pow2_nat [of 20] by simp
  then have "fbetween (pow2 (- 20)) 1 (rnd F64 (1 / 10 ^ 6))"
    by (intro rnd_between) (auto intro!: repr_pow2 order_trans [OF _ one_le_maxfin] simp: emin_def prec_def)
  then show ?thesis by (auto elim: fbetweenE)
qed

lemma square_range: "mag 412 x \<Longrightarrow> fbetween 0 (pow2 824) (fmul F64 x x)"
proof -
  assume x: "mag 412 x"
  then obtain r where r: "x = Fin r" by (elim magE)
  from mag_mul [OF x x] obtain s where s: "fmul F64 x x = Fin s" "\<bar>s\<bar> \<le> pow2 824" by (auto elim: magE)
  then have "s = rnd_real F64 (r * r)" using r by (auto dest: rnd_Fin_D)
  then have "0 \<le> s" by (simp add: rd.nonneg)
  then show ?thesis using s by simp
qed

lemma lateral_range:
  assumes "mag 412 x" "mag 412 y"
  shows "fbetween (- 1) 1 (lateral_of x y)"
proof -
  obtain p q where pq: "fmul F64 x x = Fin p" "fmul F64 y y = Fin q" "0 \<le> p" "0 \<le> q" "p \<le> pow2 824" "q \<le> pow2 824"
    using square_range [OF assms(1)] square_range [OF assms(2)] by (auto elim!: fbetweenE)
  have "mag 825 (fadd F64 (Fin p) (Fin q))" using mag_add [of 824 "Fin p" "Fin q"] pq by simp
  then obtain s where s: "fadd F64 (Fin p) (Fin q) = Fin s" "\<bar>s\<bar> \<le> pow2 825" by (elim magE)
  then have "s = rnd_real F64 (p + q)" by (auto dest: rnd_Fin_D)
  then have s0: "0 \<le> s" using pq by (simp add: rd.nonneg)
  have "pow2 825 \<le> pow2 1000" by (intro pow2_mono) simp
  then have "s \<le> pow2 1000" using s(2) s0 by linarith
  then obtain h where h: "fsqrt F64 (Fin s) = Fin h" "0 \<le> h"
    using sqrt_nonneg_cases [of "Fin s"] s0 by auto
  obtain t where t: "rnd F64 (1 / 10 ^ 6) = Fin t" "pow2 (- 20) \<le> t" using threshold by blast
  obtain a where a: "x = Fin a" "\<bar>a\<bar> \<le> pow2 412" using assms(1) by (elim magE)
  have fin: "\<exists>l. (if h < t then Fin 0 else fdiv F64 x (Fin h)) = Fin l"
  proof (cases "h < t")
    case False
    then have ht: "pow2 (- 20) \<le> h" "0 < h" using t(2) pow2_pos [of "- 20"] by linarith+
    have "\<bar>a / h\<bar> \<le> pow2 412 / pow2 (- 20)"
      unfolding abs_divide using a(2) ht by (intro frac_le) auto
    also have "\<dots> = pow2 432" by (simp add: pow2_diff [symmetric])
    finally have "mag 432 (rnd F64 (a / h))" by (rule mag_rnd) simp_all
    then show ?thesis using False ht a(1) by (auto elim: magE)
  qed simp
  then obtain l where l: "(if h < t then Fin 0 else fdiv F64 x (Fin h)) = Fin l" by blast
  have "lateral_of x y = fp_clamp (Fin (- 1)) (Fin 1) (Fin l)"
    using l by (simp only: lateral_of_def Let_def pq(1,2) s(1) h(1) t(1) fp_lt_Fin)
  then show ?thesis using fp_clamp_Fin [of "- 1" 1 l] by auto
qed

lemma angle_range:
  assumes "fbetween (- 1) 1 l"
  shows "fbetween 0 2 (fmul F64 (fadd F64 l (Fin 1)) FRAC_PI_4)"
proof -
  have "fbetween (- 1 + 1) (1 + 1) (fadd F64 l (Fin 1))"
    using assms by (intro fadd_between) auto
  then have "fbetween 0 2 (fadd F64 l (Fin 1))" by simp
  then have "fbetween 0 (2 * 1) (fmul F64 (fadd F64 l (Fin 1)) FRAC_PI_4)"
    by (rule fmul_between_nonneg) (simp_all add: FRAC_PI_4_value)
  then show ?thesis by simp
qed

lemma rnd32_err:
  assumes "\<bar>x\<bar> \<le> 2" shows "rnd F32 x = Fin (rnd_real F32 x)" "\<bar>rnd_real F32 x - x\<bar> \<le> 1 / 2 ^ 22"
proof -
  show "rnd F32 x = Fin (rnd_real F32 x)" using assms by (intro rnd_Fin small_maxfin) simp
  have "qexp F32 x \<le> - 21"
  proof (cases "x = 0")
    case False
    have "\<bar>x\<bar> < pow2 2" using assms pow2_nat [of 2] by simp
    then have "bexp x < 2" by (rule bexp_less [OF False])
    then show ?thesis by (simp add: qexp_def prec_def emin_def)
  qed (simp add: qexp_def bexp_def ilog.simps prec_def emin_def)
  then have "pow2 (qexp F32 x) \<le> pow2 (- 21)" by (rule pow2_mono)
  also have "\<dots> = 1 / 2 ^ 21" using pow2_minus [of 21] pow2_nat [of 21] by simp
  finally show "\<bar>rnd_real F32 x - x\<bar> \<le> 1 / 2 ^ 22" using rnd_real_error [of F32 x] by simp
qed


lemma square_close:
  fixes a b :: real
  assumes "\<bar>a - b\<bar> \<le> 1 / 2 ^ 21" "\<bar>b\<bar> \<le> 1" shows "\<bar>a\<^sup>2 - b\<^sup>2\<bar> \<le> 3 / 2 ^ 21"
proof -
  have "\<bar>a - b\<bar> \<le> 1" using assms(1) by (rule order_trans) simp
  then have "\<bar>a + b\<bar> \<le> 3" using assms(2) by linarith
  then have "\<bar>a - b\<bar> * \<bar>a + b\<bar> \<le> 1 / 2 ^ 21 * 3" using assms(1) by (intro mult_mono) auto
  moreover have "a\<^sup>2 - b\<^sup>2 = (a - b) * (a + b)" by (simp add: power2_eq_square algebra_simps)
  ultimately show ?thesis by (simp add: abs_mult)
qed

lemma trig_cast:
  assumes "\<bar>c - t\<bar> \<le> 1 / 2 ^ 40" "\<bar>t\<bar> \<le> 1"
  shows "\<exists>w. fcast F32 (Fin c) = Fin w \<and> \<bar>w - t\<bar> \<le> 1 / 2 ^ 21"
proof -
  have "\<bar>c - t\<bar> \<le> 1" using assms(1) by (rule order_trans) simp
  then have c: "\<bar>c\<bar> \<le> 2" using assms(2) by linarith
  have "\<bar>rnd_real F32 c - t\<bar> \<le> 1 / 2 ^ 22 + 1 / 2 ^ 40"
    using rnd32_err(2) [OF c] assms(1) by linarith
  then have "\<bar>rnd_real F32 c - t\<bar> \<le> 1 / 2 ^ 21" by (rule order_trans) simp
  then show ?thesis using rnd32_err(1) [OF c] by simp
qed

lemma near_mag:
  assumes "ear_ok l" "vec3_ok s" "fp_lt (v3_norm (v3_sub s l)) MAX_DISTANCE"
  shows "mag3 7 (v3_sub s l)"
proof -
  obtain l0 l1 l2 where l: "l = (Fin l0, Fin l1, Fin l2)" "\<bar>l0\<bar> \<le> 2 * coord_bound"
    "\<bar>l1\<bar> \<le> 2 * coord_bound" "\<bar>l2\<bar> \<le> 2 * coord_bound"
    using assms(1) by (cases l) (auto simp: ear_ok_iff)
  obtain a0 a1 a2 where a: "s = (Fin a0, Fin a1, Fin a2)" "\<bar>a0\<bar> \<le> coord_bound"
    "\<bar>a1\<bar> \<le> coord_bound" "\<bar>a2\<bar> \<le> coord_bound"
    using assms(2) by (cases s) (auto simp: vec3_ok_iff)
  have d: "\<exists>r. fsub F64 (Fin p) (Fin q) = Fin r" if "\<bar>p\<bar> \<le> coord_bound" "\<bar>q\<bar> \<le> 2 * coord_bound" for p q
  proof -
    have "\<bar>p - q\<bar> \<le> 4 * coord_bound" using that by linarith
    then have "\<bar>p - q\<bar> \<le> maxfin F64" using coord_multiples(4) by linarith
    then show ?thesis by (simp add: fsub_def rnd_Fin)
  qed
  obtain x y z where o: "v3_sub s l = (Fin x, Fin y, Fin z)"
    using d [OF a(2) l(2)] d [OF a(3) l(3)] d [OF a(4) l(4)] by (auto simp: v3_sub_def a(1) l(1))
  then obtain r where r: "n3 x y z \<le> r * (1 + 8 * uu) + 1 / 10 ^ 20" "r < 60" 
    using v3_norm_cases [of x y z] assms(3) by (auto simp: MAX_DISTANCE_def fp_lt_def)
  then have n: "n3 x y z \<le> 128" by simp
  have p: "pow2 7 = 128" using pow2_nat [of 7] by simp
  show ?thesis
    using order_trans [OF component_le_n3(1) n] order_trans [OF component_le_n3(2) n] order_trans [OF component_le_n3(3) n]
    by (simp add: o mag3_def p)
qed

lemma pan_angle:
  assumes "libm_ok L" "world_to_local (v3_sub s l) q = (x, y, z)"
    "fmul F64 (fadd F64 (lateral_of x y) (Fin 1)) FRAC_PI_4 = Fin t" "0 \<le> t" "t \<le> 2"
  shows "\<exists>wl wr. pan_weights L s l q = (Fin wl, Fin wr) \<and> \<bar>wl - cos t\<bar> \<le> 1 / 2 ^ 21 \<and> \<bar>wr - sin t\<bar> \<le> 1 / 2 ^ 21"
proof -
  obtain c s' where c: "m_cos L (Fin t) = Fin c" "m_sin L (Fin t) = Fin s'"
    "\<bar>c - cos t\<bar> \<le> 1 / 2 ^ 40" "\<bar>s' - sin t\<bar> \<le> 1 / 2 ^ 40"
    using assms(1,4,5) unfolding libm_ok_def by blast
  obtain wl where wl: "fcast F32 (Fin c) = Fin wl" "\<bar>wl - cos t\<bar> \<le> 1 / 2 ^ 21"
    using trig_cast [OF c(3)] by auto
  obtain wr where wr: "fcast F32 (Fin s') = Fin wr" "\<bar>wr - sin t\<bar> \<le> 1 / 2 ^ 21"
    using trig_cast [OF c(4)] by auto
  have "pan_weights L s l q = (Fin wl, Fin wr)"
    using assms(2,3) c wl(1) wr(1) by (simp only: pan_weights_def lateral_of_def Let_def prod.case)
  then show ?thesis using wl(2) wr(2) by blast
qed

lemma pan_power:
  assumes "libm_ok L" "ear_ok l" "vec3_ok s" "mag4 200 q" "fp_lt (v3_norm (v3_sub s l)) MAX_DISTANCE"
  shows "\<exists>wl wr. pan_weights L s l q = (Fin wl, Fin wr) \<and> \<bar>wl\<^sup>2 + wr\<^sup>2 - 1\<bar> \<le> 3 / 10 ^ 6"
proof -
  obtain x y z where w: "world_to_local (v3_sub s l) q = (x, y, z)" "mag 412 x" "mag 412 y"
    using world_to_local_mag [OF near_mag [OF assms(2,3,5)] assms(4)]
    by (cases "world_to_local (v3_sub s l) q") (auto simp: mag3_def)
  obtain t where t: "fmul F64 (fadd F64 (lateral_of x y) (Fin 1)) FRAC_PI_4 = Fin t" "0 \<le> t" "t \<le> 2"
    using angle_range [OF lateral_range [OF w(2,3)]] by (elim fbetweenE)
  obtain wl wr where p: "pan_weights L s l q = (Fin wl, Fin wr)" and wl: "\<bar>wl - cos t\<bar> \<le> 1 / 2 ^ 21"
    and wr: "\<bar>wr - sin t\<bar> \<le> 1 / 2 ^ 21"
    using pan_angle [OF assms(1) w(1) t] by blast
  have "\<bar>wl\<^sup>2 + wr\<^sup>2 - 1\<bar> \<le> 3 / 2 ^ 21 + 3 / 2 ^ 21"
    using square_close [OF wl abs_cos_le_one] square_close [OF wr abs_sin_le_one] sin_cos_squared_add [of t]
    by linarith
  moreover have "3 / 2 ^ 21 + 3 / 2 ^ 21 \<le> (3 / 10 ^ 6 :: real)" by simp
  ultimately show ?thesis using p by (meson order_trans)
qed

lemma v3_norm_ten: "v3_norm (Fin 10, Fin 0, Fin 0) = Fin 10"
proof -
  have s: "sqrt 100 = (10 :: real)" by (rule real_sqrt_unique) simp_all
  show ?thesis by (simp add: v3_norm_def rnd_repr s)
qed

text \<open>Without the bound on the rotation the weights can be NaN, although every input is finite.\<close>

lemma rnd_overflow: "pow2 1024 \<le> \<bar>x\<bar> \<Longrightarrow> rnd F64 x = FInf (x < 0)"
proof -
  assume x: "pow2 1024 \<le> \<bar>x\<bar>"
  have r: "repr F64 (pow2 1024)" by (intro repr_pow2) (simp add: emin_def prec_def)
  have m: "maxfin F64 < pow2 1024" using maxfin_less [of F64] by (simp add: emax_def)
  show ?thesis
  proof (cases "0 \<le> x")
    case True
    then have "pow2 1024 \<le> rnd_real F64 x" using rd.rd_mono [of "pow2 1024" x F64] x by (simp add: rnd_real_repr [OF r])
    then have "maxfin F64 < rnd_real F64 x" "0 < rnd_real F64 x" using m pow2_pos [of 1024] by linarith+
    then show ?thesis using True by (simp add: rnd_def Let_def)
  next
    case False
    then have "pow2 1024 \<le> rnd_real F64 (- x)" using rd.rd_mono [of "pow2 1024" "- x" F64] x by (simp add: rnd_real_repr [OF r])
    then have "maxfin F64 < - rnd_real F64 x" "rnd_real F64 x < 0" using m pow2_pos [of 1024] by (simp_all only: rnd_real_minus)
    then show ?thesis using False by (simp add: rnd_def Let_def)
  qed
qed


lemma times_pow2:
  assumes "\<bar>m\<bar> < 2 ^ 24" "0 \<le> k" "k \<le> 999" shows "rnd F64 (of_int m * pow2 k) = Fin (of_int m * pow2 k)"
proof (rule rnd_repr)
  show "repr F64 (of_int m * pow2 k)" unfolding repr_def
    using assms by (intro exI [of _ m] exI [of _ k]) (simp add: prec_def emin_def)
  have "\<bar>real_of_int m\<bar> \<le> 2 ^ 24" using assms(1) by (simp flip: of_int_abs)
  then have "\<bar>of_int m * pow2 k\<bar> \<le> pow2 24 * pow2 999"
    unfolding abs_mult using assms pow2_nat [of 24] by (intro mult_mono) (auto intro: pow2_mono)
  also have "\<dots> = pow2 5 * coord_bound" by (simp add: coord_bound_def flip: pow2_add)
  also have "\<dots> \<le> maxfin F64" using repr_pow2_coord [of 5] by simp
  finally show "\<bar>of_int m * pow2 k\<bar> \<le> maxfin F64" .
qed

text \<open>C33. A finite filter on the inputs does not keep NaN out of the mix: with a speaker 10 m east,
  a listener at the origin and the rotation \<open>(0, 0, 2^600, 2^600)\<close>, all of them finite numbers that a
  data-channel message can carry, both pan weights are NaN.\<close>

theorem pan_finite_inputs_nan:
  assumes "libm_ok L"
  shows "pan_weights L (Fin 10, Fin 0, Fin 0) (Fin 0, Fin 0, Fin 0)
    (Fin 0, Fin 0, Fin (pow2 600), Fin (pow2 600)) = (FNaN, FNaN)"
proof -
  have a: "rnd F64 (pow2 600 * 10) = Fin (pow2 600 * 10)" "rnd F64 (- (pow2 600 * 10)) = Fin (- (pow2 600 * 10))"
    "rnd F64 (- (pow2 600 * 20)) = Fin (- (pow2 600 * 20))"
    using times_pow2 [of 10 600] times_pow2 [of "- 10" 600] times_pow2 [of "- 20" 600] by (simp_all add: mult.commute)
  have "pow2 1024 \<le> pow2 1200" by (rule pow2_mono) simp
  also have "pow2 1200 = pow2 600 * pow2 600" by (simp flip: pow2_add)
  also have "\<dots> \<le> pow2 600 * pow2 600 * 20" by simp
  finally have "pow2 1024 \<le> pow2 600 * (pow2 600 * 20)" by (simp only: mult.assoc)
  then have b: "rnd F64 (- (pow2 600 * (pow2 600 * 20))) = FInf True" "rnd F64 (pow2 600 * (pow2 600 * 20)) = FInf False"
    using rnd_overflow [of "- (pow2 600 * (pow2 600 * 20))"] rnd_overflow [of "pow2 600 * (pow2 600 * 20)"]
      pow2_pos [of 600] by (simp_all add: less_le_trans mult_pos_pos not_less)
  have c: "rnd F64 (10 * pow2 600) = Fin (pow2 600 * 10)" "rnd F64 (- (10 * pow2 600)) = Fin (- (pow2 600 * 10))"
    "rnd F64 (- (20 * pow2 600)) = Fin (- (pow2 600 * 20))"
    using a by (simp_all only: mult.commute)
  obtain t where "rnd F64 (1 / 1000000) = Fin t" using threshold by auto
  then have "\<not> fp_lt (FInf False) (rnd F64 (1 / 1000000))" by (simp add: fp_lt_def)
  then show ?thesis
    using assms
    by (simp add: a b c pan_weights_def v3_sub_def world_to_local_def fsub_def rnd_repr Let_def libm_ok_def fp_clamp_def)
qed


lemma pan_finite_inputs_nan_witness:
  "pan_weights exact_libm (Fin 10, Fin 0, Fin 0) (Fin 0, Fin 0, Fin 0)
     (Fin 0, Fin 0, Fin (pow2 600), Fin (pow2 600)) = (FNaN, FNaN)"
  using pan_finite_inputs_nan [OF exact_libm_ok] .

section \<open>The level meter\<close>

lemma fadd_ge:
  assumes "fp_le (Fin a) x" "fp_le (Fin b) y" "repr f (a + b)" "\<bar>a + b\<bar> \<le> maxfin f"
  shows "fp_le (Fin (a + b)) (fadd f x y)"
proof (cases "\<exists>p q. x = Fin p \<and> y = Fin q")
  case True
  then obtain p q where "x = Fin p" "y = Fin q" by blast
  then show ?thesis using assms rnd_mono [of "a + b" "p + q" f] by (simp add: rnd_repr)
next
  case False
  then show ?thesis using assms(1,2) by (cases x; cases y) auto
qed

lemma fp_sum_snoc: "fp_sum f (xs @ [x]) = fadd f (fp_sum f xs) x"
  by (simp add: fp_sum_def)

lemma repr_scaled:
  assumes "\<bar>m\<bar> < 2 ^ 24" "- 100 \<le> k" "k \<le> 0"
  shows "repr f (of_int m * pow2 k)" "\<bar>of_int m * pow2 k\<bar> \<le> maxfin f"
proof -
  show "repr f (of_int m * pow2 k)" unfolding repr_def
    using assms by (intro exI [of _ m] exI [of _ k]) (cases f; simp add: prec_def emin_def)
  have m: "\<bar>real_of_int m\<bar> \<le> 2 ^ 24" using assms(1) by (simp flip: of_int_abs)
  have k: "pow2 k \<le> 1" using pow2_mono [OF assms(3)] by simp
  have "\<bar>of_int m * pow2 k\<bar> \<le> 2 ^ 24 * 1" unfolding abs_mult using m k by (intro mult_mono) auto
  then have "\<bar>of_int m * pow2 k\<bar> \<le> 2 ^ 127" by (rule order_trans) simp
  then show "\<bar>of_int m * pow2 k\<bar> \<le> maxfin f" by (rule small_maxfin)
qed

lemma fp_sum_ge:
  assumes "\<forall>x \<in> set xs. fp_le (Fin (pow2 k)) x" "int (length xs) < 2 ^ 24" "- 100 \<le> k" "k \<le> 0"
  shows "fp_le (Fin (of_int (int (length xs)) * pow2 k)) (fp_sum f xs)"
  using assms(1,2)
proof (induction xs rule: rev_induct)
  case Nil
  then show ?case by (simp add: fp_sum_def)
next
  case (snoc x xs)
  have e: "of_int (int (length (xs @ [x]))) * pow2 k = of_int (int (length xs)) * pow2 k + pow2 k"
    by (simp add: algebra_simps)
  have l: "\<bar>int (length (xs @ [x]))\<bar> < 2 ^ 24" using snoc.prems(2) by simp
  show ?case
    unfolding e fp_sum_snoc
  proof (rule fadd_ge)
    show "fp_le (Fin (of_int (int (length xs)) * pow2 k)) (fp_sum f xs)" using snoc by simp
    show "fp_le (Fin (pow2 k)) x" using snoc.prems by simp
  qed (use repr_scaled [OF l assms(3,4), of f] in \<open>simp_all only: e\<close>)
qed

lemma fp_sum_le:
  assumes "\<forall>x \<in> set xs. fbetween 0 (pow2 k) x" "int (length xs) < 2 ^ 24" "- 100 \<le> k" "k \<le> 0"
  shows "fbetween 0 (of_int (int (length xs)) * pow2 k) (fp_sum f xs)"
  using assms(1,2)
proof (induction xs rule: rev_induct)
  case Nil
  then show ?case by (simp add: fp_sum_def)
next
  case (snoc x xs)
  have e: "of_int (int (length (xs @ [x]))) * pow2 k = of_int (int (length xs)) * pow2 k + pow2 k"
    by (simp add: algebra_simps)
  have l: "\<bar>int (length (xs @ [x]))\<bar> < 2 ^ 24" using snoc.prems(2) by simp
  have "fbetween (0 + 0) (of_int (int (length xs)) * pow2 k + pow2 k) (fadd f (fp_sum f xs) x)"
    using snoc repr_scaled [OF l assms(3,4), of f] by (intro fadd_between) (simp_all only: e, simp_all)
  then show ?case by (simp only: e fp_sum_snoc add_0_left)
qed

text \<open>The rest of the meter, as a function of the mean square.\<close>

definition meter :: "fp \<Rightarrow> u8" where
  "meter ms = fp_as_u8 (fp_min (fmul F32 (fp_min (fmul F32 (fsqrt F32 ms) (Fin 4)) (Fin 1)) LEVEL_SCALE_TO_WIRE) (Fin 127))"

lemma level_to_wire_meter:
  "frame \<noteq> [] \<Longrightarrow> level_to_wire frame =
     meter (fdiv F32 (fp_sum F32 (map (\<lambda>s. fmul F32 s s) frame)) (fp_of_int F32 (int (length frame))))"
  by (simp add: level_to_wire_def meter_def Let_def)

lemma fmul_ge:
  assumes "fp_le (Fin a) x" "0 < a" "0 < b" "repr f (a * b)" "a * b \<le> maxfin f"
  shows "fp_le (Fin (a * b)) (fmul f x (Fin b))"
proof -
  have "rnd f (a * b) = Fin (a * b)" using assms by (intro rnd_repr) simp_all
  then show ?thesis using assms rnd_mono [of "a * b" "p * b" f for p] by (cases x) (auto simp: mult_right_mono split: if_splits)
qed

lemma fdiv_ge:
  assumes "fp_le (Fin (n * a)) x" "0 < n" "repr f a" "\<bar>a\<bar> \<le> maxfin f"
  shows "fp_le (Fin a) (fdiv f x (Fin n))"
proof (cases x)
  case (Fin p)
  then have "a \<le> p / n" using assms by (simp add: le_divide_eq mult.commute)
  from rnd_mono [OF this, of f] show ?thesis using assms Fin by (simp add: rnd_repr)
qed (use assms in auto)

lemma fsqrt_ge:
  assumes "fp_le (Fin (a * a)) x" "0 \<le> a" "repr f a" "a \<le> maxfin f"
  shows "fp_le (Fin a) (fsqrt f x)"
proof (cases x)
  case (Fin p)
  then have a: "a * a \<le> p" "0 \<le> a * a" using assms by simp_all
  then have "0 \<le> p" by linarith
  moreover from a have "a \<le> sqrt p" by (intro real_le_rsqrt) (simp add: power2_eq_square)
  ultimately have "a \<le> sqrt p" "0 \<le> p" by simp_all
  with rnd_mono [OF this(1), of f] show ?thesis using assms Fin by (simp add: rnd_repr)
qed (use assms in auto)

lemma fsqrt_le:
  assumes "fbetween 0 (a * a) x" "0 \<le> a" "repr f a" "a \<le> maxfin f"
  shows "fbetween 0 a (fsqrt f x)"
proof -
  obtain p where p: "x = Fin p" "0 \<le> p" "p \<le> a * a" using assms(1) by (elim fbetweenE)
  then have "sqrt p \<le> a" using assms(2) by (intro real_le_lsqrt) (simp_all add: power2_eq_square)
  then have "fbetween 0 a (rnd f (sqrt p))" using p assms by (intro rnd_between) simp_all
  then show ?thesis using p by simp
qed

lemma fdiv_le:
  assumes "fbetween 0 (n * a) x" "0 < n" "repr f a" "a \<le> maxfin f"
  shows "fbetween 0 a (fdiv f x (Fin n))"
proof -
  obtain p where p: "x = Fin p" "0 \<le> p" "p \<le> n * a" using assms(1) by (elim fbetweenE)
  then have q: "0 \<le> p / n" "p / n \<le> a" using assms(2) by (simp_all add: divide_le_eq mult.commute)
  then have "0 \<le> a" by linarith
  then have "fbetween 0 a (rnd f (p / n))" using q assms by (intro rnd_between) simp_all
  then show ?thesis using p assms(2) by simp
qed

lemma fp_min_ge: "fp_le (Fin a) x \<Longrightarrow> a \<le> b \<Longrightarrow> fp_le (Fin a) (fp_min x (Fin b))"
  by (cases x) (auto simp: fp_min_def)

lemma fp_min_le: "fbetween 0 a x \<Longrightarrow> 0 \<le> b \<Longrightarrow> fbetween 0 a (fp_min x (Fin b))"
  by (cases x) (auto simp: fp_min_def fbetween_def)

lemma uint_u8: "0 \<le> z \<Longrightarrow> z \<le> 255 \<Longrightarrow> uint (word_of_int z :: u8) = z"
  by (simp add: uint_word_of_int)

lemma as_u8_Fin:
  assumes "0 \<le> p" "p < 255" shows "int (unat (fp_as_u8 (Fin p))) = \<lfloor>p\<rfloor>"
proof -
  have "0 \<le> \<lfloor>p\<rfloor>" "\<lfloor>p\<rfloor> \<le> 255" using assms by (simp_all add: floor_le_iff)
  from uint_u8 [OF this] show ?thesis using assms by (simp add: fp_as_u8_def)
qed

lemma as_u8_ge:
  assumes "fp_le (Fin (real n)) x" "n \<le> 255" shows "n \<le> unat (fp_as_u8 x)"
proof (cases x)
  case (Fin p)
  show ?thesis
  proof (cases "255 \<le> p")
    case False
    have "real n \<le> p" using assms Fin by simp
    then have "int n \<le> \<lfloor>p\<rfloor>" "0 \<le> p" by (simp_all add: le_floor_iff order_trans [OF of_nat_0_le_iff])
    then have "int n \<le> int (unat (fp_as_u8 (Fin p)))" using False as_u8_Fin [of p] by simp
    then show ?thesis using Fin by (simp only: of_nat_le_iff)
  qed (use Fin assms in \<open>simp add: fp_as_u8_def\<close>)
qed (use assms in \<open>auto simp: fp_as_u8_def\<close>)

lemma as_u8_le:
  assumes "fbetween 0 (real n) x" "n \<le> 254" shows "unat (fp_as_u8 x) \<le> n"
proof -
  obtain p where x: "x = Fin p" "0 \<le> p" "p \<le> real n" using assms(1) by (elim fbetweenE)
  have "real n \<le> 254" using assms(2) by simp
  then have "p < 255" using x by linarith
  then have "int (unat (fp_as_u8 x)) = \<lfloor>p\<rfloor>" using x as_u8_Fin [of p] by simp
  moreover have "\<lfloor>p\<rfloor> \<le> int n" using x by (simp add: floor_le_iff)
  ultimately show ?thesis by (metis of_nat_le_iff)
qed

lemma small_maxfin_le: "1 \<le> maxfin F32 * numeral k"
  using mult_mono [of 1 "maxfin F32" 1 "numeral k"] by simp

lemma meter_top: "unat (meter ms) \<le> 127"
proof -
  have "unat (fp_as_u8 (fp_min x (Fin 127))) \<le> 127" for x
  proof -
    have "fp_as_u8 (fp_min x (Fin 127)) = 127 \<or> fbetween 0 (real 127) (fp_min x (Fin 127)) \<or>
      fp_as_u8 (fp_min x (Fin 127)) = 0"
      by (cases x) (auto simp: fp_min_def fp_as_u8_def)
    then show ?thesis
    proof (elim disjE)
      assume "fbetween 0 (real 127) (fp_min x (Fin 127))"
      then show ?thesis by (rule as_u8_le) simp
    qed simp_all
  qed
  then show ?thesis unfolding meter_def .
qed

lemma meter_loud: "fp_le (Fin (1 / 8 * (1 / 8))) ms \<Longrightarrow> 64 \<le> unat (meter ms)"
proof -
  assume m: "fp_le (Fin (1 / 8 * (1 / 8))) ms"
  have r: "repr F32 (1 / 8)" "repr F32 (1 / 2)"
    using repr_scaled(1) [of 1 "- 3" F32] repr_scaled(1) [of 1 "- 1" F32] pow2_minus [of 3] pow2_minus [of 1] pow2_nat [of 3]
    by simp_all
  have "fp_le (Fin (1 / 8)) (fsqrt F32 ms)" using m by (rule fsqrt_ge) (simp_all add: r small_maxfin_le)
  then have "fp_le (Fin (1 / 8 * 4)) (fmul F32 (fsqrt F32 ms) (Fin 4))"
    by (rule fmul_ge) (simp_all add: r small_maxfin_le)
  then have "fp_le (Fin (1 / 2)) (fp_min (fmul F32 (fsqrt F32 ms) (Fin 4)) (Fin 1))"
    by (intro fp_min_ge) simp_all
  then have "fp_le (Fin (1 / 2 * 128)) (fmul F32 (fp_min (fmul F32 (fsqrt F32 ms) (Fin 4)) (Fin 1)) (Fin 128))"
    by (rule fmul_ge) simp_all
  then have "fp_le (Fin (real 64)) (fp_min (fmul F32 (fp_min (fmul F32 (fsqrt F32 ms) (Fin 4)) (Fin 1)) (Fin 128)) (Fin 127))"
    by (intro fp_min_ge) simp_all
  then show ?thesis unfolding meter_def LEVEL_SCALE_TO_WIRE_def by (rule as_u8_ge) simp
qed

lemma meter_quiet: "fbetween 0 (1 / 16 * (1 / 16)) ms \<Longrightarrow> unat (meter ms) \<le> 32"
proof -
  assume m: "fbetween 0 (1 / 16 * (1 / 16)) ms"
  have r: "repr F32 (1 / 16)" "repr F32 (1 / 4)"
    using repr_scaled(1) [of 1 "- 4" F32] repr_scaled(1) [of 1 "- 2" F32] pow2_minus [of 4] pow2_minus [of 2] pow2_nat [of 4] pow2_nat [of 2]
    by simp_all
  have "fbetween 0 (1 / 16) (fsqrt F32 ms)" using m by (rule fsqrt_le) (simp_all add: r small_maxfin_le)
  then have "fbetween 0 (1 / 16 * 4) (fmul F32 (fsqrt F32 ms) (Fin 4))"
    by (rule fmul_between_nonneg) (simp_all add: r small_maxfin_le)
  then have "fbetween 0 (1 / 4) (fp_min (fmul F32 (fsqrt F32 ms) (Fin 4)) (Fin 1))"
    by (intro fp_min_le) simp_all
  then have "fbetween 0 (1 / 4 * 128) (fmul F32 (fp_min (fmul F32 (fsqrt F32 ms) (Fin 4)) (Fin 1)) (Fin 128))"
    by (rule fmul_between_nonneg) simp_all
  then have "fbetween 0 (real 32) (fp_min (fmul F32 (fp_min (fmul F32 (fsqrt F32 ms) (Fin 4)) (Fin 1)) (Fin 128)) (Fin 127))"
    by (intro fp_min_le) simp_all
  then show ?thesis unfolding meter_def LEVEL_SCALE_TO_WIRE_def by (rule as_u8_le) simp
qed


text \<open>A sample is loud or quiet by its magnitude; the squares follow.\<close>

fun sample_ge :: "real \<Rightarrow> fp \<Rightarrow> bool" where
  "sample_ge a FNaN = False"
| "sample_ge a (FInf s) = True"
| "sample_ge a (Fin x) = (a \<le> \<bar>x\<bar>)"

lemma square_ge:
  assumes "sample_ge a s" "0 < a" "repr f (a * a)" "a * a \<le> maxfin f"
  shows "fp_le (Fin (a * a)) (fmul f s s)"
proof (cases s)
  case (Fin x)
  have "a * a \<le> \<bar>x\<bar> * \<bar>x\<bar>" using assms(1,2) Fin by (intro mult_mono) simp_all
  then have "a * a \<le> x * x" by simp
  from rnd_mono [OF this, of f] have "fp_le (Fin (a * a)) (rnd f (x * x))"
    using assms by (simp add: rnd_repr)
  then show ?thesis using Fin by simp
qed (use assms in auto)

lemma square_le:
  assumes "fbetween (- a) a s" "0 < a" "repr f (a * a)" "a * a \<le> maxfin f"
  shows "fbetween 0 (a * a) (fmul f s s)"
proof -
  obtain x where x: "s = Fin x" "\<bar>x\<bar> \<le> a" using assms(1) by (elim fbetweenE) auto
  have "\<bar>x\<bar> * \<bar>x\<bar> \<le> a * a" using x by (intro mult_mono) auto
  then have "fbetween 0 (a * a) (rnd f (x * x))" using assms by (intro rnd_between) simp_all
  then show ?thesis using x by simp
qed

lemma len_float: "int n < 2 ^ 24 \<Longrightarrow> fp_of_int F32 (int n) = Fin (real n)"
proof -
  assume "int n < 2 ^ 24"
  then have "repr F32 (real n)" "\<bar>real n\<bar> \<le> maxfin F32" using repr_scaled [of "int n" 0 F32] by simp_all
  then show ?thesis by (simp add: fp_of_int_def rnd_repr)
qed

lemma fp_sum_NaN: "FNaN \<in> set xs \<Longrightarrow> fp_sum f xs = FNaN"
proof (induction xs rule: rev_induct)
  case (snoc x xs)
  then show ?case by (cases "fp_sum f xs"; cases x) (auto simp: fp_sum_snoc)
qed simp

lemma level_meter_spec:
  assumes "int (length frame) < 2 ^ 24"
  shows "unat (level_to_wire frame) \<le> 127 \<and>
    (frame \<noteq> [] \<and> (\<forall>s \<in> set frame. sample_ge (1 / 8) s) \<longrightarrow> 64 \<le> unat (level_to_wire frame)) \<and>
    ((\<forall>s \<in> set frame. fbetween (- (1 / 16)) (1 / 16) s) \<longrightarrow> unat (level_to_wire frame) \<le> 32) \<and>
    ((\<forall>s \<in> set frame. s = Fin 0) \<longrightarrow> level_to_wire frame = 0) \<and>
    (FNaN \<in> set frame \<longrightarrow> level_to_wire frame = 127)"
proof (cases "frame = []")
  case False
  define n where "n = length frame"
  define sq where "sq = map (\<lambda>s. fmul F32 s s) frame"
  have n: "0 < n" "length sq = n" "int (length sq) < 2 ^ 24" using False assms by (simp_all add: n_def sq_def)
  have lv: "level_to_wire frame = meter (fdiv F32 (fp_sum F32 sq) (Fin (real n)))"
    using False assms by (simp add: level_to_wire_meter sq_def n_def len_float)
  have r: "repr F32 (1 / 8 * (1 / 8))" "repr F32 (1 / 16 * (1 / 16))"
    and p: "pow2 (- 6) = 1 / 8 * (1 / 8)" "pow2 (- 8) = 1 / 16 * (1 / 16)"
    using repr_scaled(1) [of 1 "- 6" F32] repr_scaled(1) [of 1 "- 8" F32] pow2_minus [of 6] pow2_minus [of 8]
      pow2_nat [of 6] pow2_nat [of 8] by simp_all
  have loud: "64 \<le> unat (level_to_wire frame)" if l: "\<forall>s \<in> set frame. sample_ge (1 / 8) s"
  proof -
    have "\<forall>x \<in> set sq. fp_le (Fin (pow2 (- 6))) x"
      using l square_ge [of "1 / 8" _ F32] r by (simp add: sq_def p small_maxfin_le)
    from fp_sum_ge [OF this n(3)] have "fp_le (Fin (real n * (1 / 8 * (1 / 8)))) (fp_sum F32 sq)"
      by (simp only: n(2) p of_int_of_nat_eq)
    from fdiv_ge [OF this] have "fp_le (Fin (1 / 8 * (1 / 8))) (fdiv F32 (fp_sum F32 sq) (Fin (real n)))"
      using n(1) r by (simp add: small_maxfin_le)
    then show ?thesis unfolding lv by (rule meter_loud)
  qed
  have quiet: "unat (level_to_wire frame) \<le> 32" if q: "\<forall>s \<in> set frame. fbetween (- (1 / 16)) (1 / 16) s"
  proof -
    have "\<forall>x \<in> set sq. fbetween 0 (pow2 (- 8)) x"
      using q square_le [of "1 / 16" _ F32] r by (simp add: sq_def p small_maxfin_le)
    from fp_sum_le [OF this n(3)] have "fbetween 0 (real n * (1 / 16 * (1 / 16))) (fp_sum F32 sq)"
      by (simp only: n(2) p of_int_of_nat_eq)
    from fdiv_le [OF this] have "fbetween 0 (1 / 16 * (1 / 16)) (fdiv F32 (fp_sum F32 sq) (Fin (real n)))"
      using n(1) r by (simp add: small_maxfin_le)
    then show ?thesis unfolding lv by (rule meter_quiet)
  qed
  have nan: "level_to_wire frame = 127" if "FNaN \<in> set frame"
  proof -
    have "FNaN \<in> set sq" using that by (force simp: sq_def image_iff)
    then have "level_to_wire frame = meter FNaN" by (simp add: lv fp_sum_NaN)
    then show ?thesis by (simp add: meter_def fp_min_def LEVEL_SCALE_TO_WIRE_def rnd_repr fp_as_u8_def)
  qed
  have silent: "level_to_wire frame = 0" if s: "\<forall>s \<in> set frame. s = Fin 0"
  proof -
    have "fmul F32 y y = Fin 0" if "y \<in> set frame" for y
      using bspec [OF s that] by (simp add: rnd_repr)
    then have "\<forall>x \<in> set sq. x = Fin 0" by (auto simp: sq_def)
    then have "fp_sum F32 sq = Fin 0"
      by (induction sq rule: rev_induct) (simp_all add: fp_sum_snoc rnd_repr, simp add: fp_sum_def)
    then show ?thesis using n(1) by (simp add: lv meter_def fp_min_def LEVEL_SCALE_TO_WIRE_def rnd_repr fp_as_u8_def)
  qed
  from loud quiet nan silent show ?thesis using meter_top by (auto simp: lv)
qed (simp add: level_to_wire_def)

text \<open>The level meter: for any frame of fewer than \<open>2^24\<close> samples the reported level is at most 127;
  a frame whose samples all have magnitude at least 1/8 reads at least 64, one whose samples stay
  within 1/16 reads at most 32 (so the one reads as speech and the other does not), silence reads 0,
  and a frame with a NaN sample reads 127, full volume.\<close>

theorem level_meter:
  assumes "int (length frame) < 2 ^ 24"
  shows "unat (level_to_wire frame) \<le> 127 \<and>
    (frame \<noteq> [] \<and> (\<forall>s \<in> set frame. sample_ge (1 / 8) s) \<longrightarrow> 64 \<le> unat (level_to_wire frame)) \<and>
    ((\<forall>s \<in> set frame. fbetween (- (1 / 16)) (1 / 16) s) \<longrightarrow> unat (level_to_wire frame) \<le> 32) \<and>
    ((\<forall>s \<in> set frame. s = Fin 0) \<longrightarrow> level_to_wire frame = 0) \<and>
    (FNaN \<in> set frame \<longrightarrow> level_to_wire frame = 127)"
  using assms by (rule level_meter_spec)

lemma level_meter_witness: "64 \<le> unat (level_to_wire (replicate 960 (Fin (1 / 2))))"
  using level_meter [of "replicate 960 (Fin (1 / 2))"] by auto

section \<open>The stereo sum, sample by sample\<close>

lemma add_frame_nth:
  assumes "2 * length ss \<le> length out"
  shows "\<exists>r. add_frame gl gr ss out = Some r \<and> length r = length out \<and>
    (\<forall>i. 2 * i + 1 < length out \<longrightarrow>
       r ! (2 * i) = (if i < length ss then fadd F32 (out ! (2 * i)) (fmul F32 (ss ! i) gl) else out ! (2 * i)) \<and>
       r ! (2 * i + 1) = (if i < length ss then fadd F32 (out ! (2 * i + 1)) (fmul F32 (ss ! i) gr) else out ! (2 * i + 1)))"
  using assms
proof (induction ss arbitrary: out)
  case (Cons s ss)
  from Cons.prems obtain l q out' where out: "out = l # q # out'" "2 * length ss \<le> length out'"
    by (cases out; cases "tl out") auto
  from Cons.IH [OF out(2)] obtain r where r: "add_frame gl gr ss out' = Some r" "length r = length out'"
    "\<And>i. 2 * i + 1 < length out' \<Longrightarrow>
       r ! (2 * i) = (if i < length ss then fadd F32 (out' ! (2 * i)) (fmul F32 (ss ! i) gl) else out' ! (2 * i)) \<and>
       r ! (2 * i + 1) = (if i < length ss then fadd F32 (out' ! (2 * i + 1)) (fmul F32 (ss ! i) gr) else out' ! (2 * i + 1))"
    by blast
  let ?r = "fadd F32 l (fmul F32 s gl) # fadd F32 q (fmul F32 s gr) # r"
  have "?r ! (2 * i) = (if i < length (s # ss) then fadd F32 (out ! (2 * i)) (fmul F32 ((s # ss) ! i) gl) else out ! (2 * i)) \<and>
       ?r ! (2 * i + 1) = (if i < length (s # ss) then fadd F32 (out ! (2 * i + 1)) (fmul F32 ((s # ss) ! i) gr) else out ! (2 * i + 1))"
    if "2 * i + 1 < length out" for i
    using that r(3) [of "i - 1"] by (cases i) (simp_all add: out)
  then show ?case using r(1,2) by (auto simp: out)
qed simp

text \<open>What a channel gets at position \<open>i\<close>: the audible contributions that reach so far, added in order.\<close>

definition audible :: "nat \<Rightarrow> contribution \<Rightarrow> bool" where
  "audible i c \<longleftrightarrow> \<not> fp_le (c_gain c) (Fin 0) \<and> i < min FRAME_SAMPLES (length (c_frame c))"

definition channel_sum :: "(fp \<times> fp \<Rightarrow> fp) \<Rightarrow> nat \<Rightarrow> contribution list \<Rightarrow> fp \<Rightarrow> fp" where
  "channel_sum ch i cs start =
     foldl (\<lambda>acc c. fadd F32 acc (fmul F32 (c_frame c ! i) (fmul F32 (c_gain c) (ch (c_pan c))))) start
       (filter (audible i) cs)"

lemma add_contributions_nth:
  assumes "length out = 2 * FRAME_SAMPLES"
  shows "\<exists>r. add_contributions cs out = Some r \<and> length r = length out \<and>
    (\<forall>i < FRAME_SAMPLES. r ! (2 * i) = channel_sum fst i cs (out ! (2 * i)) \<and>
       r ! (2 * i + 1) = channel_sum snd i cs (out ! (2 * i + 1)))"
  using assms
proof (induction cs arbitrary: out)
  case Nil
  then show ?case by (simp add: channel_sum_def)
next
  case (Cons c cs)
  show ?case
  proof (cases "fp_le (c_gain c) (Fin 0)")
    case True
    then show ?thesis using Cons.IH [OF Cons.prems] by (simp add: channel_sum_def audible_def)
  next
    case False
    let ?gl = "fmul F32 (c_gain c) (fst (c_pan c))" and ?gr = "fmul F32 (c_gain c) (snd (c_pan c))"
    let ?ss = "take FRAME_SAMPLES (c_frame c)"
    have "2 * length ?ss \<le> length out" using Cons.prems by simp
    from add_frame_nth [OF this, of ?gl ?gr] obtain o1 where o1: "add_frame ?gl ?gr ?ss out = Some o1"
      "length o1 = length out"
      "\<And>i. 2 * i + 1 < length out \<Longrightarrow>
       o1 ! (2 * i) = (if i < length ?ss then fadd F32 (out ! (2 * i)) (fmul F32 (?ss ! i) ?gl) else out ! (2 * i)) \<and>
       o1 ! (2 * i + 1) = (if i < length ?ss then fadd F32 (out ! (2 * i + 1)) (fmul F32 (?ss ! i) ?gr) else out ! (2 * i + 1))"
      by blast
    from Cons.IH [of o1] Cons.prems o1(2) obtain r where r: "add_contributions cs o1 = Some r" "length r = length out"
      "\<And>i. i < FRAME_SAMPLES \<Longrightarrow> r ! (2 * i) = channel_sum fst i cs (o1 ! (2 * i)) \<and>
         r ! (2 * i + 1) = channel_sum snd i cs (o1 ! (2 * i + 1))"
      by auto
    have "r ! (2 * i) = channel_sum fst i (c # cs) (out ! (2 * i)) \<and>
        r ! (2 * i + 1) = channel_sum snd i (c # cs) (out ! (2 * i + 1))" if i: "i < FRAME_SAMPLES" for i
      using o1(3) [of i] r(3) [OF i] i False Cons.prems by (simp add: channel_sum_def audible_def)
    then show ?thesis using r(1,2) o1(1) False by (simp add: Let_def)
  qed
qed

lemma mix_out:
  assumes "length out = 2 * FRAME_SAMPLES"
  shows "\<exists>r. mix_stereo L cs out = Some r \<and> length r = 2 * FRAME_SAMPLES \<and>
    (\<forall>i < FRAME_SAMPLES. r ! (2 * i) = soft_clip L (channel_sum fst i cs (Fin 0)) \<and>
       r ! (2 * i + 1) = soft_clip L (channel_sum snd i cs (Fin 0)))"
proof -
  have "length (replicate (length out) (Fin 0)) = 2 * FRAME_SAMPLES" using assms by simp
  from add_contributions_nth [OF this, of cs] show ?thesis
    using assms by (auto simp: mix_stereo_def)
qed

text \<open>C17. The stereo sum is the per-sample sum: on a buffer of 1920 samples the mixer never indexes
  out of bounds, whatever the frames' lengths, and left and right sample \<open>i\<close> are the soft-clipped
  sums, in order, of sample \<open>i\<close> of every contribution with positive gain that is long enough, scaled
  by gain and pan. The previous contents of the buffer do not matter.\<close>

theorem mix_stereo_samples:
  assumes "length out = 2 * FRAME_SAMPLES"
  shows "\<exists>r. mix_stereo L cs out = Some r \<and> length r = 2 * FRAME_SAMPLES \<and>
    (\<forall>i < FRAME_SAMPLES. r ! (2 * i) = soft_clip L (channel_sum fst i cs (Fin 0)) \<and>
       r ! (2 * i + 1) = soft_clip L (channel_sum snd i cs (Fin 0)))"
  using mix_out [OF assms] .


text \<open>A contribution as the room makes them: finite samples (up to \<open>2^40\<close>, far beyond full scale, which is
  1), gain in \<open>[0, 4]\<close>, weights of at most 2.\<close>

definition sane :: "contribution \<Rightarrow> bool" where
  "sane c \<longleftrightarrow> (\<forall>s \<in> set (c_frame c). fbetween (- (2 ^ 40)) (2 ^ 40) s) \<and> fbetween 0 4 (c_gain c) \<and>
     fbetween (- 2) 2 (fst (c_pan c)) \<and> fbetween (- 2) 2 (snd (c_pan c))"

lemma repr_eights:
  assumes "n < 2 ^ 20" shows "repr F32 (8796093022208 * real n)" "8796093022208 * real n \<le> maxfin F32"
proof -
  have k: "pow2 43 = 8796093022208" using pow2_nat [of 43] by simp
  show "repr F32 (8796093022208 * real n)" unfolding repr_def
    using assms by (intro exI [of _ "int n"] exI [of _ "43"]) (simp add: prec_def emin_def k)
  have "real n \<le> 2 ^ 20" using assms by simp
  then have "\<bar>8796093022208 * real n\<bar> \<le> 2 ^ 127" by simp
  then have "\<bar>8796093022208 * real n\<bar> \<le> maxfin F32" by (rule small_maxfin)
  then show "8796093022208 * real n \<le> maxfin F32" by simp
qed

lemma sane_term:
  assumes "sane c" "audible i c" "ch = fst \<or> ch = snd"
  shows "fbetween (- 8796093022208) 8796093022208 (fmul F32 (c_frame c ! i) (fmul F32 (c_gain c) (ch (c_pan c))))"
proof -
  have "fbetween (- 4) 4 (c_gain c)" using assms(1) by (auto simp: sane_def elim: fbetween_mono)
  moreover have "fbetween (- 2) 2 (ch (c_pan c))" using assms(1,3) by (auto simp: sane_def)
  ultimately have g: "fbetween (- (4 * 2)) (4 * 2) (fmul F32 (c_gain c) (ch (c_pan c)))"
    by (rule fmul_between) simp_all
  have "fbetween (- (2 ^ 40)) (2 ^ 40) (c_frame c ! i)" using assms(1,2) by (simp add: sane_def audible_def)
  from fmul_between [OF this g] show ?thesis using repr_eights [of 1] by simp
qed

lemma foldl_bound:
  assumes "\<forall>c \<in> set cs. fbetween (- 8796093022208) 8796093022208 (g c)" "fbetween (- (8796093022208 * real n)) (8796093022208 * real n) a" "n + length cs < 2 ^ 20"
  shows "is_finite (foldl (\<lambda>acc c. fadd F32 acc (g c)) a cs)"
  using assms
proof (induction cs arbitrary: a n)
  case Nil
  then show ?case by (auto dest: fbetween_finite)
next
  case (Cons c cs)
  have e: "8796093022208 * real (Suc n) = 8796093022208 * real n + 8796093022208" by simp
  have b: "Suc n < 2 ^ 20" using Cons.prems(3) by simp
  have "repr F32 (8796093022208 * real n + 8796093022208)" "8796093022208 * real n + 8796093022208 \<le> maxfin F32"
    using repr_eights [OF b] by (simp_all only: e)
  moreover from this(1) have "repr F32 (- (8796093022208 * real n + 8796093022208))" by (simp only: repr_minus)
  ultimately have "fbetween (- (8796093022208 * real n) + - 8796093022208) (8796093022208 * real n + 8796093022208) (fadd F32 a (g c))"
    using Cons.prems by (intro fadd_between) simp_all
  then have "fbetween (- (8796093022208 * real (Suc n))) (8796093022208 * real (Suc n)) (fadd F32 a (g c))" unfolding e by simp
  from Cons.IH [OF _ this] Cons.prems show ?case by simp
qed

lemma channel_sum_finite:
  assumes "\<forall>c \<in> set cs. sane c" "length cs < 2 ^ 20" "ch = fst \<or> ch = snd"
  shows "is_finite (channel_sum ch i cs (Fin 0))"
  unfolding channel_sum_def
proof (rule foldl_bound [where n = 0])
  show "\<forall>c \<in> set (filter (audible i) cs).
      fbetween (- 8796093022208) 8796093022208 (fmul F32 (c_frame c ! i) (fmul F32 (c_gain c) (ch (c_pan c))))"
    using assms by (auto intro: sane_term)
  show "0 + length (filter (audible i) cs) < 2 ^ 20"
    using assms(2) length_filter_le [of "audible i" cs] by linarith
qed simp

lemma soft_clip_range:
  assumes "libm_ok L" shows "soft_clip L s = FNaN \<and> s = FNaN \<or> s \<noteq> FNaN \<and> fbetween (- 1) 1 (soft_clip L s)"
  using assms by (cases s) (auto simp: soft_clip_def libm_ok_def fp_lt_def)

lemma stereo_index: "k < 2 * FRAME_SAMPLES \<Longrightarrow> \<exists>i < FRAME_SAMPLES. k = 2 * i \<or> k = 2 * i + 1"
  by (intro exI [of _ "k div 2"]) auto

lemma mix_bounded:
  assumes "libm_ok L" "length out = 2 * FRAME_SAMPLES" "mix_stereo L cs out = Some r"
  shows "(\<forall>s \<in> set r. s = FNaN \<or> fbetween (- 1) 1 s) \<and>
    ((\<forall>c \<in> set cs. sane c) \<and> length cs < 2 ^ 20 \<longrightarrow> (\<forall>s \<in> set r. fbetween (- 1) 1 s))"
proof -
  from mix_out [OF assms(2), of L cs] assms(3) have r: "length r = 2 * FRAME_SAMPLES"
    "\<And>i. i < FRAME_SAMPLES \<Longrightarrow> r ! (2 * i) = soft_clip L (channel_sum fst i cs (Fin 0)) \<and>
       r ! (2 * i + 1) = soft_clip L (channel_sum snd i cs (Fin 0))" by auto
  have e: "\<exists>i ch. s = soft_clip L (channel_sum ch i cs (Fin 0)) \<and> (ch = fst \<or> ch = snd)" if "s \<in> set r" for s
  proof -
    from that obtain k where "k < 2 * FRAME_SAMPLES" "s = r ! k" by (auto simp: in_set_conv_nth r(1))
    with stereo_index r(2) show ?thesis by metis
  qed
  show ?thesis
  proof (intro conjI impI ballI)
    fix s assume "s \<in> set r"
    then show "s = FNaN \<or> fbetween (- 1) 1 s" using e soft_clip_range [OF assms(1)] by metis
  next
    fix s assume c: "(\<forall>c \<in> set cs. sane c) \<and> length cs < 2 ^ 20" and "s \<in> set r"
    with e obtain i ch where s: "s = soft_clip L (channel_sum ch i cs (Fin 0))" "ch = fst \<or> ch = snd" by blast
    then have "is_finite (channel_sum ch i cs (Fin 0))" using c channel_sum_finite by blast
    then show "fbetween (- 1) 1 s" using s soft_clip_range [OF assms(1), of "channel_sum ch i cs (Fin 0)"] by auto
  qed
qed

text \<open>The mix never exceeds full scale: every sample handed to the encoder is either NaN or in
  \<open>[-1, 1]\<close>, however many speakers are summed; and with finite samples (up to \<open>2^40\<close>), gains in \<open>[0, 4]\<close> and
  finite pan weights no sample is NaN.\<close>

theorem mix_stereo_bounded:
  assumes "libm_ok L" "length out = 2 * FRAME_SAMPLES" "mix_stereo L cs out = Some r"
  shows "(\<forall>s \<in> set r. s = FNaN \<or> fbetween (- 1) 1 s) \<and>
    ((\<forall>c \<in> set cs. sane c) \<and> length cs < 2 ^ 20 \<longrightarrow> (\<forall>s \<in> set r. fbetween (- 1) 1 s))"
  using assms by (rule mix_bounded)

lemma mix_stereo_bounded_witness:
  "\<exists>r. mix_stereo exact_libm [\<lparr>c_frame = [Fin 1], c_gain = Fin 4, c_pan = (Fin 1, Fin 0)\<rparr>]
     (replicate (2 * FRAME_SAMPLES) (Fin 0)) = Some r \<and> (\<forall>s \<in> set r. fbetween (- 1) 1 s)"
proof -
  let ?cs = "[\<lparr>c_frame = [Fin 1], c_gain = Fin 4, c_pan = (Fin 1, Fin 0)\<rparr>]" and ?out = "replicate (2 * FRAME_SAMPLES) (Fin 0)"
  obtain r where r: "mix_stereo exact_libm ?cs ?out = Some r" using mix_out [of ?out exact_libm ?cs] by auto
  have "\<forall>c \<in> set ?cs. sane c" by (simp add: sane_def)
  then show ?thesis using mix_stereo_bounded [OF exact_libm_ok _ r] r by auto
qed

lemma mix_stereo_samples_witness:
  "\<exists>r. mix_stereo exact_libm [] (replicate (2 * FRAME_SAMPLES) (Fin 1)) = Some r \<and> r ! 0 = Fin 0"
proof -
  have "(0::nat) < FRAME_SAMPLES" by (simp add: FRAME_SAMPLES_def)
  then show ?thesis
    using mix_stereo_samples [of "replicate (2 * FRAME_SAMPLES) (Fin 1)" exact_libm "[]"]
    by (force simp: channel_sum_def soft_clip_def)
qed

end
