(* ===== verification/Room.thy ===== *)
theory Room
  imports Logctl Mixer "HOL-Library.Sublist"
begin

text \<open>
  \<open>src/src/room.rs\<close>: the per-viewer session, the registry of live sessions, and one 20 ms tick
  of a room. A session is the record \<open>session\<close>; \<open>Arc<Session>\<close> is an address \<open>arc\<close> into a store
  of sessions, so that the registry, the endpoints and the mixer share one mutable session as the
  code does. Operations on one session take and return the record; operations that reach several
  take and return the store.
\<close>

section \<open>Sessions\<close>

definition JITTER_MAX_FRAMES :: nat where "JITTER_MAX_FRAMES = 10"

datatype room_key = Spatial string i32 | Channel string

record spatial_state =
  avatar_pos :: vec3
  avatar_rot :: vec4
  listener_pos :: vec3
  listener_rot :: vec4
  known :: bool

definition spatial_identity :: spatial_state where
  "spatial_identity =
     \<lparr>avatar_pos = (Fin 0, Fin 0, Fin 0), avatar_rot = (Fin 0, Fin 0, Fin 0, Fin 1),
      listener_pos = (Fin 0, Fin 0, Fin 0), listener_rot = (Fin 0, Fin 0, Fin 0, Fin 1), known = False\<rparr>"

record session =
  s_id :: string
  s_agent_id :: string
  s_room :: room_key
  s_spatial :: bool
  s_state :: spatial_state
  s_gains :: "(string, fp) hmap"
  s_mutes :: "(string, bool) hmap"
  s_inbound :: "fp list list"
  s_level :: u8
  s_joined :: bool
  s_primary :: bool
  s_closed :: bool
  s_was_speaking :: bool
  s_announced :: "string set"

definition Session_new :: "string \<Rightarrow> string \<Rightarrow> room_key \<Rightarrow> bool \<Rightarrow> session" where
  "Session_new sid agent_id room spatial =
     \<lparr>s_id = sid, s_agent_id = agent_id, s_room = room, s_spatial = spatial,
      s_state = spatial_identity, s_gains = hm_empty, s_mutes = hm_empty, s_inbound = [],
      s_level = 0, s_joined = False, s_primary = False, s_closed = False, s_was_speaking = False,
      s_announced = {}\<rparr>"

text \<open>\<open>(level as f32 / LEVEL_SCALE_TO_WIRE) > SPEAKING_AUDIO_LEVEL\<close>.\<close>

definition speaking_of :: "u8 \<Rightarrow> bool" where
  "speaking_of level =
     fp_lt SPEAKING_AUDIO_LEVEL (fdiv F32 (fp_of_int F32 (uint level)) LEVEL_SCALE_TO_WIRE)"

text \<open>The session, the level and the text passed to \<open>log::info!\<close>, if the transition is logged.\<close>

definition update_level ::
    "logctl \<Rightarrow> fp list option \<Rightarrow> bool \<Rightarrow> session \<Rightarrow> session \<times> u8 \<times> string option" where
  "update_level c frame mixed s =
     (let level = (case frame of None \<Rightarrow> 0 | Some f \<Rightarrow> level_to_wire f);
          speaking = speaking_of level;
          was_speaking = s_was_speaking s
      in (s\<lparr>s_level := level, s_was_speaking := speaking\<rparr>, level,
          if speaking \<noteq> was_speaking \<and> mic_log_allowed c mixed
          then Some (if speaking
                     then ''mic activity: session '' @ s_id s @ '' agent '' @ s_agent_id s @
                          '' started speaking (level '' @ show_int (uint level) @ '')''
                     else ''mic activity: session '' @ s_id s @ '' agent '' @ s_agent_id s @
                          '' stopped speaking'')
          else None))"

definition push_frame :: "fp list \<Rightarrow> session \<Rightarrow> session" where
  "push_frame frame s =
     (let q = s_inbound s; q' = (if JITTER_MAX_FRAMES \<le> length q then tl q else q)
      in s\<lparr>s_inbound := q' @ [frame]\<rparr>)"

definition take_frame :: "session \<Rightarrow> session \<times> fp list option" where
  "take_frame s =
     (case s_inbound s of [] \<Rightarrow> (s, None) | f # q \<Rightarrow> (s\<lparr>s_inbound := q\<rparr>, Some f))"

section \<open>Control messages\<close>

definition finite3 :: "vec3 option \<Rightarrow> vec3 option" where
  "finite3 = opt_filter (\<lambda>(x, y, z). is_finite x \<and> is_finite y \<and> is_finite z)"

definition finite4 :: "vec4 option \<Rightarrow> vec4 option" where
  "finite4 = opt_filter (\<lambda>(x, y, z, w). is_finite x \<and> is_finite y \<and> is_finite z \<and> is_finite w)"

definition apply_join :: "viewer_data_message \<Rightarrow> session \<Rightarrow> session" where
  "apply_join m s =
     (case vd_join m of None \<Rightarrow> s | Some primary \<Rightarrow> s\<lparr>s_joined := True, s_primary := primary\<rparr>)"

definition filter_message :: "viewer_data_message \<Rightarrow> viewer_data_message" where
  "filter_message m =
     m\<lparr>vd_avatar_pos := finite3 (vd_avatar_pos m), vd_avatar_rot := finite4 (vd_avatar_rot m),
       vd_listener_pos := finite3 (vd_listener_pos m), vd_listener_rot := finite4 (vd_listener_rot m)\<rparr>"

definition apply_spatial :: "viewer_data_message \<Rightarrow> spatial_state \<Rightarrow> spatial_state" where
  "apply_spatial m s =
     (if vd_avatar_pos m = None \<and> vd_avatar_rot m = None \<and> vd_listener_pos m = None \<and> vd_listener_rot m = None
      then s
      else let s = (case vd_avatar_pos m of None \<Rightarrow> s | Some p \<Rightarrow> s\<lparr>avatar_pos := p, known := True\<rparr>);
               s = (case vd_avatar_rot m of None \<Rightarrow> s | Some r \<Rightarrow> s\<lparr>avatar_rot := r\<rparr>);
               s = (case vd_listener_pos m of None \<Rightarrow> s | Some p \<Rightarrow> s\<lparr>listener_pos := p\<rparr>);
               s = (case vd_listener_rot m of None \<Rightarrow> s | Some r \<Rightarrow> s\<lparr>listener_rot := r\<rparr>)
           in if known s then s\<lparr>listener_pos := tether (listener_pos s) (avatar_pos s)\<rparr> else s)"

text \<open>The guard of both maps: a new key is taken only while there is room.\<close>

definition put_bounded :: "string \<Rightarrow> 'v \<Rightarrow> (string, 'v) hmap \<Rightarrow> (string, 'v) hmap" where
  "put_bounded k v m =
     (if hm_len m < MAX_PEER_ENTRIES \<or> hm_get m k \<noteq> None then hm_insert k v m else m)"

definition wire_gain :: "u32 \<Rightarrow> fp" where
  "wire_gain raw =
     fp_clamp (Fin 0) MAX_PEER_GAIN (fdiv F32 (fp_of_int F32 (uint raw)) PEER_GAIN_CONVERSION_FACTOR)"

definition apply_gains :: "(string \<times> u32) list \<Rightarrow> (string, fp) hmap \<Rightarrow> (string, fp) hmap" where
  "apply_gains gs m = foldl (\<lambda>m (k, raw). put_bounded k (wire_gain raw) m) m gs"

definition apply_mutes :: "(string \<times> bool) list \<Rightarrow> (string, bool) hmap \<Rightarrow> (string, bool) hmap" where
  "apply_mutes ms m = foldl (\<lambda>m (k, muted). put_bounded k muted m) m ms"

definition apply_data :: "viewer_data_message \<Rightarrow> session \<Rightarrow> session" where
  "apply_data m s =
     (let s = apply_join m s; m = filter_message m
      in s\<lparr>s_state := apply_spatial m (s_state s),
           s_gains := apply_gains (vd_user_gain m) (s_gains s),
           s_mutes := apply_mutes (vd_user_mute m) (s_mutes s)\<rparr>)"

definition peer_gain :: "session \<Rightarrow> string \<Rightarrow> fp" where
  "peer_gain s speaker =
     (if unwrap_or (hm_get (s_mutes s) speaker) False then Fin 0
      else unwrap_or (hm_get (s_gains s) speaker) (Fin 1))"

definition mark_announced :: "string \<Rightarrow> session \<Rightarrow> session \<times> bool" where
  "mark_announced agent s = (s\<lparr>s_announced := insert agent (s_announced s)\<rparr>, agent \<notin> s_announced s)"

definition forget_announced :: "string \<Rightarrow> session \<Rightarrow> session" where
  "forget_announced agent s = s\<lparr>s_announced := s_announced s - {agent}\<rparr>"

section \<open>The registry\<close>

type_synonym arc = nat
type_synonym store = "arc \<Rightarrow> session"

record registry =
  by_session :: "(string, arc) hmap"
  by_room :: "(room_key, string list) hmap"

definition registry_default :: registry where
  "registry_default = \<lparr>by_session = hm_empty, by_room = hm_empty\<rparr>"

text \<open>The two writes of \<open>insert\<close> take two locks one after the other.\<close>

definition insert_room :: "store \<Rightarrow> arc \<Rightarrow> registry \<Rightarrow> registry" where
  "insert_room st a reg =
     (let s = st a; ids = unwrap_or (hm_get (by_room reg) (s_room s)) []
      in reg\<lparr>by_room := hm_insert (s_room s) (ids @ [s_id s]) (by_room reg)\<rparr>)"

definition insert_session :: "store \<Rightarrow> arc \<Rightarrow> registry \<Rightarrow> registry" where
  "insert_session st a reg = reg\<lparr>by_session := hm_insert (s_id (st a)) a (by_session reg)\<rparr>"

definition reg_insert :: "store \<Rightarrow> arc \<Rightarrow> registry \<Rightarrow> registry" where
  "reg_insert st a reg = insert_session st a (insert_room st a reg)"

definition remove_room :: "room_key \<Rightarrow> string \<Rightarrow> registry \<Rightarrow> registry" where
  "remove_room room sid reg =
     (case hm_get (by_room reg) room of
        None \<Rightarrow> reg
      | Some members \<Rightarrow>
          let members = filter (\<lambda>m. m \<noteq> sid) members
          in reg\<lparr>by_room := (if members = [] then hm_remove room (by_room reg)
                            else hm_insert room members (by_room reg))\<rparr>)"

definition forget_all :: "string \<Rightarrow> arc list \<Rightarrow> store \<Rightarrow> store" where
  "forget_all agent arcs st = foldl (\<lambda>st a. st(a := forget_announced agent (st a))) st arcs"

definition reg_remove :: "string \<Rightarrow> store \<times> registry \<Rightarrow> (store \<times> registry) \<times> arc option" where
  "reg_remove sid = (\<lambda>(st, reg).
     case hm_get (by_session reg) sid of
       None \<Rightarrow> ((st, reg), None)
     | Some a \<Rightarrow>
         let reg = reg\<lparr>by_session := hm_remove sid (by_session reg)\<rparr>;
             reg = remove_room (s_room (st a)) sid reg;
             st = forget_all (s_agent_id (st a)) (hm_values (by_session reg)) st
         in ((st(a := (st a)\<lparr>s_closed := True\<rparr>), reg), Some a))"

definition reg_rooms :: "registry \<Rightarrow> room_key list" where
  "reg_rooms reg = hm_keys (by_room reg)"

definition reg_members :: "registry \<Rightarrow> room_key \<Rightarrow> arc list" where
  "reg_members reg room =
     (case hm_get (by_room reg) room of
        None \<Rightarrow> [] | Some ids \<Rightarrow> List.map_filter (hm_get (by_session reg)) ids)"

definition session_count :: "registry \<Rightarrow> nat" where
  "session_count reg = hm_len (by_session reg)"

section \<open>One tick of a room\<close>

record listener_output =
  o_session :: arc
  o_stereo :: "fp list"
  o_roster :: "string option"

text \<open>One frame per speaker; the third component collects the lines logged.\<close>

fun pull_frames ::
    "logctl \<Rightarrow> arc list \<Rightarrow> store \<Rightarrow> store \<times> (arc \<times> fp list option) list \<times> string list" where
  "pull_frames c [] st = (st, [], [])"
| "pull_frames c (m # members) st =
     (let (s, f) = take_frame (st m);
          (s, level, line) = update_level c f True s;
          (st, frames, lines) = pull_frames c members (st(m := s))
      in (st, (m, f) # frames, (case line of None \<Rightarrow> [] | Some l \<Rightarrow> [l]) @ lines))"

text \<open>The body of the loop over speakers: \<open>None\<close> is a \<open>continue\<close>.\<close>

definition contribution_of ::
    "libm \<Rightarrow> session \<Rightarrow> session \<Rightarrow> fp list option \<Rightarrow> contribution option" where
  "contribution_of L listener speaker frame =
     (if s_id speaker = s_id listener then None
      else case frame of None \<Rightarrow> None | Some frame \<Rightarrow>
        let gain = peer_gain listener (s_agent_id speaker)
        in if fp_le gain (Fin 0) then None
           else if s_spatial listener then
             (let sstate = s_state speaker; lstate = s_state listener
              in if \<not> known sstate \<or> \<not> known lstate then None
                 else let dg = distance_gain (v3_norm (v3_sub (avatar_pos sstate) (listener_pos lstate)))
                      in if fp_le dg (Fin 0) then None
                         else Some \<lparr>c_frame = frame, c_gain = fmul F32 gain dg,
                                    c_pan = pan_weights L (avatar_pos sstate) (listener_pos lstate)
                                              (listener_rot lstate)\<rparr>)
           else Some \<lparr>c_frame = frame, c_gain = gain, c_pan = (FRAC_1_SQRT_2, FRAC_1_SQRT_2)\<rparr>)"

definition contributions_for ::
    "libm \<Rightarrow> store \<Rightarrow> arc \<Rightarrow> (arc \<times> fp list option) list \<Rightarrow> contribution list" where
  "contributions_for L st listener frames =
     List.map_filter (\<lambda>(speaker, frame). contribution_of L (st listener) (st speaker) frame) frames"

fun roster_entries ::
    "arc \<Rightarrow> (arc \<times> fp list option) list \<Rightarrow> store \<Rightarrow> store \<times> (string \<times> roster_entry) list" where
  "roster_entries listener [] st = (st, [])"
| "roster_entries listener ((speaker, _) # frames) st =
     (let level = s_level (st speaker); agent = s_agent_id (st speaker);
          (l, joined) = mark_announced agent (st listener);
          st = st(listener := l);
          (st', entries) = roster_entries listener frames st
      in (st',
          if \<not> joined \<and> level = 0 then entries
          else (agent, \<lparr>re_joined = joined, re_primary = s_primary (st speaker), re_power = level,
                        re_speaking = speaking_of level, re_moderator_muted = False\<rparr>) # entries))"

definition build_roster ::
    "(json \<Rightarrow> string) \<Rightarrow> arc \<Rightarrow> (arc \<times> fp list option) list \<Rightarrow> store \<Rightarrow> store \<times> string option" where
  "build_roster ser listener frames st =
     (let (st, entries) = roster_entries listener frames st
      in (st, if entries = [] then None else Some (roster_json ser entries)))"

fun mix_listeners ::
    "libm \<Rightarrow> (json \<Rightarrow> string) \<Rightarrow> (arc \<times> fp list option) list \<Rightarrow> arc list \<Rightarrow> store
       \<Rightarrow> (store \<times> listener_output list) option" where
  "mix_listeners L ser frames [] st = Some (st, [])"
| "mix_listeners L ser frames (listener # members) st =
     Option.bind (mix_stereo L (contributions_for L st listener frames) (replicate (FRAME_SAMPLES * 2) (Fin 0)))
       (\<lambda>stereo. let (st, roster) = build_roster ser listener frames st
         in map_option (\<lambda>(st, outs). (st, \<lparr>o_session = listener, o_stereo = stereo, o_roster = roster\<rparr> # outs))
              (mix_listeners L ser frames members st))"

text \<open>\<open>None\<close> is a panic (an index past the stereo buffer).\<close>

definition mix_room ::
    "libm \<Rightarrow> logctl \<Rightarrow> (json \<Rightarrow> string) \<Rightarrow> arc list \<Rightarrow> store
       \<Rightarrow> (store \<times> listener_output list \<times> string list) option" where
  "mix_room L c ser members st =
     (let (st, frames, lines) = pull_frames c members st
      in map_option (\<lambda>(st, outs). (st, outs, lines)) (mix_listeners L ser frames members st))"

section \<open>The jitter buffer\<close>

text \<open>A bounded first-in first-out buffer that drops its oldest element when it is full.\<close>

datatype 'x fifo_op = Push 'x | Take

locale drop_oldest =
  fixes push :: "'x \<Rightarrow> 's \<Rightarrow> 's" and taking :: "'s \<Rightarrow> 's \<times> 'x option" and buf :: "'s \<Rightarrow> 'x list" and cap :: nat
  assumes buf_push: "buf (push x s) = (if cap \<le> length (buf s) then tl (buf s) else buf s) @ [x]"
    and buf_take: "buf (fst (taking s)) = tl (buf s)"
    and taken: "snd (taking s) = (case buf s of [] \<Rightarrow> None | x # _ \<Rightarrow> Some x)"
    and cap_pos: "0 < cap"
begin

fun run :: "'x fifo_op list \<Rightarrow> 's \<Rightarrow> 's \<times> 'x list" where
  "run [] s = (s, [])"
| "run (Push x # ops) s = run ops (push x s)"
| "run (Take # ops) s =
     (let (s', f) = taking s; (s'', fs) = run ops s' in (s'', (case f of None \<Rightarrow> fs | Some x \<Rightarrow> x # fs)))"

fun pushed :: "'x fifo_op list \<Rightarrow> 'x list" where
  "pushed [] = []"
| "pushed (Push x # ops) = x # pushed ops"
| "pushed (Take # ops) = pushed ops"

lemma push_last: "length (buf s) \<le> cap \<Longrightarrow> buf (push x s) = drop (length (buf s) + 1 - cap) (buf s @ [x])"
  using cap_pos by (cases "buf s") (auto simp: buf_push)

lemma push_bounded: "length (buf s) \<le> cap \<Longrightarrow> length (buf (push x s)) \<le> cap"
  using cap_pos by (auto simp: buf_push)

lemma pushes_last:
  "length (buf s) \<le> cap \<Longrightarrow>
     buf (fold push xs s) = drop (length (buf s) + length xs - cap) (buf s @ xs)"
proof (induction xs arbitrary: s)
  case Nil
  then show ?case by simp
next
  case (Cons x xs)
  define b where "b = buf s @ [x]"
  define j where "j = length (buf s) + 1 - cap"
  have j: "j \<le> length b" "buf (push x s) = drop j b"
    using push_last [OF Cons.prems, of x] cap_pos by (simp_all add: b_def j_def)
  then have "buf (fold push (x # xs) s) = drop (length b - j + length xs - cap) (drop j b @ xs)"
    using Cons.IH [OF push_bounded [OF Cons.prems, of x]] by simp
  also have "drop j b @ xs = drop j (b @ xs)" using j(1) by simp
  also have "drop (length b - j + length xs - cap) (drop j (b @ xs)) = drop (length b + length xs - cap) (b @ xs)"
    unfolding drop_drop using Cons.prems by (intro arg_cong2 [where f = drop]) (auto simp: b_def j_def)
  finally show ?case by (simp add: b_def)
qed

lemma run_order:
  assumes "length (buf s) \<le> cap" "run ops s = (s', fs)"
  shows "length (buf s') \<le> cap \<and> subseq (fs @ buf s') (buf s @ pushed ops)"
  using assms
proof (induction ops s arbitrary: s' fs rule: run.induct)
  case (1 s)
  then show ?case by simp
next
  case (2 x ops s)
  then have "length (buf s') \<le> cap \<and> subseq (fs @ buf s') (buf (push x s) @ pushed ops)"
    using push_bounded by simp
  moreover have "subseq (buf (push x s)) (buf s @ [x])"
    unfolding push_last [OF 2(2)] by (rule suffix_imp_subseq) (rule suffix_drop)
  then have "subseq (buf (push x s) @ pushed ops) ((buf s @ [x]) @ pushed ops)"
    by (rule list_emb_append_mono) simp
  ultimately show ?case using subseq_order.trans by auto
next
  case (3 ops s)
  obtain s1 f where t: "taking s = (s1, f)" by fastforce
  have b: "buf s1 = tl (buf s)" "f = (case buf s of [] \<Rightarrow> None | x # _ \<Rightarrow> Some x)"
    using buf_take [of s] taken [of s] t by simp_all
  obtain fs' where r: "run ops s1 = (s', fs')" "fs = (case f of None \<Rightarrow> fs' | Some x \<Rightarrow> x # fs')"
    using 3(3) t by (auto split: prod.splits)
  have "length (buf s') \<le> cap \<and> subseq (fs' @ buf s') (buf s1 @ pushed ops)"
    using 3(1) [OF t [symmetric] refl] 3(2) r(1) b(1) by simp
  then show ?case using r(2) b by (cases "buf s") auto
qed

end

interpretation jitter: drop_oldest push_frame take_frame s_inbound JITTER_MAX_FRAMES
  by unfold_locales (auto simp: push_frame_def take_frame_def JITTER_MAX_FRAMES_def Let_def split: list.split)

text \<open>C25. The jitter buffer refines "the ten newest frames": after any number of pushes onto a
  buffer of at most ten frames, it holds exactly the last ten of the old contents followed by the
  pushed frames, in order.\<close>

theorem jitter_keeps_newest:
  assumes "length (s_inbound s) \<le> JITTER_MAX_FRAMES"
  shows "s_inbound (fold push_frame fs s) =
    drop (length (s_inbound s) + length fs - JITTER_MAX_FRAMES) (s_inbound s @ fs)"
  using assms by (rule jitter.pushes_last)

lemma jitter_keeps_newest_witness:
  "s_inbound (fold push_frame (replicate 11 [Fin 1]) (Session_new ''a'' ''b'' (Channel ''c'') False)) = replicate 10 [Fin 1]"
  using jitter_keeps_newest [of "Session_new ''a'' ''b'' (Channel ''c'') False" "replicate 11 [Fin 1]"]
  by (simp add: Session_new_def JITTER_MAX_FRAMES_def)

text \<open>Whatever the interleaving of the decoder's pushes and the mixer's takes, the buffer stays
  within ten frames and the frames taken, followed by those still waiting, are a subsequence of the
  frames pushed: no frame is heard twice or out of order.\<close>

theorem jitter_in_order:
  assumes "length (s_inbound s) \<le> JITTER_MAX_FRAMES" "jitter.run ops s = (s', fs)"
  shows "length (s_inbound s') \<le> JITTER_MAX_FRAMES \<and>
    subseq (fs @ s_inbound s') (s_inbound s @ jitter.pushed ops)"
  using assms by (rule jitter.run_order)

lemma jitter_in_order_witness:
  "subseq ([[Fin 1]] @ [[Fin 2]]) ([] @ [[Fin 1], [Fin 2]] :: fp list list)"
proof -
  let ?s = "Session_new ''a'' ''b'' (Channel ''c'') False"
  have e: "jitter.run [Push [Fin 1], Take, Push [Fin 2]] ?s = (?s\<lparr>s_inbound := [[Fin 2]]\<rparr>, [[Fin 1]])"
    by (simp add: Session_new_def push_frame_def take_frame_def JITTER_MAX_FRAMES_def)
  from jitter_in_order [OF _ e] show ?thesis by (simp add: Session_new_def)
qed

section \<open>Speech level\<close>

lemma speaking_39: "speaking_of level \<longleftrightarrow> 39 \<le> unat level"
proof -
  define k where "k = unat level"
  have "unat level < 2 ^ LENGTH(8)" by (rule unsigned_less)
  then have u: "uint level = int k" "k < 256" by (simp_all add: k_def)
  have q: "repr F32 (real n / 128)" "real n / 128 \<le> maxfin F32" "repr F32 (real n)" "real n \<le> maxfin F32" if "n < 256" for n
  proof -
    have b: "\<bar>int n\<bar> < 2 ^ 24" using that by simp
    have p: "pow2 (- 7) = 1 / 128" using pow2_minus [of 7] pow2_nat [of 7] by simp
    show "repr F32 (real n / 128)" "real n / 128 \<le> maxfin F32" "repr F32 (real n)" "real n \<le> maxfin F32"
      using repr_scaled [OF b, of "- 7" F32] repr_scaled [OF b, of 0 F32] by (simp_all add: p)
  qed
  have s: "fbetween (38 / 128) (77 / 256) SPEAKING_AUDIO_LEVEL"
    unfolding SPEAKING_AUDIO_LEVEL_def
  proof (rule rnd_between)
    have p: "pow2 (- 8) = 1 / 256" using pow2_minus [of 8] pow2_nat [of 8] by simp
    show "repr F32 (77 / 256)" "repr F32 (38 / 128)"
      using repr_scaled(1) [of 77 "- 8" F32] repr_scaled(1) [of 76 "- 8" F32] by (simp_all add: p)
    show "\<bar>38 / 128\<bar> \<le> maxfin F32" "\<bar>77 / 256\<bar> \<le> maxfin F32" by (rule small_maxfin, simp)+
  qed simp_all
  then obtain t where t: "SPEAKING_AUDIO_LEVEL = Fin t" "38 / 128 \<le> t" "t \<le> 77 / 256" by (elim fbetweenE)
  have "fp_of_int F32 (int (k)) = Fin (real (k))"
    unfolding fp_of_int_def of_int_of_nat_eq using q(3,4) [OF u(2)] by (intro rnd_repr) simp_all
  then have "fdiv F32 (fp_of_int F32 (uint level)) LEVEL_SCALE_TO_WIRE = rnd F32 (real (k) / 128)"
    unfolding u(1) LEVEL_SCALE_TO_WIRE_def by (simp only: fdiv.simps fp.case) simp
  also have "\<dots> = Fin (real (k) / 128)"
    using q(1,2) [OF u(2)] by (intro rnd_repr) simp_all
  finally have "fdiv F32 (fp_of_int F32 (uint level)) LEVEL_SCALE_TO_WIRE = Fin (real (k) / 128)" .
  then have "speaking_of level \<longleftrightarrow> t < real (k) / 128" by (simp add: speaking_of_def t(1))
  also have "\<dots> \<longleftrightarrow> 39 \<le> k"
  proof (cases "39 \<le> k")
    case True
    then have "39 / 128 \<le> real (k) / 128" by simp
    then show ?thesis using True t by auto
  next
    case False
    then have "real (k) \<le> 38" by simp
    then show ?thesis using False t by auto
  qed
  finally show ?thesis by (simp only: k_def)
qed

text \<open>The speaking flag is an exact threshold on the wire: a level reads as speech from 39 of
  128 on (0.30 in \<open>f32\<close>), whatever the rounding of the quotient and of the constant.\<close>

theorem speaking_threshold: "speaking_of level \<longleftrightarrow> 39 \<le> unat level"
  by (rule speaking_39)

section \<open>What control messages can do to a session\<close>

definition state_ok :: "spatial_state \<Rightarrow> bool" where
  "state_ok s \<longleftrightarrow> vec3_ok (avatar_pos s) \<and> vec4_ok (avatar_rot s) \<and> ear_ok (listener_pos s) \<and>
     vec4_ok (listener_rot s) \<and>
     (known s \<longrightarrow> near (50 + 1 / 10 ^ 12 + 3 * (1 / 9007199254740992) * span (avatar_pos s)) (listener_pos s) (avatar_pos s))"

definition maps_ok :: "(string, fp) hmap \<Rightarrow> (string, bool) hmap \<Rightarrow> bool" where
  "maps_ok g u \<longleftrightarrow> hm_ok g \<and> hm_ok u \<and> hm_len g \<le> MAX_PEER_ENTRIES \<and> hm_len u \<le> MAX_PEER_ENTRIES \<and>
     (\<forall>k v. hm_get g k = Some v \<longrightarrow> fbetween 0 4 v)"

definition session_ok :: "session \<Rightarrow> bool" where
  "session_ok s \<longleftrightarrow> state_ok (s_state s) \<and> maps_ok (s_gains s) (s_mutes s)"

lemma wire_gain_range: "fbetween 0 4 (wire_gain raw)"
proof -
  have "\<exists>x. fdiv F32 (fp_of_int F32 (uint raw)) PEER_GAIN_CONVERSION_FACTOR = Fin x"
  proof -
    define n where "n = uint raw"
    have "0 \<le> n" "n < 2 ^ 32" using uint_bounded [of raw] by (simp_all add: n_def)
    then have u: "\<bar>real_of_int n\<bar> \<le> 2 ^ 32" by simp
    have r: "repr F32 (2 ^ 32)" using repr_pow2 [of F32 32] pow2_nat [of 32] by (simp add: emin_def prec_def)
    have "fp_of_int F32 n = Fin (rnd_real F32 (of_int n))"
      unfolding fp_of_int_def using u by (intro rnd_Fin small_maxfin) simp
    moreover have "\<bar>rnd_real F32 (of_int n)\<bar> \<le> 2 ^ 32" using r u by (rule rd.abs_le)
    then have "\<bar>rnd_real F32 (of_int n) / 220\<bar> \<le> 2 ^ 127" by simp
    ultimately show ?thesis
      using rnd_Fin [OF small_maxfin] by (simp add: n_def [symmetric] PEER_GAIN_CONVERSION_FACTOR_def)
  qed
  then obtain x where x: "fdiv F32 (fp_of_int F32 (uint raw)) PEER_GAIN_CONVERSION_FACTOR = Fin x" by blast
  show ?thesis using fp_clamp_Fin [of 0 4 x] by (auto simp: wire_gain_def MAX_PEER_GAIN_def x)
qed

lemma put_bounded_ok:
  "hm_ok m \<Longrightarrow> hm_ok (put_bounded k v m)"
  "hm_ok m \<Longrightarrow> hm_len m \<le> MAX_PEER_ENTRIES \<Longrightarrow> hm_len (put_bounded k v m) \<le> MAX_PEER_ENTRIES"
  by (auto simp: put_bounded_def hm.len_put_bounded)

lemma put_bounded_get: "hm_get (put_bounded k v m) j = Some w \<Longrightarrow> w = v \<or> hm_get m j = Some w"
  by (auto simp: put_bounded_def hm_simps split: if_splits)

lemma apply_gains_ok:
  "maps_ok g u \<Longrightarrow> maps_ok (apply_gains gs g) u"
proof (induction gs arbitrary: g)
  case (Cons kv gs)
  have "maps_ok (put_bounded (fst kv) (wire_gain (snd kv)) g) u"
    using Cons.prems by (auto simp: maps_ok_def put_bounded_ok wire_gain_range dest!: put_bounded_get)
  from Cons.IH [OF this] show ?case by (simp add: apply_gains_def split_beta)
qed (simp add: apply_gains_def)

lemma apply_mutes_ok:
  "maps_ok g u \<Longrightarrow> maps_ok g (apply_mutes ms u)"
proof (induction ms arbitrary: u)
  case (Cons kv ms)
  have "maps_ok g (put_bounded (fst kv) (snd kv) u)"
    using Cons.prems by (auto simp: maps_ok_def put_bounded_ok)
  from Cons.IH [OF this] show ?case by (simp add: apply_mutes_def split_beta)
qed (simp add: apply_mutes_def)

lemma filter_message_ok: "data_ok m \<Longrightarrow> data_ok (filter_message m)"
  by (auto simp: data_ok_def filter_message_def finite3_def finite4_def option.pred_set opt_filter_Some_iff)

lemma apply_spatial_ok:
  assumes "data_ok m" "state_ok s" shows "state_ok (apply_spatial m s)"
proof (cases "vd_avatar_pos m = None \<and> vd_avatar_rot m = None \<and> vd_listener_pos m = None \<and> vd_listener_rot m = None")
  case True
  then show ?thesis using assms(2) by (simp add: apply_spatial_def)
next
  case False
  define s1 where "s1 = (case vd_avatar_pos m of None \<Rightarrow> s | Some p \<Rightarrow> s\<lparr>avatar_pos := p, known := True\<rparr>)"
  define s2 where "s2 = (case vd_avatar_rot m of None \<Rightarrow> s1 | Some r \<Rightarrow> s1\<lparr>avatar_rot := r\<rparr>)"
  define s3 where "s3 = (case vd_listener_pos m of None \<Rightarrow> s2 | Some p \<Rightarrow> s2\<lparr>listener_pos := p\<rparr>)"
  define s4 where "s4 = (case vd_listener_rot m of None \<Rightarrow> s3 | Some r \<Rightarrow> s3\<lparr>listener_rot := r\<rparr>)"
  have m: "pred_option vec3_ok (vd_avatar_pos m)" "pred_option vec4_ok (vd_avatar_rot m)"
    "pred_option vec3_ok (vd_listener_pos m)" "pred_option vec4_ok (vd_listener_rot m)"
    using assms(1) by (simp_all add: data_ok_def)
  have s: "vec3_ok (avatar_pos s)" "vec4_ok (avatar_rot s)" "ear_ok (listener_pos s)" "vec4_ok (listener_rot s)"
    using assms(2) by (simp_all add: state_ok_def)
  have s4: "vec3_ok (avatar_pos s4)" "vec4_ok (avatar_rot s4)" "ear_ok (listener_pos s4)" "vec4_ok (listener_rot s4)"
    using s m by (auto simp: s1_def s2_def s3_def s4_def vec3_ok_ear_ok split: option.splits)
  have e: "apply_spatial m s = (if known s4 then s4\<lparr>listener_pos := tether (listener_pos s4) (avatar_pos s4)\<rparr> else s4)"
    by (simp only: apply_spatial_def False if_False Let_def s1_def s2_def s3_def s4_def)
  show ?thesis
    using s4 tether_bound [OF s4(3,1)] by (simp add: e state_ok_def)
qed


lemma zero_coord [simp]: "coord_ok (Fin 0)" "coord_ok (Fin 1)"
proof -
  have "(1::real) \<le> 2 ^ 100" by simp
  then have "1 \<le> coord_bound" using coord_bound_big by (rule order_trans)
  then show "coord_ok (Fin 0)" "coord_ok (Fin 1)" by (simp_all add: coord_ok_def)
qed

lemma Session_new_ok: "session_ok (Session_new i a r sp)"
proof -
  have "vec3_ok (Fin 0, Fin 0, Fin 0)" by (simp add: vec3_ok_def)
  moreover from this have "ear_ok (Fin 0, Fin 0, Fin 0)" by (rule vec3_ok_ear_ok)
  ultimately show ?thesis
    by (simp add: session_ok_def Session_new_def state_ok_def spatial_identity_def vec4_ok_def maps_ok_def hm_simps
        hm.ok_empty hm_len_0_iff [THEN iffD2])
qed

lemma apply_data_ok: "data_ok m \<Longrightarrow> session_ok s \<Longrightarrow> session_ok (apply_data m s)"
  by (auto simp: session_ok_def apply_data_def apply_join_def Let_def apply_spatial_ok filter_message_ok
      apply_gains_ok apply_mutes_ok split: option.split)

text \<open>A viewer cannot break its session through the data channel: from a fresh session, after any
  sequence of JSON messages, every stored coordinate is finite, the listening position of a session
  with a known position is within 50 m of its avatar (plus rounding), the gain and mute maps hold at
  most 256 entries each, and every stored gain is between 0 and 4.\<close>

theorem data_channel_safe:
  assumes "\<forall>v \<in> set vs. json_finite v"
  shows "session_ok (fold (\<lambda>v. apply_data (viewer_data_of_value v)) vs (Session_new i a r sp))"
proof -
  have "session_ok s \<Longrightarrow> session_ok (fold (\<lambda>v. apply_data (viewer_data_of_value v)) vs s)" for s
    using assms by (induction vs arbitrary: s) (simp_all add: apply_data_ok parsed_data_ok)
  then show ?thesis using Session_new_ok by blast
qed

lemma data_channel_safe_witness:
  "session_ok (apply_data (viewer_data_of_value
     (JObj [(''sp'', JObj [(''x'', JNum (PosInt 1)), (''y'', JNum (PosInt 2)), (''z'', JNum (PosInt 3))])]))
     (Session_new ''s'' ''a'' (Channel ''c'') True))"
  using data_channel_safe [of "[JObj [(''sp'', JObj [(''x'', JNum (PosInt 1)), (''y'', JNum (PosInt 2)), (''z'', JNum (PosInt 3))])]]"
      "''s''" "''a''" "Channel ''c''" True]
  by simp

lemma peer_gain_range: "session_ok s \<Longrightarrow> fbetween 0 4 (peer_gain s k)"
  by (cases "hm_get (s_gains s) k") (auto simp: peer_gain_def session_ok_def maps_ok_def)

lemma put_bounded_same:
  "hm_get (put_bounded k v m) j = (if j = k \<and> (hm_len m < MAX_PEER_ENTRIES \<or> hm_get m k \<noteq> None) then Some v else hm_get m j)"
  by (auto simp: put_bounded_def hm_simps)

lemma apply_data_maps:
  "s_gains (apply_data m s) = apply_gains (vd_user_gain m) (s_gains s)"
  "s_mutes (apply_data m s) = apply_mutes (vd_user_mute m) (s_mutes s)"
  by (simp_all add: apply_data_def Let_def filter_message_def apply_join_def split: option.split)

lemma put_bounded_fits:
  assumes "hm_ok m" "card (dom (hm_get m) \<union> fst ` set kvs) \<le> MAX_PEER_ENTRIES"
  shows "foldl (\<lambda>m (k, v). put_bounded k (f v) m) m kvs =
    foldl (\<lambda>m (k, v). hm_insert k v m) m (map (\<lambda>(k, v). (k, f v)) kvs)"
  using assms
proof (induction kvs arbitrary: m)
  case (Cons kv kvs)
  obtain k v where kv: "kv = (k, v)" by (cases kv)
  have "hm_len m < MAX_PEER_ENTRIES \<or> hm_get m k \<noteq> None"
  proof (cases "hm_get m k")
    case None
    then have "dom (hm_get m) \<subset> dom (hm_get m) \<union> fst ` set (kv # kvs)" by (auto simp: kv)
    then have "card (dom (hm_get m)) < card (dom (hm_get m) \<union> fst ` set (kv # kvs))"
      by (intro psubset_card_mono) (auto simp: hm.fin_dom)
    then show ?thesis using Cons.prems by (simp add: hm.len_card)
  qed simp
  then have p: "put_bounded k (f v) m = hm_insert k (f v) m" by (auto simp: put_bounded_def)
  have "dom (hm_get (hm_insert k (f v) m)) \<union> fst ` set kvs = dom (hm_get m) \<union> fst ` set (kv # kvs)"
    by (auto simp: hm.dom_put kv)
  then show ?case using Cons.prems by (simp add: kv p Cons.IH hm.ok_put)
qed simp

lemma put_bounded_last:
  fixes f :: "'b \<Rightarrow> 'c"
  assumes "card (fst ` set kvs) \<le> MAX_PEER_ENTRIES"
  shows "hm_get (foldl (\<lambda>m (k, v). put_bounded k (f v) m) hm_empty kvs) j = map_option f (map_of (rev kvs) j)"
proof -
  have "card (dom (hm_get (hm_empty :: (string, 'c) hmap)) \<union> fst ` set kvs) \<le> MAX_PEER_ENTRIES"
    using assms by (simp add: hm_empty_def hm_get_def [abs_def])
  from put_bounded_fits [OF hm.ok_empty this]
  show ?thesis by (simp add: hm.get_put_all rev_map map_of_map split_beta)
qed

lemma fold_apply_data_maps:
  "s_gains (fold apply_data ms s) = apply_gains (concat (map vd_user_gain ms)) (s_gains s)"
  "s_mutes (fold apply_data ms s) = apply_mutes (concat (map vd_user_mute ms)) (s_mutes s)"
  by (induction ms arbitrary: s) (simp_all add: apply_data_maps apply_gains_def apply_mutes_def)

lemma wire_gain_ratio: "\<exists>g. wire_gain raw = Fin g \<and> \<bar>g - min 4 (real_of_int (uint raw) / 220)\<bar> \<le> 1 / 10 ^ 6"
proof -
  define n where "n = uint raw"
  have n: "0 \<le> n" "n < 2 ^ 32" using uint_bounded [of raw] by (simp_all add: n_def)
  define v where "v = rnd_real F32 (of_int n)"
  define x where "x = rnd_real F32 (v / 220)"
  have v: "fp_of_int F32 n = Fin v" unfolding fp_of_int_def v_def using n by (intro rnd_Fin small_maxfin) simp
  have r: "repr F32 (2 ^ 32)" using repr_pow2 [of F32 32] pow2_nat [of 32] by (simp add: emin_def prec_def)
  have "\<bar>v\<bar> \<le> 2 ^ 32" unfolding v_def using r n by (intro rd.abs_le) simp_all
  then have "\<bar>v / 220\<bar> \<le> 2 ^ 127" by simp
  then have x: "fdiv F32 (fp_of_int F32 n) (Fin 220) = Fin x" using rnd_Fin [OF small_maxfin] by (simp add: v x_def)
  have g: "wire_gain raw = Fin (min 4 (max 0 x))"
    using x by (simp add: wire_gain_def n_def [symmetric] PEER_GAIN_CONVERSION_FACTOR_def MAX_PEER_GAIN_def fp_clamp_def)
  show ?thesis
  proof (cases "n \<le> 880")
    case True
    have "repr F32 (of_int n)" using True n repr_scaled [of n 0 F32] by simp
    then have v: "v = of_int n" by (simp add: v_def rnd_real_repr)
    have b: "0 \<le> v / 220" "v / 220 \<le> 4" using True n by (simp_all add: v)
    have "qexp F32 (v / 220) \<le> - 21"
    proof (cases "v = 0")
      case False
      have "\<bar>v / 220\<bar> < pow2 3" using b pow2_nat [of 3] by simp
      then have "bexp (v / 220) < 3" using False by (intro bexp_less) simp_all
      then show ?thesis by (simp add: qexp_def prec_def emin_def)
    qed (simp add: qexp_def bexp_def ilog.simps prec_def emin_def)
    then have "pow2 (qexp F32 (v / 220)) \<le> pow2 (- 21)" by (rule pow2_mono)
    also have "\<dots> = 1 / 2 ^ 21" using pow2_minus [of 21] pow2_nat [of 21] by simp
    finally have "\<bar>x - v / 220\<bar> \<le> 1 / 10 ^ 6" using rnd_real_error [of F32 "v / 220"] by (simp add: x_def)
    moreover have "\<bar>min 4 (max 0 x) - min 4 (v / 220)\<bar> \<le> \<bar>x - v / 220\<bar>" using b by (simp add: min_def max_def)
    ultimately show ?thesis using g by (auto simp only: v n_def [symmetric] fp.inject intro: order_trans)
  next
    case False
    have "880 \<le> v" using False rnd_real_mono [of 880 "of_int n" F32] repr_scaled [of 880 0 F32] by (simp add: v_def rnd_real_repr)
    then have "4 \<le> v / 220" by simp
    then have "4 \<le> x" using rnd_real_mono [of 4 "v / 220" F32] repr_scaled [of 4 0 F32] by (simp add: x_def rnd_real_repr)
    then show ?thesis using g False by (simp add: n_def [symmetric])
  qed
qed

text \<open>C22. Whom a listener hears how loud is its last word on the matter, and a mute beats a volume: after any
  sequence of data-channel messages from a fresh session that name at most 256 agents with a volume and at
  most 256 with a mute (each map's capacity), the gain the mixer reads for a speaker is 0 when the last mute
  flag sent for the speaker is set, whatever volumes came before or after; otherwise it is the last volume
  sent divided by 220, at most 4, within \<open>10^-6\<close>; and 1 for a speaker no volume was sent for.\<close>

theorem mute_wins:
  assumes "card (fst ` set (concat (map vd_user_gain ms))) \<le> MAX_PEER_ENTRIES"
    "card (fst ` set (concat (map vd_user_mute ms))) \<le> MAX_PEER_ENTRIES"
    "s = fold apply_data ms (Session_new i a r sp)"
  shows "if map_of (rev (concat (map vd_user_mute ms))) k = Some True then peer_gain s k = Fin 0
    else case map_of (rev (concat (map vd_user_gain ms))) k of None \<Rightarrow> peer_gain s k = Fin 1
      | Some raw \<Rightarrow> \<exists>g. peer_gain s k = Fin g \<and> \<bar>g - min 4 (real_of_int (uint raw) / 220)\<bar> \<le> 1 / 10 ^ 6"
proof -
  have "hm_get (s_gains s) k = map_option wire_gain (map_of (rev (concat (map vd_user_gain ms))) k)"
    using put_bounded_last [OF assms(1), of wire_gain k]
    by (simp add: assms(3) fold_apply_data_maps apply_gains_def Session_new_def hm_empty_def)
  moreover have "hm_get (s_mutes s) k = map_of (rev (concat (map vd_user_mute ms))) k"
    using put_bounded_last [OF assms(2), of "\<lambda>b. b" k]
    by (simp add: assms(3) fold_apply_data_maps apply_mutes_def Session_new_def hm_empty_def option.map_ident)
  ultimately show ?thesis
    using wire_gain_ratio by (auto simp: peer_gain_def unwrap_or_def split: option.split)
qed

lemma mute_wins_witness:
  "peer_gain (fold apply_data [viewer_data_default\<lparr>vd_user_gain := [(''bob'', 110)]\<rparr>,
      viewer_data_default\<lparr>vd_user_mute := [(''bob'', True)]\<rparr>, viewer_data_default\<lparr>vd_user_gain := [(''bob'', 880)]\<rparr>]
     (Session_new ''s'' ''a'' (Channel ''c'') True)) ''bob'' = Fin 0"
  using mute_wins [OF _ _ refl, of "[viewer_data_default\<lparr>vd_user_gain := [(''bob'', 110)]\<rparr>,
      viewer_data_default\<lparr>vd_user_mute := [(''bob'', True)]\<rparr>, viewer_data_default\<lparr>vd_user_gain := [(''bob'', 880)]\<rparr>]" "''bob''"]
  by (simp add: viewer_data_default_def MAX_PEER_ENTRIES_def)

section \<open>The registry\<close>

definition ids_of :: "registry \<Rightarrow> room_key \<Rightarrow> string list" where
  "ids_of reg r = unwrap_or (hm_get (by_room reg) r) []"

definition live :: "registry \<Rightarrow> arc \<Rightarrow> bool" where
  "live reg a \<longleftrightarrow> (\<exists>sid. hm_get (by_session reg) sid = Some a)"

text \<open>The two indices agree: every session is filed under its own id, the ids listed for a room are
  those of the live sessions of the room, each once, and no empty room is kept.\<close>

definition reg_ok :: "store \<Rightarrow> registry \<Rightarrow> bool" where
  "reg_ok st reg \<longleftrightarrow> hm_ok (by_session reg) \<and> hm_ok (by_room reg) \<and>
     (\<forall>sid a. hm_get (by_session reg) sid = Some a \<longrightarrow> s_id (st a) = sid) \<and>
     (\<forall>r. hm_get (by_room reg) r \<noteq> Some []) \<and> (\<forall>r. distinct (ids_of reg r)) \<and>
     (\<forall>r sid. sid \<in> set (ids_of reg r) \<longleftrightarrow> (\<exists>a. hm_get (by_session reg) sid = Some a \<and> s_room (st a) = r))"

lemma reg_ok_default: "reg_ok st registry_default"
  by (simp add: reg_ok_def registry_default_def ids_of_def hm_simps hm.ok_empty)

text \<open>What identifies a session never changes after its creation.\<close>

definition same_ids :: "store \<Rightarrow> store \<Rightarrow> bool" where
  "same_ids st st' \<longleftrightarrow> (\<forall>a. s_id (st' a) = s_id (st a) \<and> s_agent_id (st' a) = s_agent_id (st a) \<and>
     s_room (st' a) = s_room (st a) \<and> s_spatial (st' a) = s_spatial (st a))"

lemma same_ids_refl [simp]: "same_ids st st"
  by (simp add: same_ids_def)

lemma same_ids_trans: "same_ids st st1 \<Longrightarrow> same_ids st1 st2 \<Longrightarrow> same_ids st st2"
  by (simp add: same_ids_def)

lemma reg_ok_same_ids: "same_ids st st' \<Longrightarrow> reg_ok st' reg \<longleftrightarrow> reg_ok st reg"
  by (simp add: reg_ok_def same_ids_def)

lemma reg_okD:
  assumes "reg_ok st reg"
  shows "hm_ok (by_session reg)" "hm_ok (by_room reg)" "hm_get (by_session reg) sid = Some a \<Longrightarrow> s_id (st a) = sid"
    "hm_get (by_room reg) r \<noteq> Some []" "distinct (ids_of reg r)"
    "sid \<in> set (ids_of reg r) \<longleftrightarrow> (\<exists>a. hm_get (by_session reg) sid = Some a \<and> s_room (st a) = r)"
  using assms by (auto simp: reg_ok_def)

lemma members_ids: "reg_members reg r = List.map_filter (hm_get (by_session reg)) (ids_of reg r)"
  by (simp add: reg_members_def ids_of_def split: option.split)

lemma map_filter_cong: "(\<And>x. x \<in> set xs \<Longrightarrow> f x = g x) \<Longrightarrow> List.map_filter f xs = List.map_filter g xs"
  by (induction xs) (auto simp: List.map_filter_simps split: option.split)

lemma map_filter_append: "List.map_filter f (xs @ ys) = List.map_filter f xs @ List.map_filter f ys"
  by (induction xs) (auto simp: List.map_filter_simps split: option.split)

lemma set_map_filter: "set (List.map_filter f xs) = {y. \<exists>x \<in> set xs. f x = Some y}"
  by (induction xs) (auto simp: List.map_filter_simps split: option.split)

lemma members_set: "reg_ok st reg \<Longrightarrow> set (reg_members reg r) = {a. live reg a \<and> s_room (st a) = r}"
  by (auto simp: members_ids set_map_filter reg_okD(6) live_def dest: reg_okD(3))

lemma members_names:
  assumes "reg_ok st reg" shows "map (\<lambda>a. s_id (st a)) (reg_members reg r) = ids_of reg r"
proof -
  have "\<forall>sid \<in> set ids. \<exists>a. hm_get (by_session reg) sid = Some a \<Longrightarrow>
      map (\<lambda>a. s_id (st a)) (List.map_filter (hm_get (by_session reg)) ids) = ids" for ids
    by (induction ids) (auto simp: List.map_filter_simps reg_okD(3) [OF assms])
  moreover have "\<forall>sid \<in> set (ids_of reg r). \<exists>a. hm_get (by_session reg) sid = Some a"
    using reg_okD(6) [OF assms] by blast
  ultimately show ?thesis by (simp add: members_ids)
qed

lemma members_distinct: "reg_ok st reg \<Longrightarrow> distinct (reg_members reg r)"
  using members_names [of st reg r] reg_okD(5) [of st reg r] by (metis distinct_map)

lemma rooms_iff: "reg_ok st reg \<Longrightarrow> r \<in> set (reg_rooms reg) \<longleftrightarrow> reg_members reg r \<noteq> []"
proof -
  assume ok: "reg_ok st reg"
  have "r \<in> set (reg_rooms reg) \<longleftrightarrow> ids_of reg r \<noteq> []"
    using reg_okD(4) [OF ok, of r] by (cases "hm_get (by_room reg) r") (auto simp: reg_rooms_def hm_simps ids_of_def)
  also have "\<dots> \<longleftrightarrow> reg_members reg r \<noteq> []" using members_names [OF ok, of r] by auto
  finally show ?thesis .
qed

text \<open>Insertion.\<close>

lemma ids_of_insert:
  "ids_of (reg_insert st a reg) r = (if r = s_room (st a) then ids_of reg r @ [s_id (st a)] else ids_of reg r)"
  by (simp add: ids_of_def reg_insert_def insert_session_def insert_room_def Let_def hm_simps)

lemma by_session_insert:
  "hm_get (by_session (reg_insert st a reg)) sid = (if sid = s_id (st a) then Some a else hm_get (by_session reg) sid)"
  by (simp add: reg_insert_def insert_session_def insert_room_def Let_def hm_simps)

lemma reg_ok_insert:
  assumes "reg_ok st reg" "hm_get (by_session reg) (s_id (st a)) = None"
  shows "reg_ok st (reg_insert st a reg)"
proof -
  note ok = reg_okD [OF assms(1)]
  have "hm_get (by_room (reg_insert st a reg)) r \<noteq> Some []" for r
    using ok(4) [of r] by (simp add: reg_insert_def insert_session_def insert_room_def Let_def hm_simps)
  moreover have "s_id (st a) \<notin> set (ids_of reg r)" for r using ok(6) [of "s_id (st a)" r] assms(2) by simp
  moreover have "hm_ok (by_session (reg_insert st a reg)) \<and> hm_ok (by_room (reg_insert st a reg))"
    using ok(1,2) by (auto simp: reg_insert_def insert_session_def insert_room_def Let_def)
  ultimately show ?thesis
    using ok(3,5,6) assms(2) by (auto simp: reg_ok_def ids_of_insert by_session_insert)
qed

lemma members_insert:
  assumes "reg_ok st reg" "hm_get (by_session reg) (s_id (st a)) = None"
  shows "reg_members (reg_insert st a reg) r =
    (if r = s_room (st a) then reg_members reg r @ [a] else reg_members reg r)"
proof -
  have "s_id (st a) \<notin> set (ids_of reg r)" using reg_okD(6) [OF assms(1), of "s_id (st a)" r] assms(2) by simp
  then have "List.map_filter (hm_get (by_session (reg_insert st a reg))) (ids_of reg r) = reg_members reg r"
    unfolding members_ids by (intro map_filter_cong) (auto simp: by_session_insert)
  then show ?thesis
    by (auto simp: members_ids ids_of_insert map_filter_append List.map_filter_simps by_session_insert)
qed

text \<open>Removal.\<close>

lemma forget_all_apply:
  "forget_all agent arcs st a = (if a \<in> set arcs then forget_announced agent (st a) else st a)"
  by (induction arcs arbitrary: st) (auto simp: forget_all_def forget_announced_def)

lemma reg_remove_Some:
  assumes "hm_get (by_session reg) sid = Some a"
  shows "reg_remove sid (st, reg) =
    (((forget_all (s_agent_id (st a)) (hm_values (hm_remove sid (by_session reg))) st)
        (a := (forget_all (s_agent_id (st a)) (hm_values (hm_remove sid (by_session reg))) st a)\<lparr>s_closed := True\<rparr>),
      remove_room (s_room (st a)) sid (reg\<lparr>by_session := hm_remove sid (by_session reg)\<rparr>)), Some a)"
  using assms by (simp add: reg_remove_def Let_def remove_room_def split: option.split)

lemma ids_of_remove:
  "ids_of (remove_room room sid reg) r = (if r = room then filter (\<lambda>m. m \<noteq> sid) (ids_of reg r) else ids_of reg r)"
  by (auto simp: ids_of_def remove_room_def Let_def hm_simps split: option.split)

lemma by_session_remove_room [simp]: "by_session (remove_room room sid reg) = by_session reg"
  by (simp add: remove_room_def Let_def split: option.split)

lemma reg_remove_ok:
  assumes "reg_ok st reg" "reg_remove sid (st, reg) = ((st', reg'), Some a)"
  shows "hm_get (by_session reg) sid = Some a" "same_ids st st'" "reg_ok st' reg'"
    "reg_members reg' r = filter (\<lambda>b. b \<noteq> a) (reg_members reg r)"
    "s_closed (st' a)" "\<And>b. live reg' b \<Longrightarrow> s_agent_id (st a) \<notin> s_announced (st' b)"
    "live reg' b \<longleftrightarrow> live reg b \<and> b \<noteq> a" "session_count reg = Suc (session_count reg')"
    "hm_get (by_session reg') k = (if k = sid then None else hm_get (by_session reg) k)"
proof -
  note ok = reg_okD [OF assms(1)]
  show g: "hm_get (by_session reg) sid = Some a"
    using assms(2) by (auto simp: reg_remove_def Let_def split: option.splits)
  have aid: "s_id (st a) = sid" using ok(3) [OF g] .
  let ?f = "forget_all (s_agent_id (st a)) (hm_values (hm_remove sid (by_session reg))) st"
  have st': "st' = ?f(a := (?f a)\<lparr>s_closed := True\<rparr>)"
    and reg': "reg' = remove_room (s_room (st a)) sid (reg\<lparr>by_session := hm_remove sid (by_session reg)\<rparr>)"
    using assms(2) reg_remove_Some [OF g, of st] by auto
  show same: "same_ids st st'" by (auto simp: same_ids_def st' forget_all_apply forget_announced_def)
  show s': "hm_get (by_session reg') k = (if k = sid then None else hm_get (by_session reg) k)" for k
    by (simp add: reg' hm_simps)
  have iu: "ids_of (reg\<lparr>by_session := x\<rparr>) r = ids_of reg r" for x r by (simp add: ids_of_def)
  have i': "ids_of reg' r = filter (\<lambda>m. m \<noteq> sid) (ids_of reg r)" for r
  proof (cases "r = s_room (st a)")
    case False
    then have "sid \<notin> set (ids_of reg r)" using ok(6) [of sid r] g by auto
    then have "filter (\<lambda>m. m \<noteq> sid) (ids_of reg r) = ids_of reg r" by (auto simp: filter_id_conv)
    then show ?thesis using False by (simp add: reg' ids_of_remove iu)
  qed (simp add: reg' ids_of_remove iu)
  have ne: "hm_get (by_room reg') r \<noteq> Some []" for r
    using ok(4) [of r] by (auto simp: reg' remove_room_def Let_def hm_simps split: option.split)
  have hok: "hm_ok (by_session reg') \<and> hm_ok (by_room reg')"
    using ok(1,2) by (auto simp: reg' remove_room_def Let_def split: option.split)
  have "reg_ok st reg'"
    unfolding reg_ok_def i' s' using hok ne ok(3,5,6) g by auto
  then show "reg_ok st' reg'" using reg_ok_same_ids [OF same] by simp
  show "live reg' b \<longleftrightarrow> live reg b \<and> b \<noteq> a" for b
    using g aid by (auto simp: live_def s' dest: ok(3)) (metis option.inject)
  then have lv: "live reg' b \<Longrightarrow> b \<in> set (hm_values (hm_remove sid (by_session reg))) \<and> b \<noteq> a" for b
    using ok(1) s' by (auto simp: hm_values_iff hm.ok_del live_def reg')
  then show "live reg' b \<Longrightarrow> s_agent_id (st a) \<notin> s_announced (st' b)" for b
    by (auto simp: st' forget_all_apply forget_announced_def)
  show "s_closed (st' a)" by (simp add: st')
  have "0 < hm_len (by_session reg)" using hm.len_pos [OF ok(1) g] .
  then show "session_count reg = Suc (session_count reg')"
    using hm.len_del [OF ok(1), of sid] g by (simp add: session_count_def reg')
  have "List.map_filter (hm_get (by_session reg')) (filter (\<lambda>m. m \<noteq> sid) ids) =
      filter (\<lambda>b. b \<noteq> a) (List.map_filter (hm_get (by_session reg)) ids)" for ids
    by (induction ids) (auto simp: List.map_filter_simps s' g aid split: option.split dest: ok(3))
  then show "reg_members reg' r = filter (\<lambda>b. b \<noteq> a) (reg_members reg r)"
    by (simp add: members_ids i')
qed


text \<open>Registering a session: with a fresh session id the two indices stay consistent, the session
  is appended to the members of its own room and to no other room, the count grows by one, and the
  rooms listed are exactly those with a member.\<close>

theorem registry_insert:
  assumes "reg_ok st reg" "hm_get (by_session reg) (s_id (st a)) = None"
  shows "reg_ok st (reg_insert st a reg) \<and>
    (\<forall>r. reg_members (reg_insert st a reg) r = (if r = s_room (st a) then reg_members reg r @ [a] else reg_members reg r)) \<and>
    session_count (reg_insert st a reg) = Suc (session_count reg) \<and>
    (\<forall>r. r \<in> set (reg_rooms (reg_insert st a reg)) \<longleftrightarrow> reg_members (reg_insert st a reg) r \<noteq> [])"
proof -
  have "session_count (reg_insert st a reg) = Suc (session_count reg)"
    using hm.len_put [OF reg_okD(1) [OF assms(1)], of "s_id (st a)" a] assms(2)
    by (simp add: session_count_def reg_insert_def insert_session_def insert_room_def Let_def)
  then show ?thesis
    using reg_ok_insert [OF assms] members_insert [OF assms] rooms_iff by blast
qed

lemma registry_insert_witness:
  "reg_members (reg_insert (\<lambda>_. Session_new ''s'' ''a'' (Channel ''c'') True) 7 registry_default) (Channel ''c'') = [7]"
  using registry_insert [OF reg_ok_default, of "\<lambda>_. Session_new ''s'' ''a'' (Channel ''c'') True" 7]
  by (auto simp: registry_default_def hm_simps Session_new_def reg_members_def)

text \<open>Unregistering a session: an unknown id changes nothing; otherwise the indices stay
  consistent, exactly that session leaves its room (and the room disappears with its last member), it
  is marked closed, and every session still registered forgets that the agent was announced, so that
  a return is announced again.\<close>

theorem registry_remove:
  assumes "reg_ok st reg"
  shows "case reg_remove sid (st, reg) of
     ((st', reg'), None) \<Rightarrow> st' = st \<and> reg' = reg \<and> hm_get (by_session reg) sid = None
   | ((st', reg'), Some a) \<Rightarrow> hm_get (by_session reg) sid = Some a \<and> reg_ok st' reg' \<and>
       (\<forall>r. reg_members reg' r = filter (\<lambda>b. b \<noteq> a) (reg_members reg r)) \<and>
       (\<forall>r. r \<in> set (reg_rooms reg') \<longleftrightarrow> reg_members reg' r \<noteq> []) \<and>
       s_closed (st' a) \<and> (\<forall>b. live reg' b \<longrightarrow> s_agent_id (st a) \<notin> s_announced (st' b)) \<and>
       session_count reg = Suc (session_count reg')"
proof -
  obtain st' reg' x where r: "reg_remove sid (st, reg) = ((st', reg'), x)" by (metis surj_pair)
  show ?thesis
  proof (cases x)
    case None
    then show ?thesis using r by (auto simp: reg_remove_def Let_def split: option.splits)
  next
    case (Some a)
    note o = reg_remove_ok [OF assms r [unfolded Some]]
    from o(1,3,4,5,6,8) rooms_iff [OF o(3)] show ?thesis by (simp add: r Some)
  qed
qed

lemma registry_remove_witness:
  "reg_members (snd (fst (reg_remove ''s'' (\<lambda>_. Session_new ''s'' ''a'' (Channel ''c'') True,
     reg_insert (\<lambda>_. Session_new ''s'' ''a'' (Channel ''c'') True) 7 registry_default)))) (Channel ''c'') = []"
proof -
  let ?st = "\<lambda>_. Session_new ''s'' ''a'' (Channel ''c'') True" and ?r = "reg_insert (\<lambda>_. Session_new ''s'' ''a'' (Channel ''c'') True) 7 registry_default"
  have f: "hm_get (by_session registry_default) (s_id (?st 7)) = None" by (simp add: registry_default_def hm_simps)
  have ok: "reg_ok ?st ?r" using reg_ok_default f by (rule reg_ok_insert)
  have m: "reg_members ?r (Channel ''c'') = [7]"
    using members_insert [OF reg_ok_default f, where a = 7 and r = "Channel ''c''"] by (simp add: Session_new_def registry_default_def reg_members_def hm_simps)
  have g: "hm_get (by_session ?r) ''s'' = Some 7" using by_session_insert [of ?st 7] by (simp add: Session_new_def)
  show ?thesis using registry_remove [OF ok, of "''s''"] m by (auto simp: reg_remove_Some [OF g])
qed

section \<open>Who is heard\<close>

lemma repr_rnd_real: "repr f (rnd_real f x)"
proof (cases "x = 0")
  case False
  define q where "q = qexp f x"
  define n where "n = rne (x / pow2 q)"
  have r: "rnd_real f x = of_int n * pow2 q" using False by (simp add: rnd_real_def q_def n_def)
  have "bexp x + 1 \<le> q + prec f" by (simp add: q_def qexp_def)
  then have "pow2 (bexp x + 1) \<le> pow2 (q + prec f)" by (rule pow2_mono)
  then have "\<bar>x\<bar> \<le> pow2 (prec f) * pow2 q" using bexp_bounds(2) [OF False] by (simp add: pow2_add mult.commute)
  moreover have e: "pow2 (prec f) = of_int (2 ^ nat (prec f))" using pow2_nat [of "nat (prec f)"] prec_pos [of f] by simp
  ultimately have b: "\<bar>x / pow2 q\<bar> \<le> of_int (2 ^ nat (prec f))" by (simp add: abs_divide divide_le_eq)
  then have "x / pow2 q \<le> of_int (2 ^ nat (prec f))" "of_int (- (2 ^ nat (prec f))) \<le> x / pow2 q"
    unfolding abs_le_iff by simp_all
  then have "n \<le> 2 ^ nat (prec f)" "- (2 ^ nat (prec f)) \<le> n"
    using rne_le [of "x / pow2 q" "2 ^ nat (prec f)"] rne_ge [of "- (2 ^ nat (prec f))" "x / pow2 q"]
    unfolding n_def of_int_le_iff by blast+
  then have nb: "\<bar>n\<bar> \<le> 2 ^ nat (prec f)" by simp
  have qe: "emin f - (prec f - 1) \<le> q" unfolding q_def by (rule qexp_ge)
  show ?thesis
  proof (cases "\<bar>n\<bar> < 2 ^ nat (prec f)")
    case True
    then show ?thesis unfolding repr_def r using qe by blast
  next
    case False
    then have "\<bar>n\<bar> = 2 ^ nat (prec f)" using nb by simp
    then have "n = sgn n * 2 ^ nat (prec f)" by (metis mult_sgn_abs mult.commute)
    then have "rnd_real f x = of_int (sgn n) * pow2 (prec f + q)"
      unfolding r using e by (metis of_int_mult pow2_add mult.assoc)
    moreover have "\<bar>sgn n\<bar> < 2 ^ nat (prec f)"
      using prec_pos [of f] one_less_power [of "2::int" "nat (prec f)"] by (auto simp: abs_sgn_eq)
    moreover have "emin f - (prec f - 1) \<le> prec f + q" using qe prec_pos [of f] by simp
    ultimately show ?thesis unfolding repr_def by blast
  qed
qed simp

lemma v3_norm_Fin:
  "v3_norm v = Fin d \<Longrightarrow> repr F64 d"
proof -
  have "fsqrt F64 a = Fin d \<Longrightarrow> repr F64 d" for a
    by (cases a) (auto split: if_splits dest!: rnd_Fin_D simp: repr_rnd_real)
  then show "v3_norm v = Fin d \<Longrightarrow> repr F64 d" by (cases v) (auto simp: v3_norm_def)
qed

definition hears :: "session \<Rightarrow> session \<Rightarrow> bool" where
  "hears l s \<longleftrightarrow> s_id s \<noteq> s_id l \<and> fp_lt (Fin 0) (peer_gain l (s_agent_id s)) \<and>
     (s_spatial l \<longrightarrow> known (s_state s) \<and> known (s_state l) \<and>
        fp_lt (v3_norm (v3_sub (avatar_pos (s_state s)) (listener_pos (s_state l)))) (Fin 60))"

lemma norm_not_NaN:
  assumes "session_ok l" "session_ok s"
  shows "v3_norm (v3_sub (avatar_pos (s_state s)) (listener_pos (s_state l))) \<noteq> FNaN"
proof -
  obtain l0 l1 l2 where l: "listener_pos (s_state l) = (Fin l0, Fin l1, Fin l2)" "\<bar>l0\<bar> \<le> 2 * coord_bound"
    "\<bar>l1\<bar> \<le> 2 * coord_bound" "\<bar>l2\<bar> \<le> 2 * coord_bound"
    using assms(1) by (cases "listener_pos (s_state l)") (auto simp: ear_ok_iff session_ok_def state_ok_def)
  obtain a0 a1 a2 where a: "avatar_pos (s_state s) = (Fin a0, Fin a1, Fin a2)" "\<bar>a0\<bar> \<le> coord_bound"
    "\<bar>a1\<bar> \<le> coord_bound" "\<bar>a2\<bar> \<le> coord_bound"
    using assms(2) by (cases "avatar_pos (s_state s)") (auto simp: vec3_ok_iff session_ok_def state_ok_def)
  have d: "\<exists>r. fsub F64 (Fin p) (Fin q) = Fin r" if "\<bar>p\<bar> \<le> coord_bound" "\<bar>q\<bar> \<le> 2 * coord_bound" for p q
  proof -
    have "\<bar>p - q\<bar> \<le> 4 * coord_bound" using that by linarith
    then have "\<bar>p - q\<bar> \<le> maxfin F64" using coord_multiples(4) by linarith
    then show ?thesis by (simp add: fsub_def rnd_Fin)
  qed
  obtain x y z where "v3_sub (avatar_pos (s_state s)) (listener_pos (s_state l)) = (Fin x, Fin y, Fin z)"
    using d [OF a(2) l(2)] d [OF a(3) l(3)] d [OF a(4) l(4)] by (auto simp: v3_sub_def a(1) l(1))
  then show ?thesis using v3_norm_cases [of x y z] by auto
qed

lemma gain_pos_iff:
  assumes "d \<noteq> FNaN" "\<And>x. d = Fin x \<Longrightarrow> repr F64 x"
  shows "fp_le (distance_gain d) (Fin 0) \<longleftrightarrow> \<not> fp_lt d (Fin 60)"
proof (cases d)
  case (Fin x)
  have r: "fbetween 0 1 (distance_gain d)" using distance_gain_range [OF assms(1)] .
  then have "fp_le (distance_gain d) (Fin 0) \<longleftrightarrow> distance_gain d = Fin 0" by (auto elim!: fbetweenE)
  also have "\<dots> \<longleftrightarrow> 60 \<le> x" using gain_zero_iff assms(2) Fin by blast
  finally show ?thesis using Fin by auto
next
  case (FInf s)
  then show ?thesis by (cases s) (auto simp: distance_gain_def REF_DISTANCE_def MAX_DISTANCE_def fp_lt_def)
qed (use assms in simp)

lemma contribution_iff:
  assumes "session_ok l" "session_ok s"
  shows "contribution_of L l s (Some f) \<noteq> None \<longleftrightarrow> hears l s" "contribution_of L l s None = None"
proof -
  obtain g where g: "peer_gain l (s_agent_id s) = Fin g" using peer_gain_range [OF assms(1), of "s_agent_id s"] by (elim fbetweenE)
  note d = gain_pos_iff [OF norm_not_NaN [OF assms] v3_norm_Fin]
  show "contribution_of L l s (Some f) \<noteq> None \<longleftrightarrow> hears l s"
    by (auto simp: contribution_of_def hears_def Let_def d g not_le)
qed (simp add: contribution_of_def)

lemma FRAC_1_SQRT_2_range: "fbetween 0 1 FRAC_1_SQRT_2"
  unfolding FRAC_1_SQRT_2_def by (intro rnd_between) (simp_all add: one_le_maxfin)

lemma fmul_unit: "fbetween 0 4 g \<Longrightarrow> fbetween 0 1 d \<Longrightarrow> fbetween 0 4 (fmul F32 g d)"
  using fmul_between_nonneg [of 4 g 1 d F32] by simp

lemma contribution_sane:
  assumes "libm_ok L" "session_ok l" "session_ok s" "mag4 200 (listener_rot (s_state l))"
    "\<forall>x \<in> set f. fbetween (- (2 ^ 40)) (2 ^ 40) x" "contribution_of L l s (Some f) = Some c"
  shows "sane c \<and> c_frame c = f"
proof -
  note g = peer_gain_range [OF assms(2), of "s_agent_id s"]
  let ?d = "v3_norm (v3_sub (avatar_pos (s_state s)) (listener_pos (s_state l)))"
  have h: "hears l s" using contribution_iff(1) [OF assms(2,3), of L f] assms(6) by simp
  show ?thesis
  proof (cases "s_spatial l")
    case True
    then have lt: "fp_lt ?d (Fin 60)" using h by (simp add: hears_def)
    have ok: "ear_ok (listener_pos (s_state l))" "vec3_ok (avatar_pos (s_state s))"
      using assms(2,3) by (simp_all add: session_ok_def state_ok_def)
    obtain wl wr where w: "pan_weights L (avatar_pos (s_state s)) (listener_pos (s_state l)) (listener_rot (s_state l)) = (Fin wl, Fin wr)"
      "\<bar>wl\<^sup>2 + wr\<^sup>2 - 1\<bar> \<le> 3 / 10 ^ 6"
      using pan_power [OF assms(1) ok assms(4) lt [folded MAX_DISTANCE_def]] by blast
    have b: "\<bar>v\<bar> \<le> 2" if "v\<^sup>2 \<le> 4" for v :: real using that abs_le_square_iff [of v 2] by simp
    have "\<bar>wl\<^sup>2 + wr\<^sup>2 - 1\<bar> \<le> 1" using w(2) by (rule order_trans) simp
    then have "wl\<^sup>2 + wr\<^sup>2 \<le> 4" by linarith
    then have "wl\<^sup>2 \<le> 4" "wr\<^sup>2 \<le> 4" using zero_le_power2 [of wl] zero_le_power2 [of wr] by linarith+
    then have wb: "\<bar>wl\<bar> \<le> 2" "\<bar>wr\<bar> \<le> 2" by (simp_all add: b)
    have "?d \<noteq> FNaN" by (rule norm_not_NaN [OF assms(2,3)])
    then have dg: "fbetween 0 1 (distance_gain ?d)" by (rule distance_gain_range)
    show ?thesis
      using assms(5,6) True w(1) wb fmul_unit [OF g dg]
      by (auto simp: contribution_of_def Let_def sane_def abs_le_iff split: if_splits)
  next
    case False
    then show ?thesis using assms(5,6) g fbetween_mono [OF FRAC_1_SQRT_2_range, of "- 2" 2]
      by (auto simp: contribution_of_def Let_def sane_def split: if_splits)
  qed
qed


text \<open>C16. Who is heard: for sessions as the data channel leaves them, a speaker with a frame this
  tick contributes to a listener's mix exactly when it is another session, the listener has not muted
  it or turned it down to 0, and, for a spatial listener, both have reported a position and the
  computed distance is below 60 m. Nobody hears themselves, and a speaker without a frame is not mixed.\<close>

theorem who_is_heard:
  assumes "session_ok l" "session_ok s"
  shows "(contribution_of L l s frame \<noteq> None) \<longleftrightarrow>
    frame \<noteq> None \<and> s_id s \<noteq> s_id l \<and>
    unwrap_or (hm_get (s_mutes l) (s_agent_id s)) False = False \<and>
    unwrap_or (hm_get (s_gains l) (s_agent_id s)) (Fin 1) \<noteq> Fin 0 \<and>
    (s_spatial l \<longrightarrow> known (s_state s) \<and> known (s_state l) \<and>
       fp_lt (v3_norm (v3_sub (avatar_pos (s_state s)) (listener_pos (s_state l)))) (Fin 60))"
proof -
  have g: "fbetween 0 4 (unwrap_or (hm_get (s_gains l) (s_agent_id s)) (Fin 1))"
    using assms(1) by (cases "hm_get (s_gains l) (s_agent_id s)") (auto simp: session_ok_def maps_ok_def)
  then have "fp_lt (Fin 0) (peer_gain l (s_agent_id s)) \<longleftrightarrow>
      unwrap_or (hm_get (s_mutes l) (s_agent_id s)) False = False \<and>
      unwrap_or (hm_get (s_gains l) (s_agent_id s)) (Fin 1) \<noteq> Fin 0"
    by (auto simp: peer_gain_def elim!: fbetweenE)
  then show ?thesis
    using contribution_iff [OF assms, of L] by (cases frame) (auto simp: hears_def)
qed

lemma who_is_heard_witness:
  "contribution_of exact_libm (Session_new ''s'' ''a'' (Channel ''c'') False)
     (Session_new ''t'' ''b'' (Channel ''c'') False) (Some []) \<noteq> None"
  using who_is_heard [OF Session_new_ok Session_new_ok, of exact_libm "''s''" "''a''" "Channel ''c''" False "''t''" "''b''" "Channel ''c''" False "Some []"]
  by (simp add: Session_new_def hm_simps)

section \<open>One tick\<close>

text \<open>A tick changes no identity, no position and no preference, so what one listener hears does not
  depend on the listeners served before it.\<close>

definition same_view :: "store \<Rightarrow> store \<Rightarrow> bool" where
  "same_view st st' \<longleftrightarrow> same_ids st st' \<and> (\<forall>a. s_state (st' a) = s_state (st a) \<and> s_gains (st' a) = s_gains (st a) \<and>
     s_mutes (st' a) = s_mutes (st a) \<and> s_closed (st' a) = s_closed (st a))"

lemma same_view_refl [simp]: "same_view st st"
  by (simp add: same_view_def)

lemma same_view_trans: "same_view st st1 \<Longrightarrow> same_view st1 st2 \<Longrightarrow> same_view st st2"
  by (simp add: same_view_def same_ids_def)

lemma same_view_session_ok: "same_view st st' \<Longrightarrow> session_ok (st' a) \<longleftrightarrow> session_ok (st a)"
  by (simp add: same_view_def session_ok_def)

lemma same_view_contributions: "same_view st st' \<Longrightarrow> contributions_for L st' l frames = contributions_for L st l frames"
  unfolding contributions_for_def
  by (intro map_filter_cong) (auto simp: same_view_def same_ids_def contribution_of_def peer_gain_def Let_def split: option.split)

definition after_pull :: "logctl \<Rightarrow> session \<Rightarrow> session" where
  "after_pull c s = (case take_frame s of (s', f) \<Rightarrow> fst (update_level c f True s'))"

definition pulled :: "store \<Rightarrow> arc list \<Rightarrow> (arc \<times> fp list option) list" where
  "pulled st members = map (\<lambda>m. (m, snd (take_frame (st m)))) members"

lemma after_pull_simps [simp]:
  "s_id (after_pull c s) = s_id s" "s_agent_id (after_pull c s) = s_agent_id s" "s_room (after_pull c s) = s_room s"
  "s_spatial (after_pull c s) = s_spatial s" "s_state (after_pull c s) = s_state s" "s_gains (after_pull c s) = s_gains s"
  "s_mutes (after_pull c s) = s_mutes s" "s_closed (after_pull c s) = s_closed s" "s_announced (after_pull c s) = s_announced s"
  "s_primary (after_pull c s) = s_primary s"
  "s_inbound (after_pull c s) = tl (s_inbound s)"
  "s_level (after_pull c s) = (case s_inbound s of [] \<Rightarrow> 0 | f # _ \<Rightarrow> level_to_wire f)"
  by (simp_all add: after_pull_def take_frame_def update_level_def Let_def split: list.split)

lemma pull_frames_spec:
  "distinct members \<Longrightarrow> \<exists>logs. pull_frames c members st =
     ((\<lambda>a. if a \<in> set members then after_pull c (st a) else st a), pulled st members, logs)"
proof (induction members arbitrary: st)
  case Nil
  then show ?case by (simp add: pulled_def)
next
  case (Cons m members)
  obtain s f where t: "take_frame (st m) = (s, f)" by fastforce
  obtain s' level line where u: "update_level c f True s = (s', level, line)" by (metis surj_pair)
  have a: "after_pull c (st m) = s'" by (simp add: after_pull_def t u)
  from Cons obtain logs where p: "pull_frames c members (st(m := s')) =
     ((\<lambda>a. if a \<in> set members then after_pull c ((st(m := s')) a) else (st(m := s')) a), pulled (st(m := s')) members, logs)"
    by fastforce
  have "pulled (st(m := s')) members = pulled st members" using Cons.prems by (auto simp: pulled_def)
  then show ?case using Cons.prems by (auto simp: t u p a pulled_def fun_eq_iff)
qed

lemma roster_entries_view: "roster_entries l frames st = (st', es) \<Longrightarrow>
    same_view st st' \<and> (\<forall>a. s_inbound (st' a) = s_inbound (st a) \<and> s_level (st' a) = s_level (st a) \<and>
      s_primary (st' a) = s_primary (st a) \<and> (a \<noteq> l \<longrightarrow> s_announced (st' a) = s_announced (st a))) \<and>
    s_announced (st' l) = s_announced (st l) \<union> (\<lambda>x. s_agent_id (st (fst x))) ` set frames"
proof (induction frames arbitrary: st es)
  case (Cons af frames)
  obtain a f where af: "af = (a, f)" by fastforce
  let ?st1 = "st(l := (st l)\<lparr>s_announced := insert (s_agent_id (st a)) (s_announced (st l))\<rparr>)"
  have v: "same_view st ?st1" by (simp add: same_view_def same_ids_def)
  obtain es1 where r: "roster_entries l frames ?st1 = (st', es1)"
    using Cons.prems by (auto simp: af mark_announced_def Let_def split: prod.splits)
  have f: "s_agent_id (?st1 x) = s_agent_id (st x)" "s_inbound (?st1 x) = s_inbound (st x)"
    "s_level (?st1 x) = s_level (st x)" "s_primary (?st1 x) = s_primary (st x)"
    "x \<noteq> l \<Longrightarrow> s_announced (?st1 x) = s_announced (st x)"
    "s_announced (?st1 l) = insert (s_agent_id (st a)) (s_announced (st l))" for x by simp_all
  have "same_view ?st1 st' \<and> (\<forall>x. s_inbound (st' x) = s_inbound (st x) \<and> s_level (st' x) = s_level (st x) \<and>
      s_primary (st' x) = s_primary (st x) \<and> (x \<noteq> l \<longrightarrow> s_announced (st' x) = s_announced (st x))) \<and>
    s_announced (st' l) = insert (s_agent_id (st a)) (s_announced (st l)) \<union> (\<lambda>x. s_agent_id (st (fst x))) ` set frames"
    using Cons.IH [OF r] by (simp add: f del: fun_upd_apply)
  then show ?case using same_view_trans [OF v] by (simp add: af del: fun_upd_apply)
qed simp


text \<open>The roster as a function of the agents already announced and of what the tick reads of each
  speaker: agent, level, primary flag.\<close>

fun entries_spec :: "string set \<Rightarrow> (string \<times> u8 \<times> bool) list \<Rightarrow> (string \<times> roster_entry) list" where
  "entries_spec told [] = []"
| "entries_spec told ((agent, level, primary) # ss) =
     (if agent \<in> told \<and> level = 0 then entries_spec (insert agent told) ss
      else (agent, \<lparr>re_joined = agent \<notin> told, re_primary = primary, re_power = level,
                    re_speaking = speaking_of level, re_moderator_muted = False\<rparr>) # entries_spec (insert agent told) ss)"

definition seen :: "session \<Rightarrow> string \<times> u8 \<times> bool" where
  "seen s = (s_agent_id s, s_level s, s_primary s)"

lemma roster_entries_spec:
  "snd (roster_entries l frames st) = entries_spec (s_announced (st l)) (map (\<lambda>x. seen (st (fst x))) frames)"
proof (induction frames arbitrary: st)
  case (Cons af frames)
  obtain a f where af: "af = (a, f)" by fastforce
  let ?st1 = "st(l := (st l)\<lparr>s_announced := insert (s_agent_id (st a)) (s_announced (st l))\<rparr>)"
  have s: "seen (?st1 x) = seen (st x)" for x by (simp add: seen_def)
  have i: "snd (roster_entries l frames ?st1) =
      entries_spec (insert (s_agent_id (st a)) (s_announced (st l))) (map (\<lambda>x. seen (st (fst x))) frames)"
    using Cons.IH [of ?st1] by (simp add: s del: fun_upd_apply) simp
  have p: "s_primary (?st1 a) = s_primary (st a)" by simp
  show ?case
    using i p by (auto simp: af mark_announced_def Let_def seen_def split_beta simp del: fun_upd_apply)
qed simp

definition roster_text :: "(json \<Rightarrow> string) \<Rightarrow> string set \<Rightarrow> (string \<times> u8 \<times> bool) list \<Rightarrow> string option" where
  "roster_text ser told ss =
     (if entries_spec told ss = [] then None else Some (roster_json ser (entries_spec told ss)))"

lemma build_roster_spec:
  "snd (build_roster ser l frames st) = roster_text ser (s_announced (st l)) (map (\<lambda>x. seen (st (fst x))) frames)"
  using roster_entries_spec [of l frames st] by (simp add: build_roster_def roster_text_def split_beta)

definition stereo_of :: "libm \<Rightarrow> store \<Rightarrow> arc \<Rightarrow> (arc \<times> fp list option) list \<Rightarrow> fp list option" where
  "stereo_of L st l frames = mix_stereo L (contributions_for L st l frames) (replicate (FRAME_SAMPLES * 2) (Fin 0))"

lemma stereo_of_Some: "\<exists>r. stereo_of L st l frames = Some r \<and> length r = 2 * FRAME_SAMPLES"
  unfolding stereo_of_def using mix_out [of "replicate (FRAME_SAMPLES * 2) (Fin 0)"] by fastforce

definition told_of :: "store \<Rightarrow> (arc \<times> fp list option) list \<Rightarrow> string set" where
  "told_of st frames = (\<lambda>x. s_agent_id (st (fst x))) ` set frames"

lemma mix_listeners_spec:
  assumes "distinct ls"
  shows "\<exists>st' outs. mix_listeners L ser frames ls st = Some (st', outs) \<and> same_view st st' \<and>
    (\<forall>a. s_inbound (st' a) = s_inbound (st a) \<and> s_level (st' a) = s_level (st a) \<and> s_primary (st' a) = s_primary (st a) \<and>
       s_announced (st' a) = s_announced (st a) \<union> (if a \<in> set ls then told_of st frames else {})) \<and>
    map o_session outs = ls \<and>
    (\<forall>out \<in> set outs. stereo_of L st (o_session out) frames = Some (o_stereo out) \<and>
       o_roster out = roster_text ser (s_announced (st (o_session out))) (map (\<lambda>x. seen (st (fst x))) frames))"
  using assms
proof (induction ls arbitrary: st)
  case (Cons l ls)
  obtain stereo where m: "stereo_of L st l frames = Some stereo" using stereo_of_Some by blast
  obtain st1 es where re: "roster_entries l frames st = (st1, es)" by fastforce
  note v = roster_entries_view [OF re]
  obtain roster where b: "build_roster ser l frames st = (st1, roster)" by (simp add: build_roster_def re)
  have ro: "roster = roster_text ser (s_announced (st l)) (map (\<lambda>x. seen (st (fst x))) frames)"
    using build_roster_spec [of ser l frames st] b by simp
  obtain st2 outs where IH: "mix_listeners L ser frames ls st1 = Some (st2, outs)" "same_view st1 st2"
    "\<forall>a. s_inbound (st2 a) = s_inbound (st1 a) \<and> s_level (st2 a) = s_level (st1 a) \<and> s_primary (st2 a) = s_primary (st1 a) \<and>
       s_announced (st2 a) = s_announced (st1 a) \<union> (if a \<in> set ls then told_of st1 frames else {})"
    "map o_session outs = ls"
    "\<forall>out \<in> set outs. stereo_of L st1 (o_session out) frames = Some (o_stereo out) \<and>
       o_roster out = roster_text ser (s_announced (st1 (o_session out))) (map (\<lambda>x. seen (st1 (fst x))) frames)"
    using Cons.IH [of st1] Cons.prems by auto
  have sv: "same_view st st1" using v by blast
  have v': "s_announced (st1 l) = s_announced (st l) \<union> told_of st frames" using v by (simp add: told_of_def)
  have seen1: "seen (st1 a) = seen (st a)" for a using v by (simp add: seen_def same_view_def same_ids_def)
  have told1: "told_of st1 frames = told_of st frames" using sv by (simp add: told_of_def same_view_def same_ids_def)
  have st1: "stereo_of L st1 x frames = stereo_of L st x frames" for x
    by (simp add: stereo_of_def same_view_contributions [OF sv])
  have outs: "\<forall>out \<in> set outs. o_session out \<noteq> l \<and> o_session out \<in> set ls"
    using IH(4) Cons.prems by auto
  let ?outs = "\<lparr>o_session = l, o_stereo = stereo, o_roster = roster\<rparr> # outs"
  have "mix_listeners L ser frames (l # ls) st = Some (st2, ?outs)"
    using m b IH(1) by (simp add: stereo_of_def)
  moreover have "same_view st st2" using sv IH(2) by (rule same_view_trans)
  moreover have "\<forall>a. s_inbound (st2 a) = s_inbound (st a) \<and> s_level (st2 a) = s_level (st a) \<and> s_primary (st2 a) = s_primary (st a) \<and>
       s_announced (st2 a) = s_announced (st a) \<union> (if a \<in> set (l # ls) then told_of st frames else {})"
    using v v' IH(3) Cons.prems by (auto simp: told1)
  moreover have "\<forall>out \<in> set ?outs. stereo_of L st (o_session out) frames = Some (o_stereo out) \<and>
       o_roster out = roster_text ser (s_announced (st (o_session out))) (map (\<lambda>x. seen (st (fst x))) frames)"
    using IH(5) m ro outs v by (auto simp: st1 seen1)
  ultimately show ?case using IH(4) by auto
qed simp


definition frame_level :: "session \<Rightarrow> u8" where
  "frame_level s = (case s_inbound s of [] \<Rightarrow> 0 | f # _ \<Rightarrow> level_to_wire f)"

lemma mix_room_spec:
  assumes "distinct members"
  shows "\<exists>st' outs logs. mix_room L c ser members st = Some (st', outs, logs) \<and> same_view st st' \<and>
    map o_session outs = members \<and>
    (\<forall>out \<in> set outs. stereo_of L st (o_session out) (pulled st members) = Some (o_stereo out) \<and>
       o_roster out = roster_text ser (s_announced (st (o_session out)))
         (map (\<lambda>a. (s_agent_id (st a), frame_level (st a), s_primary (st a))) members)) \<and>
    (\<forall>a \<in> set members. s_inbound (st' a) = tl (s_inbound (st a)) \<and> s_level (st' a) = frame_level (st a) \<and>
       s_announced (st' a) = s_announced (st a) \<union> (\<lambda>a. s_agent_id (st a)) ` set members) \<and>
    (\<forall>a. a \<notin> set members \<longrightarrow> st' a = st a \<or> same_view st st' \<and> s_inbound (st' a) = s_inbound (st a) \<and> s_announced (st' a) = s_announced (st a))"
proof -
  let ?st1 = "\<lambda>a. if a \<in> set members then after_pull c (st a) else st a"
  obtain logs where p: "pull_frames c members st = (?st1, pulled st members, logs)"
    using pull_frames_spec [OF assms] by blast
  have sv: "same_view st ?st1" by (simp add: same_view_def same_ids_def)
  obtain st' outs where m: "mix_listeners L ser (pulled st members) members ?st1 = Some (st', outs)" "same_view ?st1 st'"
    "\<forall>a. s_inbound (st' a) = s_inbound (?st1 a) \<and> s_level (st' a) = s_level (?st1 a) \<and> s_primary (st' a) = s_primary (?st1 a) \<and>
       s_announced (st' a) = s_announced (?st1 a) \<union> (if a \<in> set members then told_of ?st1 (pulled st members) else {})"
    "map o_session outs = members"
    "\<forall>out \<in> set outs. stereo_of L ?st1 (o_session out) (pulled st members) = Some (o_stereo out) \<and>
       o_roster out = roster_text ser (s_announced (?st1 (o_session out))) (map (\<lambda>x. seen (?st1 (fst x))) (pulled st members))"
    using mix_listeners_spec [OF assms, of L ser "pulled st members" ?st1] by blast
  have told: "told_of ?st1 (pulled st members) = (\<lambda>a. s_agent_id (st a)) ` set members"
    by (force simp: told_of_def pulled_def)
  have an: "s_announced (?st1 a) = s_announced (st a)" for a by simp
  have seen: "map (\<lambda>x. seen (?st1 (fst x))) (pulled st members) =
      map (\<lambda>a. (s_agent_id (st a), frame_level (st a), s_primary (st a))) members"
    by (simp add: pulled_def seen_def frame_level_def)
  have st: "stereo_of L ?st1 x (pulled st members) = stereo_of L st x (pulled st members)" for x
    unfolding stereo_of_def same_view_contributions [OF sv] ..
  have "mix_room L c ser members st = Some (st', outs, logs)" by (simp add: mix_room_def p m(1))
  moreover have "same_view st st'" using sv m(2) by (rule same_view_trans)
  moreover have "\<forall>out \<in> set outs. stereo_of L st (o_session out) (pulled st members) = Some (o_stereo out) \<and>
       o_roster out = roster_text ser (s_announced (st (o_session out)))
         (map (\<lambda>a. (s_agent_id (st a), frame_level (st a), s_primary (st a))) members)"
    using m(5) unfolding st an seen .
  moreover have "\<forall>a \<in> set members. s_inbound (st' a) = tl (s_inbound (st a)) \<and> s_level (st' a) = frame_level (st a) \<and>
       s_announced (st' a) = s_announced (st a) \<union> (\<lambda>a. s_agent_id (st a)) ` set members"
    using m(3) unfolding told by (simp add: frame_level_def)
  ultimately show ?thesis using m(3,4) by auto
qed

text \<open>C5. A room tick is total and serves every member exactly once, in order: for the (distinct)
  members of a room, \<open>mix_room\<close> never panics, consumes exactly one waiting frame per member, and gives
  each listener the stereo sum of what that listener hears in the state before the tick (serving one
  listener never affects what another hears), and a roster computed from the agents it had been told
  of before the tick and from this tick's levels; afterwards every member has been told of all.\<close>

theorem mix_room_outputs:
  assumes "distinct members"
  shows "\<exists>st' outs logs. mix_room L c ser members st = Some (st', outs, logs) \<and>
    map o_session outs = members \<and>
    (\<forall>out \<in> set outs.
       mix_stereo L (contributions_for L st (o_session out) (map (\<lambda>m. (m, snd (take_frame (st m)))) members))
         (replicate (FRAME_SAMPLES * 2) (Fin 0)) = Some (o_stereo out) \<and>
       o_roster out = roster_text ser (s_announced (st (o_session out)))
         (map (\<lambda>a. (s_agent_id (st a), frame_level (st a), s_primary (st a))) members)) \<and>
    (\<forall>a \<in> set members. s_inbound (st' a) = tl (s_inbound (st a)) \<and> s_level (st' a) = frame_level (st a) \<and>
       s_announced (st' a) = s_announced (st a) \<union> (\<lambda>a. s_agent_id (st a)) ` set members)"
  using mix_room_spec [OF assms, of L c ser st] unfolding stereo_of_def pulled_def by blast

lemma mix_room_outputs_witness:
  "\<exists>st' outs logs. mix_room exact_libm logctl_init (\<lambda>_. ''{}'') [1, 2]
     (\<lambda>a. Session_new (if a = 1 then ''s'' else ''t'') ''x'' (Channel ''c'') True) = Some (st', outs, logs) \<and> map o_session outs = [1, 2]"
  using mix_room_outputs [of "[1, 2]" exact_libm logctl_init "\<lambda>_. ''{}''" "\<lambda>a. Session_new (if a = 1 then ''s'' else ''t'') ''x'' (Channel ''c'') True"]
  by auto

text \<open>What each listener is sent is bounded and free of NaN, when the sessions are as the data channel
  leaves them, the decoded samples are finite and the listener reports no astronomically large rotation.\<close>

definition frames_ok :: "session \<Rightarrow> bool" where
  "frames_ok s \<longleftrightarrow> (\<forall>f \<in> set (s_inbound s). \<forall>x \<in> set f. fbetween (- (2 ^ 40)) (2 ^ 40) x)"

lemma contribution_None: "contribution_of L l s None = None"
  by (simp add: contribution_of_def)

lemma contributions_from:
  "c \<in> set (contributions_for L st l (pulled st members)) \<Longrightarrow>
     \<exists>m \<in> set members. \<exists>f q. s_inbound (st m) = f # q \<and> contribution_of L (st l) (st m) (Some f) = Some c"
proof -
  assume "c \<in> set (contributions_for L st l (pulled st members))"
  then obtain m where m: "m \<in> set members" "contribution_of L (st l) (st m) (snd (take_frame (st m))) = Some c"
    by (auto simp: contributions_for_def set_map_filter pulled_def)
  then show ?thesis by (cases "s_inbound (st m)") (auto simp: take_frame_def contribution_None)
qed

lemma contributions_sane:
  assumes "libm_ok L" "\<forall>m \<in> set (l # members). session_ok (st m) \<and> frames_ok (st m)" "mag4 200 (listener_rot (s_state (st l)))"
  shows "\<forall>c \<in> set (contributions_for L st l (pulled st members)). sane c"
proof
  fix c assume "c \<in> set (contributions_for L st l (pulled st members))"
  then obtain m f q where m: "m \<in> set members" "s_inbound (st m) = f # q" "contribution_of L (st l) (st m) (Some f) = Some c"
    using contributions_from by blast
  moreover from m have "\<forall>x \<in> set f. fbetween (- (2 ^ 40)) (2 ^ 40) x" using assms(2) by (auto simp: frames_ok_def)
  ultimately show "sane c" using contribution_sane [OF assms(1) _ _ assms(3)] assms(2) by auto
qed

lemma length_map_filter: "length (List.map_filter f xs) \<le> length xs"
  by (induction xs) (auto simp: List.map_filter_simps split: option.split)

text \<open>C15. No listener is ever sent a sample outside \<open>[-1, 1]\<close>: whatever the sessions hold, a frame sent has
  1920 samples, each a number in \<open>[-1, 1]\<close> or NaN. None is NaN in a room of fewer than \<open>2^20\<close> members whose
  sessions are within the bounds of the data channel and whose waiting frames hold finite samples (up to
  \<open>2^40\<close>, full scale being 1), for a listener whose reported rotation has components up to \<open>2^200\<close>; without
  the bound on the rotation it can be (\<open>pan_finite_inputs_nan\<close>).\<close>

theorem room_mix_bounded:
  assumes "libm_ok L" "distinct members" "mix_room L c ser members st = Some (st', outs, logs)" "out \<in> set outs"
  shows "length (o_stereo out) = 1920 \<and> (\<forall>x \<in> set (o_stereo out). x = FNaN \<or> fbetween (- 1) 1 x) \<and>
    (length members < 2 ^ 20 \<longrightarrow> (\<forall>m \<in> set members. session_ok (st m) \<and> frames_ok (st m)) \<longrightarrow>
       mag4 200 (listener_rot (s_state (st (o_session out)))) \<longrightarrow> (\<forall>x \<in> set (o_stereo out). fbetween (- 1) 1 x))"
proof -
  from mix_room_spec [OF assms(2), of L c ser st] assms(3,4)
  have o: "o_session out \<in> set members" "stereo_of L st (o_session out) (pulled st members) = Some (o_stereo out)" by auto
  let ?cs = "contributions_for L st (o_session out) (pulled st members)"
  have l: "length (replicate (FRAME_SAMPLES * 2) (Fin 0)) = 2 * FRAME_SAMPLES" by simp
  note b = mix_bounded [OF assms(1) l o(2) [unfolded stereo_of_def]]
  have len: "length (o_stereo out) = 1920"
    using stereo_of_Some [of L st "o_session out" "pulled st members"] o(2) by (simp add: FRAME_SAMPLES_def)
  have "\<forall>x \<in> set (o_stereo out). fbetween (- 1) 1 x"
    if "length members < 2 ^ 20" "\<forall>m \<in> set members. session_ok (st m) \<and> frames_ok (st m)"
      "mag4 200 (listener_rot (s_state (st (o_session out))))"
  proof -
    have "\<forall>c \<in> set ?cs. sane c" using contributions_sane [OF assms(1), of "o_session out" members st] that(2,3) o(1) by simp
    moreover have "length ?cs < 2 ^ 20"
      using length_map_filter [of _ "pulled st members"] that(1) by (auto simp: contributions_for_def pulled_def intro: le_less_trans)
    ultimately show ?thesis using b by blast
  qed
  then show ?thesis using b len by blast
qed


lemma room_mix_bounded_witness:
  "\<exists>st' outs logs. mix_room exact_libm logctl_init (\<lambda>_. ''{}'') [1, 2]
     (\<lambda>a. (Session_new (if a = 1 then ''s'' else ''t'') ''x'' (Channel ''c'') False)\<lparr>s_inbound := [[Fin 1, Fin (- 1)]]\<rparr>)
       = Some (st', outs, logs) \<and>
     (\<forall>out \<in> set outs. length (o_stereo out) = 1920 \<and> (\<forall>x \<in> set (o_stereo out). fbetween (- 1) 1 x))"
proof -
  let ?st = "\<lambda>a. (Session_new (if a = 1 then ''s'' else ''t'') ''x'' (Channel ''c'') False)\<lparr>s_inbound := [[Fin 1, Fin (- 1)]]\<rparr>"
  obtain st' outs logs where m: "mix_room exact_libm logctl_init (\<lambda>_. ''{}'') [1, 2] ?st = Some (st', outs, logs)"
    using mix_room_spec [of "[1, 2]" exact_libm logctl_init "\<lambda>_. ''{}''" ?st] by auto
  have ok: "session_ok (?st a)" for a :: arc
    using Session_new_ok [of "if a = 1 then ''s'' else ''t''" "''x''" "Channel ''c''" False] by (simp add: session_ok_def)
  have "pow2 0 \<le> pow2 200" by (rule pow2_mono) simp
  then have "mag4 200 (listener_rot (s_state (?st a)))" for a :: arc
    by (simp add: mag4_def Session_new_def spatial_identity_def)
  moreover have "frames_ok (?st a)" for a :: arc by (simp add: frames_ok_def)
  ultimately have "session_ok (?st a) \<and> frames_ok (?st a) \<and> mag4 200 (listener_rot (s_state (?st a)))" for a :: arc
    using ok by blast
  then have h: "\<forall>a \<in> set [1, 2 :: arc]. session_ok (?st a) \<and> frames_ok (?st a) \<and> mag4 200 (listener_rot (s_state (?st a)))"
    by (intro ballI)
  have o: "o_session out \<in> set [1, 2]" if "out \<in> set outs" for out
    using mix_room_spec [of "[1, 2]" exact_libm logctl_init "\<lambda>_. ''{}''" ?st] m that by auto
  have "length (o_stereo out) = 1920 \<and> (\<forall>x \<in> set (o_stereo out). fbetween (- 1) 1 x)" if out: "out \<in> set outs" for out
  proof -
    have d: "distinct [1, 2 :: arc]" by simp
    have len: "length [1, 2 :: arc] < 2 ^ 20" by simp
    show ?thesis using room_mix_bounded [OF exact_libm_ok d m out] len h o [OF out] by blast
  qed
  then show ?thesis using m by blast
qed

lemma mix_nothing: "stereo_of L st l frames = Some r \<Longrightarrow> contributions_for L st l frames = [] \<Longrightarrow> r = replicate 1920 (Fin 0)"
  by (auto simp: stereo_of_def mix_stereo_def soft_clip_def FRAME_SAMPLES_def)

text \<open>Silence for the unheard: if every member with a waiting frame is one the listener does not
  hear (the listener itself, muted, turned to zero, out of range, or not yet placed), the frame sent
  to the listener is 1920 zero samples. In particular a lone speaker never hears an echo.\<close>

theorem unheard_is_silent:
  assumes "distinct members" "\<forall>m \<in> set members. session_ok (st m)"
    "mix_room L c ser members st = Some (st', outs, logs)" "out \<in> set outs"
    "\<forall>m \<in> set members. s_inbound (st m) \<noteq> [] \<longrightarrow> \<not> hears (st (o_session out)) (st m)"
  shows "o_stereo out = replicate 1920 (Fin 0)"
proof -
  from mix_room_spec [OF assms(1), of L c ser st] assms(3,4)
  have o: "o_session out \<in> set members" "stereo_of L st (o_session out) (pulled st members) = Some (o_stereo out)" by auto
  have "contributions_for L st (o_session out) (pulled st members) = []"
  proof (rule ccontr)
    assume "\<not> ?thesis"
    then have "set (contributions_for L st (o_session out) (pulled st members)) \<noteq> {}" by simp
    then obtain cn where "cn \<in> set (contributions_for L st (o_session out) (pulled st members))"
      unfolding ex_in_conv [symmetric] by (elim exE)
    then obtain m f q where m: "m \<in> set members" "s_inbound (st m) = f # q"
      "contribution_of L (st (o_session out)) (st m) (Some f) \<noteq> None"
      using contributions_from by blast
    then show False using contribution_iff(1) [of "st (o_session out)" "st m" L f] assms(2,5) o(1) by simp
  qed
  then show ?thesis using mix_nothing [OF o(2)] by blast
qed

lemma unheard_is_silent_witness:
  "\<exists>st' outs logs. mix_room exact_libm logctl_init (\<lambda>_. ''{}'') [1]
     (\<lambda>a. (Session_new ''s'' ''x'' (Channel ''c'') False)\<lparr>s_inbound := [[Fin 1]]\<rparr>) = Some (st', outs, logs) \<and>
     (\<forall>out \<in> set outs. o_stereo out = replicate 1920 (Fin 0))"
proof -
  let ?st = "\<lambda>a. (Session_new ''s'' ''x'' (Channel ''c'') False)\<lparr>s_inbound := [[Fin 1]]\<rparr>"
  obtain st' outs logs where m: "mix_room exact_libm logctl_init (\<lambda>_. ''{}'') [1] ?st = Some (st', outs, logs)"
    using mix_room_spec [of "[1]" exact_libm logctl_init "\<lambda>_. ''{}''" ?st] by auto
  have ok: "\<forall>a \<in> set [1 :: arc]. session_ok (?st a)"
    using Session_new_ok [of "''s''" "''x''" "Channel ''c''" False] by (simp add: session_ok_def)
  have h: "\<not> hears (?st b) (?st a)" for a b by (simp add: hears_def)
  show ?thesis using m unheard_is_silent [OF _ ok m] h by auto
qed

section \<open>The roster\<close>

lemma entries_spec_map:
  "distinct (map fst ss) \<Longrightarrow> map_of (entries_spec told ss) k =
     (case map_of ss k of None \<Rightarrow> None
      | Some (level, primary) \<Rightarrow> if k \<in> told \<and> level = 0 then None
          else Some \<lparr>re_joined = k \<notin> told, re_primary = primary, re_power = level,
                     re_speaking = speaking_of level, re_moderator_muted = False\<rparr>)"
proof (induction told ss arbitrary: k rule: entries_spec.induct)
  case (2 told agent level primary ss)
  have n: "map_of ss agent = None" using 2(3) by (simp add: map_of_eq_None_iff)
  show ?case
  proof (cases "k = agent")
    case True
    have "map_of (entries_spec (insert agent told) ss) agent = None"
      using 2 n by (cases "agent \<in> told \<and> level = 0") simp_all
    then show ?thesis using True n by simp
  next
    case False
    have "map_of (entries_spec (insert agent told) ss) k = (case map_of ss k of None \<Rightarrow> None
      | Some (level, primary) \<Rightarrow> if k \<in> insert agent told \<and> level = 0 then None
          else Some \<lparr>re_joined = k \<notin> insert agent told, re_primary = primary, re_power = level,
                     re_speaking = speaking_of level, re_moderator_muted = False\<rparr>)"
      using 2 by (cases "agent \<in> told \<and> level = 0") simp_all
    then show ?thesis using False by (simp split: option.split)
  qed
qed simp

lemma entries_spec_empty: "entries_spec told ss = [] \<longleftrightarrow> (\<forall>(agent, level, p) \<in> set ss. agent \<in> told \<and> level = 0)"
  by (induction told ss rule: entries_spec.induct) (auto simp: insert_absorb)

lemma entries_joined: "(k, e) \<in> set (entries_spec told ss) \<Longrightarrow> re_joined e \<Longrightarrow> k \<notin> told"
  by (induction told ss rule: entries_spec.induct) (auto split: if_splits)

lemma entries_keys: "fst ` set (entries_spec told ss) \<subseteq> fst ` set ss"
  by (induction told ss rule: entries_spec.induct) auto

lemma entries_distinct: "distinct (map fst ss) \<Longrightarrow> distinct (map fst (entries_spec told ss))"
proof (induction told ss rule: entries_spec.induct)
  case (2 told agent level primary ss)
  then show ?case using entries_keys [of "insert agent told" ss] by auto
qed simp

lemma roster_value_get: "jget (roster_value es) k = map_option roster_entry_value (map_of (rev es) k)"
  unfolding roster_value_def jget_json_obj by (induction es rule: rev_induct) (auto simp: map_of_map rev_map [symmetric])

lemma map_of_rev_distinct:
  assumes "distinct (map fst es)" shows "map_of (rev es) k = map_of es k"
proof (cases "map_of es k")
  case None
  then have "map_of (rev es) k = None" by (simp add: map_of_eq_None_iff)
  then show ?thesis using None by simp
next
  case (Some v)
  have "distinct (map fst (rev es))" using assms by (simp add: rev_map [symmetric])
  moreover have "(k, v) \<in> set (rev es)" using Some by (simp add: map_of_SomeD)
  ultimately have "map_of (rev es) k = Some v" by (rule map_of_is_SomeI)
  then show ?thesis using Some by simp
qed

lemma roster_value_distinct: "distinct (map fst es) \<Longrightarrow> jget (roster_value es) k = map_option roster_entry_value (map_of es k)"
  by (simp add: roster_value_get map_of_rev_distinct)

text \<open>An agent already announced to a listener is not announced again.\<close>

lemma told_no_join:
  assumes "k \<in> told" "jget (roster_value (entries_spec told ss)) k = Some e"
  shows "jget e ''j'' = None"
proof -
  obtain r where r: "map_of (rev (entries_spec told ss)) k = Some r" "e = roster_entry_value r"
    using assms(2) by (auto simp: roster_value_get)
  then have "(k, r) \<in> set (entries_spec told ss)" by (auto dest: map_of_SomeD)
  then have "\<not> re_joined r" using entries_joined assms(1) by blast
  then show ?thesis by (simp add: r(2) roster_entry_value_def jget_json_obj)
qed

lemma tick_roster:
  assumes "distinct members" "mix_room L c ser members st = Some (st', outs, logs)" "out \<in> set outs"
  defines "ss \<equiv> map (\<lambda>a. (s_agent_id (st a), frame_level (st a), s_primary (st a))) members"
  shows "o_session out \<in> set members"
    "o_roster out = roster_text ser (s_announced (st (o_session out))) ss"
    "\<forall>a \<in> set members. s_announced (st' a) = s_announced (st a) \<union> (\<lambda>a. s_agent_id (st a)) ` set members"
  using mix_room_spec [OF assms(1), of L c ser st] assms(2,3) by (auto simp: ss_def)

lemma later_no_join:
  assumes "distinct members" "mix_room L c ser members st = Some (st', outs, logs)" "out \<in> set outs"
    "K \<subseteq> s_announced (st (o_session out))"
  shows "\<exists>v. o_roster out \<in> {None, Some (ser v)} \<and> (\<forall>k \<in> K. \<forall>e. jget v k = Some e \<longrightarrow> jget e ''j'' = None)"
proof -
  let ?v = "roster_value (entries_spec (s_announced (st (o_session out)))
    (map (\<lambda>a. (s_agent_id (st a), frame_level (st a), s_primary (st a))) members))"
  have "o_roster out \<in> {None, Some (ser ?v)}"
    using tick_roster(2) [OF assms(1-3)] by (simp add: roster_text_def roster_json_def)
  moreover have "\<forall>k \<in> K. \<forall>e. jget ?v k = Some e \<longrightarrow> jget e ''j'' = None" using told_no_join assms(4) by blast
  ultimately show ?thesis by blast
qed

text \<open>C24. Joins are announced once: when the agents of a room are distinct, a tick builds no roster for a
  listener exactly when it is recorded as told of everyone and everyone is silent. Otherwise the roster is the
  object that has, for each member, an entry exactly when the member is new to the listener or audible, marked
  joined exactly when it is new, with the level of this tick and the flags that follow from it, and that has no
  other key. Afterwards the listener is recorded as told of every member; so whatever the members of a later
  tick, as long as nothing recorded is forgotten, the roster built then marks none of them joined.\<close>

theorem roster_joins_once:
  assumes "distinct members" "inj_on (\<lambda>a. s_agent_id (st a)) (set members)"
    "mix_room L c ser members st = Some (st', outs, logs)" "out \<in> set outs"
  shows "\<exists>v. o_roster out =
      (if \<forall>a \<in> set members. s_agent_id (st a) \<in> s_announced (st (o_session out)) \<and> frame_level (st a) = 0 then None else Some (ser v)) \<and>
    (\<forall>a \<in> set members. jget v (s_agent_id (st a)) =
      (if s_agent_id (st a) \<in> s_announced (st (o_session out)) \<and> frame_level (st a) = 0 then None
       else Some (roster_entry_value
         \<lparr>re_joined = s_agent_id (st a) \<notin> s_announced (st (o_session out)), re_primary = s_primary (st a),
          re_power = frame_level (st a), re_speaking = speaking_of (frame_level (st a)), re_moderator_muted = False\<rparr>))) \<and>
    (\<forall>k. k \<notin> (\<lambda>a. s_agent_id (st a)) ` set members \<longrightarrow> jget v k = None) \<and>
    (\<forall>a \<in> set members. s_agent_id (st a) \<in> s_announced (st' (o_session out))) \<and>
    (\<forall>L' c' members' st2 st2' outs' logs' out'. distinct members' \<longrightarrow>
       mix_room L' c' ser members' st2 = Some (st2', outs', logs') \<longrightarrow> out' \<in> set outs' \<longrightarrow> o_session out' = o_session out \<longrightarrow>
       s_announced (st' (o_session out)) \<subseteq> s_announced (st2 (o_session out)) \<longrightarrow>
       (\<exists>w. o_roster out' \<in> {None, Some (ser w)} \<and>
          (\<forall>a \<in> set members. \<forall>e. jget w (s_agent_id (st a)) = Some e \<longrightarrow> jget e ''j'' = None)))"
proof -
  let ?ss = "map (\<lambda>a. (s_agent_id (st a), frame_level (st a), s_primary (st a))) members"
  let ?told = "s_announced (st (o_session out))"
  let ?es = "entries_spec ?told ?ss"
  note t = tick_roster [OF assms(1,3,4)]
  have d: "distinct (map fst ?ss)" using assms(1,2) by (simp add: distinct_map comp_def)
  note get = roster_value_distinct [OF entries_distinct [OF d], of ?told]
  have ss: "map_of ?ss (s_agent_id (st a)) = Some (frame_level (st a), s_primary (st a))" if "a \<in> set members" for a
    using d that by (intro map_of_is_SomeI) auto
  have "o_roster out = (if \<forall>a \<in> set members. s_agent_id (st a) \<in> ?told \<and> frame_level (st a) = 0 then None else Some (ser (roster_value ?es)))"
    using t(2) by (simp add: roster_text_def roster_json_def entries_spec_empty)
  moreover have "jget (roster_value ?es) k = None" if "k \<notin> (\<lambda>a. s_agent_id (st a)) ` set members" for k
  proof -
    have "map_of ?ss k = None" using that by (auto simp: map_of_eq_None_iff)
    then show ?thesis by (simp add: get entries_spec_map [OF d])
  qed
  moreover have "\<forall>a \<in> set members. s_agent_id (st a) \<in> s_announced (st' (o_session out))" using t(1,3) by blast
  moreover have "\<exists>w. o_roster out' \<in> {None, Some (ser w)} \<and>
      (\<forall>a \<in> set members. \<forall>e. jget w (s_agent_id (st a)) = Some e \<longrightarrow> jget e ''j'' = None)"
    if "distinct members'" "mix_room L' c' ser members' st2 = Some (st2', outs', logs')" "out' \<in> set outs'"
      "o_session out' = o_session out" "s_announced (st' (o_session out)) \<subseteq> s_announced (st2 (o_session out))"
    for L' c' members' st2 st2' outs' logs' out'
  proof -
    have "(\<lambda>a. s_agent_id (st a)) ` set members \<subseteq> s_announced (st2 (o_session out'))" using that(4,5) t(1,3) by auto
    from later_no_join [OF that(1-3) this] show ?thesis by blast
  qed
  ultimately show ?thesis
    by (intro exI [of _ "roster_value ?es"]) (simp add: ss get entries_spec_map [OF d])
qed

lemma roster_joins_once_witness:
  "\<exists>st' outs logs. mix_room exact_libm logctl_init (\<lambda>_. ''{}'') [1] (\<lambda>a. Session_new ''s'' ''x'' (Channel ''c'') False)
       = Some (st', outs, logs) \<and> (\<forall>out \<in> set outs. o_roster out = Some ''{}'')"
proof -
  let ?st = "\<lambda>a. Session_new ''s'' ''x'' (Channel ''c'') False"
  obtain st' outs logs where m: "mix_room exact_libm logctl_init (\<lambda>_. ''{}'') [1] ?st = Some (st', outs, logs)"
    using mix_room_spec [of "[1]" exact_libm logctl_init "\<lambda>_. ''{}''" ?st] by auto
  have "inj_on (\<lambda>a. s_agent_id (?st a)) (set [1 :: arc])" by simp
  from roster_joins_once [OF _ this m] have "\<forall>out \<in> set outs. o_roster out = Some ''{}''"
    by (fastforce simp: Session_new_def)
  then show ?thesis using m by blast
qed

lemma entries_spec_append: "entries_spec told (xs @ ys) = entries_spec told xs @ entries_spec (told \<union> fst ` set xs) ys"
proof (induction told xs rule: entries_spec.induct)
  case (2 told agent level primary ss)
  then show ?case by (auto simp: insert_absorb)
qed simp

lemma told_entry:
  assumes "k \<in> told" "(k, level, p) \<in> set ss" "level \<noteq> 0"
  shows "\<exists>e. map_of (rev (entries_spec told ss)) k = Some e \<and> \<not> re_joined e"
proof -
  have "k \<in> fst ` set (entries_spec told ss)"
    using assms(2,3) by (induction told ss rule: entries_spec.induct) auto
  then obtain e where e: "map_of (rev (entries_spec told ss)) k = Some e"
    by (cases "map_of (rev (entries_spec told ss)) k") (auto simp: map_of_eq_None_iff)
  then have "(k, e) \<in> set (entries_spec told ss)" by (auto dest: map_of_SomeD)
  then show ?thesis using e entries_joined assms(1) by blast
qed

lemma second_entry_wins:
  assumes "(k, level, p) \<in> set ys" "level \<noteq> 0"
  shows "\<exists>e. map_of (rev (entries_spec told (xs @ (k, x) # ys))) k = Some e \<and> \<not> re_joined e"
proof -
  have "\<exists>es. entries_spec told (xs @ (k, x) # ys) = es @ entries_spec (insert k (told \<union> fst ` set xs)) ys"
    by (cases x) (simp add: entries_spec_append)
  then obtain es where es: "entries_spec told (xs @ (k, x) # ys) = es @ entries_spec (insert k (told \<union> fst ` set xs)) ys" ..
  obtain e where "map_of (rev (entries_spec (insert k (told \<union> fst ` set xs)) ys)) k = Some e" "\<not> re_joined e"
    using told_entry [OF insertI1 assms] by blast
  then show ?thesis by (simp add: es)
qed

text \<open>C32. The hypothesis that agents are distinct is needed. When one agent holds two sessions in a
  room (a viewer that reconnects before its old session is reaped), is new to the listener, and the
  later of the two in the order of the tick is audible, the roster object is built from several entries with
  the same key, of which the last, which is not marked as a join, replaces the others: the text sent has no
  join for the agent, although the agent is now recorded as announced, so no later roster has it either.\<close>

theorem duplicate_agent_loses_join:
  assumes "frames = xs @ (a, f) # ys" "(b, g) \<in> set ys" "s_agent_id (st a) = s_agent_id (st b)"
    "s_agent_id (st a) \<notin> s_announced (st l)" "s_level (st b) \<noteq> 0" "build_roster ser l frames st = (st', r)"
  shows "\<exists>v e. r = Some (ser v) \<and> jget v (s_agent_id (st a)) = Some e \<and> jget e ''j'' = None \<and>
    s_agent_id (st a) \<in> s_announced (st' l)"
proof -
  let ?x = "s_agent_id (st a)" and ?see = "\<lambda>x. seen (st (fst x))"
  let ?es = "entries_spec (s_announced (st l)) (map ?see frames)"
  have m: "map ?see frames = map ?see xs @ (?x, s_level (st a), s_primary (st a)) # map ?see ys"
    by (simp add: assms(1) seen_def)
  have "(?x, s_level (st b), s_primary (st b)) \<in> set (map ?see ys)"
    using assms(2,3) by (force simp: seen_def)
  from second_entry_wins [OF this assms(5)] obtain e where e: "map_of (rev ?es) ?x = Some e" "\<not> re_joined e"
    unfolding m by blast
  then have "?es \<noteq> []" by auto
  then have "r = Some (ser (roster_value ?es))"
    using build_roster_spec [of ser l frames st] assms(6) by (simp add: roster_text_def roster_json_def)
  moreover have "?x \<in> s_announced (st' l)"
  proof -
    obtain st1 es where "roster_entries l frames st = (st1, es)" by (metis surj_pair)
    then show ?thesis using roster_entries_view [of l frames st st1 es] assms(6)
      by (simp add: build_roster_def assms(1) split: prod.splits)
  qed
  moreover have "jget (roster_value ?es) ?x = Some (roster_entry_value e)" by (simp add: roster_value_get e(1))
  moreover have "jget (roster_entry_value e) ''j'' = None"
    using e(2) by (simp add: roster_entry_value_def jget_json_obj)
  ultimately show ?thesis by blast
qed

definition two_sessions :: store where
  "two_sessions a = (Session_new ''s'' ''x'' (Channel ''c'') False)\<lparr>s_level := (if a = 1 then 64 else 0)\<rparr>"

lemma duplicate_agent_loses_join_witness:
  "\<exists>v e. snd (build_roster (\<lambda>_. ''{}'') 2 [(0, None), (1, None)] two_sessions) = Some ''{}'' \<and>
     jget v ''x'' = Some e \<and> jget e ''j'' = None"
proof -
  obtain st' r where b: "build_roster (\<lambda>_. ''{}'') 2 [(0, None), (1, None)] two_sessions = (st', r)" by (metis surj_pair)
  have x: "s_agent_id (two_sessions a) = ''x''" "s_announced (two_sessions a) = {}" "s_level (two_sessions 1) \<noteq> 0" for a
    by (simp_all add: two_sessions_def Session_new_def)
  have "s_agent_id (two_sessions 0) = s_agent_id (two_sessions 1)" "s_agent_id (two_sessions 0) \<notin> s_announced (two_sessions 2)"
    by (simp_all only: x empty_iff not_False_eq_True)
  moreover have "[(0, None), (1, None)] = [] @ (0 :: arc, None :: fp list option) # [(1, None)]"
    "(1, None) \<in> set [(1 :: arc, None :: fp list option)]" by simp_all
  ultimately show ?thesis
    using duplicate_agent_loses_join [OF _ _ _ _ x(3) b] unfolding b x(1) snd_conv by blast
qed

end
