(* ===== verification/Transport.thy ===== *)
theory Transport
  imports Room
begin

text \<open>
  \<open>src/src/session.rs\<close>: the media port pool, the endpoint of one viewer (its encoder, RTP clock
  and data-channel slot), the WebRTC event handlers, and the bring-up of a peer connection. The
  WebRTC stack and the Opus codec are other crates: a call into them that can fail is a
  \<open>result\<close> the definitions take as a parameter, and the codec is a state \<open>'e\<close> with an encode
  or decode function. Nothing is assumed of either.
\<close>

section \<open>Media ports\<close>

record port_pool =
  pp_next :: u16
  pp_lo :: u16
  pp_hi :: u16

definition PortPool_new :: "u16 \<Rightarrow> u16 \<Rightarrow> port_pool" where
  "PortPool_new lo hi = \<lparr>pp_next = lo, pp_lo = lo, pp_hi = hi\<rparr>"

text \<open>The release build wraps on overflow. \<open>None\<close> is the panic of a remainder by zero.\<close>

definition port_take :: "port_pool \<Rightarrow> (u16 \<times> port_pool) option" where
  "port_take p =
     (let span = (ucast (pp_hi p - pp_lo p + 1) :: u32); n = pp_next p
      in if span = 0 then None
         else Some (pp_lo p + ucast ((ucast (n - pp_lo p) :: u32) mod span), p\<lparr>pp_next := n + 1\<rparr>))"

section \<open>Endpoints\<close>

text \<open>The peer connection is here only as the port that it was built on, to which its socket is bound.\<close>

record 'e endpoint =
  ep_session :: arc
  ep_out_ssrc :: u32
  ep_out_pt :: u8
  ep_dc :: "nat option"
  ep_encoder :: 'e
  ep_packet_timestamp :: u32
  ep_port :: u16

record packet =
  pk_ssrc :: u32
  pk_pt :: u8
  pk_timestamp :: u32
  pk_duration_ms :: nat
  pk_data :: "u8 list"

text \<open>The codec's \<open>encode_float\<close>, which fills a buffer of at most 4000 bytes.\<close>

type_synonym 'e encode = "'e \<Rightarrow> fp list \<Rightarrow> 'e \<times> (string, u8 list) result"

definition send_mix ::
    "'e encode \<Rightarrow> (packet \<Rightarrow> (string, unit) result) \<Rightarrow> fp list \<Rightarrow> 'e endpoint
       \<Rightarrow> 'e endpoint \<times> packet option \<times> (string, unit) result" where
  "send_mix encode_float write_sample stereo ep =
     (case encode_float (ep_encoder ep) stereo of
        (enc, Inl e) \<Rightarrow> (ep\<lparr>ep_encoder := enc\<rparr>, None, Inl (''opus encode: '' @ e))
      | (enc, Inr buf) \<Rightarrow>
          let cur = ep_packet_timestamp ep;
              ep = ep\<lparr>ep_encoder := enc, ep_packet_timestamp := cur + of_nat FRAME_SAMPLES\<rparr>;
              pk = \<lparr>pk_ssrc = ep_out_ssrc ep, pk_pt = ep_out_pt ep, pk_timestamp = cur, pk_duration_ms = 20,
                    pk_data = buf\<rparr>
          in (ep, Some pk,
              case write_sample pk of Inl e \<Rightarrow> Inl (''write_sample: '' @ e) | Inr _ \<Rightarrow> Inr ()))"

text \<open>\<open>send_roster\<close>: the channel the text goes to, if there is one.\<close>

definition send_roster :: "string \<Rightarrow> 'e endpoint \<Rightarrow> (nat \<times> string) option" where
  "send_roster json ep = map_option (\<lambda>dc. (dc, json)) (ep_dc ep)"

definition data_channel_open :: "'e endpoint \<Rightarrow> bool" where
  "data_channel_open ep \<longleftrightarrow> ep_dc ep \<noteq> None"

record ice_init =
  ii_candidate :: string
  ii_sdp_mid :: "string option"
  ii_sdp_mline_index :: "u16 option"
  ii_username_fragment :: "string option"
  ii_url :: "string option"

definition add_ice_candidate ::
    "(ice_init \<Rightarrow> (string, unit) result) \<Rightarrow> ice_candidate \<Rightarrow> (string, unit) result" where
  "add_ice_candidate pc_add c =
     (case pc_add \<lparr>ii_candidate = ic_candidate c, ii_sdp_mid = ic_sdp_mid c,
                   ii_sdp_mline_index = ic_sdp_mline_index c, ii_username_fragment = None, ii_url = None\<rparr> of
        Inl e \<Rightarrow> Inl (''add_ice_candidate: '' @ e) | Inr _ \<Rightarrow> Inr ())"

section \<open>Callbacks\<close>

datatype gathering_state = GatherNew | Gathering | GatherComplete

definition on_ice_gathering_state_change :: "gathering_state \<Rightarrow> bool \<Rightarrow> bool" where
  "on_ice_gathering_state_change state gathered = (if state = GatherComplete then True else gathered)"

datatype connection_state = CUnspecified | CNew | CConnecting | CConnected | CDisconnected | CFailed | CClosed

definition on_connection_state_change :: "connection_state \<Rightarrow> session \<Rightarrow> session" where
  "on_connection_state_change state s =
     (if state = CFailed \<or> state = CClosed \<or> state = CDisconnected then s\<lparr>s_closed := True\<rparr> else s)"

text \<open>The loop that cuts the first \<open>n\<close> decoded samples into frames.\<close>

function cut_frames :: "fp list \<Rightarrow> nat \<Rightarrow> nat \<Rightarrow> fp list list" where
  "cut_frames pcm n off =
     (if off + FRAME_SAMPLES \<le> n
      then take FRAME_SAMPLES (drop off pcm) # cut_frames pcm n (off + FRAME_SAMPLES)
      else if off < n
      then let tail = take (n - off) (drop off pcm)
           in [take FRAME_SAMPLES tail @ replicate (FRAME_SAMPLES - length tail) (Fin 0)]
      else [])"
  by pat_completeness auto
termination
  by (relation "measure (\<lambda>(pcm, n, off). n - off)") (auto simp: FRAME_SAMPLES_def)

declare cut_frames.simps [simp del]

datatype track_event = OnRtpPacket "u8 list" | OtherTrackEvent

text \<open>The codec's \<open>decode_float\<close> writes into the decode buffer and returns the number of samples.\<close>

type_synonym 'd decode = "'d \<Rightarrow> u8 list \<Rightarrow> fp list \<Rightarrow> 'd \<times> fp list \<times> (string, nat) result"

definition on_packet :: "'d decode \<Rightarrow> track_event \<Rightarrow> 'd \<times> fp list \<times> session \<Rightarrow> 'd \<times> fp list \<times> session" where
  "on_packet decode_float evt = (\<lambda>(decoder, pcm, s).
     case evt of
       OtherTrackEvent \<Rightarrow> (decoder, pcm, s)
     | OnRtpPacket payload \<Rightarrow>
         if payload = [] then (decoder, pcm, s)
         else case decode_float decoder payload pcm of
             (decoder, pcm, Inl e) \<Rightarrow> (decoder, pcm, s)
           | (decoder, pcm, Inr n) \<Rightarrow> (decoder, pcm, fold push_frame (cut_frames pcm n 0) s))"

definition MAX_DECODE_SAMPLES :: nat where "MAX_DECODE_SAMPLES = 5760"

text \<open>The task spawned for an inbound track: \<open>None\<close> is a decoder that could not be created.\<close>

definition on_track :: "'d decode \<Rightarrow> bool \<Rightarrow> 'd option \<Rightarrow> track_event list \<Rightarrow> session \<Rightarrow> session" where
  "on_track decode_float audio decoder evts s =
     (if \<not> audio then s
      else case decoder of
          None \<Rightarrow> s
        | Some d \<Rightarrow> snd (snd (fold (on_packet decode_float) evts (d, replicate MAX_DECODE_SAMPLES (Fin 0), s))))"

datatype channel_event = OnMessage bool "string option" | OnClose | OnError | OtherChannelEvent

text \<open>The data-channel task. A message is a flag (text or binary) and its bytes as UTF-8 text, when
  they are. The slot is shared with the endpoint and with any later channel of the connection.\<close>

fun channel_loop ::
    "(string \<Rightarrow> (string, json) result) \<Rightarrow> channel_event list \<Rightarrow> session \<Rightarrow> session" where
  "channel_loop from_str [] s = s"
| "channel_loop from_str (evt # evts) s =
     (case evt of
        OnMessage is_string text \<Rightarrow>
          if \<not> is_string then channel_loop from_str evts s
          else (case text of
              None \<Rightarrow> channel_loop from_str evts s
            | Some text \<Rightarrow> (case viewer_data_parse from_str text of
                  Inr m \<Rightarrow> channel_loop from_str evts (apply_data m s)
                | Inl e \<Rightarrow> channel_loop from_str evts s))
      | OnClose \<Rightarrow> s
      | OnError \<Rightarrow> s
      | OtherChannelEvent \<Rightarrow> channel_loop from_str evts s)"

definition on_data_channel_open :: "nat \<Rightarrow> nat option \<Rightarrow> nat option" where
  "on_data_channel_open dc slot = Some dc"

definition on_data_channel_end :: "nat \<Rightarrow> nat option \<Rightarrow> nat option" where
  "on_data_channel_end dc slot = None"

section \<open>The negotiated payload type\<close>

fun opus_pt_lines :: "string list \<Rightarrow> u8 option" where
  "opus_pt_lines [] = None"
| "opus_pt_lines (line # ls) =
     (case strip_prefix (trim line) ''a=rtpmap:'' of
        None \<Rightarrow> opus_pt_lines ls
      | Some rest \<Rightarrow>
          (case split_once (CHR '' '') rest of
             None \<Rightarrow> None
           | Some (pt, codec) \<Rightarrow>
               if prefix ''opus/'' (to_ascii_lowercase codec) then parse_u8 pt else opus_pt_lines ls))"

definition negotiated_opus_pt :: "string \<Rightarrow> u8 option" where
  "negotiated_opus_pt sdp = opus_pt_lines (lines sdp)"

section \<open>Bring-up\<close>

text \<open>The counter is the function's static; the clock supplies the nanoseconds.\<close>

definition rand_u32 :: "u32 \<Rightarrow> u32 \<Rightarrow> u32 \<times> u32" where
  "rand_u32 counter subsec_nanos =
     (Bit_Operations.or (Bit_Operations.xor counter (word_rotl 13 subsec_nanos)) 1, counter + 0x9E3779B9)"

definition OPUS_PT_PREFERRED :: u8 where "OPUS_PT_PREFERRED = 111"
definition GATHER_TIMEOUT_MS :: nat where "GATHER_TIMEOUT_MS = 2500"

text \<open>The poll loop: \<open>flag i\<close> is the gathering flag at poll \<open>i\<close>, \<open>elapsed i\<close> the milliseconds since
  the deadline was set. Not returning is \<open>None\<close>.\<close>

partial_function (option) gather_wait :: "(nat \<Rightarrow> bool) \<Rightarrow> (nat \<Rightarrow> nat) \<Rightarrow> nat \<Rightarrow> nat option" where
  "gather_wait flag elapsed i =
     (if \<not> flag i \<and> elapsed i < GATHER_TIMEOUT_MS then gather_wait flag elapsed (i + 1) else Some i)"

text \<open>The calls of \<open>establish\<close> into the WebRTC stack and the codec, each with the arguments that
  depend on the request.\<close>

record rtp_codec =
  cd_mime_type :: string
  cd_clock_rate :: u32
  cd_channels :: u16
  cd_fmtp_line :: string

text \<open>The crate's name for Opus is a parameter; the payload type travels beside the codec.\<close>

definition opus_codec :: "string \<Rightarrow> rtp_codec" where
  "opus_codec mime_type_opus =
     \<lparr>cd_mime_type = mime_type_opus, cd_clock_rate = of_nat SAMPLE_RATE, cd_channels = 2,
      cd_fmtp_line = ''minptime=10;useinbandfec=1''\<rparr>"

record 'e rtc =
  x_mime_opus :: string
  x_register_codec :: "rtp_codec \<Rightarrow> u8 \<Rightarrow> (string, unit) result"
  x_interceptors :: "(string, unit) result"
  x_track :: "string \<Rightarrow> string \<Rightarrow> u32 \<Rightarrow> rtp_codec \<Rightarrow> (string, unit) result"
  x_build :: "string \<Rightarrow> (string, unit) result"
  x_add_track :: "(string, unit) result"
  x_parse_offer :: "string \<Rightarrow> (string, unit) result"
  x_set_remote :: "(string, unit) result"
  x_create_answer :: "(string, unit) result"
  x_set_local :: "(string, unit) result"
  x_gathered :: "nat \<Rightarrow> bool"
  x_elapsed :: "nat \<Rightarrow> nat"
  x_local_description :: "string option"
  x_encoder :: "(string, 'e) result"
  x_answer_sdp :: "string option"
  x_dc :: "nat option"
  x_nanos1 :: u32
  x_nanos2 :: u32

definition map_err :: "string \<Rightarrow> (string, 'a) result \<Rightarrow> (string, 'a) result" where
  "map_err what r = (case r of Inl e \<Rightarrow> Inl (what @ '': '' @ e) | Inr x \<Rightarrow> Inr x)"

text \<open>The port as it is printed into the address, and the whole chain of calls. The outer \<open>option\<close> is
  the poll loop. The second component is the counter of \<open>rand_u32\<close> afterwards: the first draw is made
  before the track is built, the second only when everything has succeeded.\<close>

definition establish ::
    "'e rtc \<Rightarrow> u32 \<Rightarrow> arc \<Rightarrow> string \<Rightarrow> string \<Rightarrow> string \<Rightarrow> u16 \<Rightarrow> ((string, 'e endpoint) result \<times> u32) option" where
  "establish X counter a sid offer_sdp public_ip port =
     (case res_bind (map_err ''register_codec'' (x_register_codec X (opus_codec (x_mime_opus X)) OPUS_PT_PREFERRED)) (\<lambda>_. map_err ''interceptors'' (x_interceptors X)) of
        Inl e \<Rightarrow> Some (Inl e, counter)
      | Inr _ \<Rightarrow>
        (let (out_ssrc, counter) = rand_u32 counter (x_nanos1 X)
         in case
             res_bind (map_err ''TrackLocalStaticSample''
                        (x_track X (''wolfvoice-'' @ sid) (''wolfvoice-mix-'' @ sid) out_ssrc (opus_codec (x_mime_opus X)))) (\<lambda>_.
             res_bind (map_err ''peer connection build''
                        (x_build X (public_ip @ '':'' @ show_int (uint port)))) (\<lambda>_.
             res_bind (map_err ''add_track'' (x_add_track X)) (\<lambda>_.
             res_bind (map_err ''parse offer'' (x_parse_offer X offer_sdp)) (\<lambda>_.
             res_bind (map_err ''set_remote_description'' (x_set_remote X)) (\<lambda>_.
             res_bind (map_err ''create_answer'' (x_create_answer X)) (\<lambda>_.
             map_err ''set_local_description'' (x_set_local X))))))) of
             Inl e \<Rightarrow> Some (Inl e, counter)
           | Inr _ \<Rightarrow>
             map_option (\<lambda>polls.
               case res_bind (ok_or (x_local_description X) ''no local description after set_local_description'')
                      (\<lambda>sdp. res_bind (map_err ''opus encoder'' (x_encoder X)) (\<lambda>enc. Inr (sdp, enc))) of
                 Inl e \<Rightarrow> (Inl e, counter)
               | Inr (sdp, enc) \<Rightarrow>
                   (let (ts, counter) = rand_u32 counter (x_nanos2 X)
                    in (Inr \<lparr>ep_session = a, ep_out_ssrc = out_ssrc,
                             ep_out_pt = unwrap_or (negotiated_opus_pt sdp) OPUS_PT_PREFERRED,
                             ep_dc = x_dc X, ep_encoder = enc, ep_packet_timestamp = ts, ep_port = port\<rparr>, counter)))
               (gather_wait (x_gathered X) (x_elapsed X) 0)))"

definition answer_sdp :: "'e rtc \<Rightarrow> string option" where
  "answer_sdp X = x_answer_sdp X"

section \<open>The port pool\<close>

fun ports :: "nat \<Rightarrow> port_pool \<Rightarrow> u16 list option" where
  "ports 0 p = Some []"
| "ports (Suc k) p = Option.bind (port_take p) (\<lambda>(x, p'). map_option (\<lambda>xs. x # xs) (ports k p'))"

definition span_of :: "u16 \<Rightarrow> u16 \<Rightarrow> nat" where
  "span_of lo hi = unat hi + 1 - unat lo"

lemma unat_u16: "unat (w :: u16) < 65536"
proof -
  have "unat w < 2 ^ LENGTH(16)" by (rule unsigned_less)
  then show ?thesis by simp
qed

lemma unat_ucast_mod: "unat (ucast (w :: 'a::len word) :: 'b::len word) = unat w mod 2 ^ LENGTH('b)"
  by (simp add: unsigned_ucast_eq take_bit_eq_mod)

lemma span_word:
  assumes "unat lo \<le> unat hi" "\<not> (unat lo = 0 \<and> unat hi = 65535)"
  shows "unat (ucast (hi - lo + 1 :: u16) :: u32) = span_of lo hi" "0 < span_of lo hi" "span_of lo hi \<le> 65535"
proof -
  have s: "0 < span_of lo hi" "span_of lo hi \<le> 65535" using assms unat_u16 [of hi] by (auto simp: span_of_def)
  have "hi - lo + 1 = (of_nat (span_of lo hi) :: u16)"
    using assms(1) by (simp add: span_of_def of_nat_diff)
  then have "unat (hi - lo + 1) = span_of lo hi" using s by (simp add: unat_of_nat)
  then show "unat (ucast (hi - lo + 1 :: u16) :: u32) = span_of lo hi" using s by (simp add: unat_ucast_mod)
  show "0 < span_of lo hi" "span_of lo hi \<le> 65535" using s by auto
qed

definition port_at :: "u16 \<Rightarrow> u16 \<Rightarrow> nat \<Rightarrow> nat" where
  "port_at lo hi i = unat lo + i mod 65536 mod span_of lo hi"

lemma port_take_at:
  assumes "unat lo \<le> unat hi" "\<not> (unat lo = 0 \<and> unat hi = 65535)"
  shows "\<exists>x. port_take \<lparr>pp_next = lo + of_nat i, pp_lo = lo, pp_hi = hi\<rparr> =
      Some (x, \<lparr>pp_next = lo + of_nat (Suc i), pp_lo = lo, pp_hi = hi\<rparr>) \<and> unat x = port_at lo hi i"
proof -
  note s = span_word [OF assms]
  define sp :: u32 where "sp = ucast (hi - lo + 1)"
  have sp: "unat sp = span_of lo hi" using s(1) by (simp add: sp_def)
  then have nz: "sp \<noteq> 0" using s(2) by auto
  define d :: u32 where "d = ucast (of_nat i :: u16)"
  have d: "unat d = i mod 65536" by (simp add: d_def unat_ucast_mod unat_of_nat)
  have m: "unat (d mod sp) = i mod 65536 mod span_of lo hi" by (simp add: unat_mod d sp)
  have r: "i mod 65536 mod span_of lo hi < span_of lo hi" using s(2) by simp
  let ?x = "lo + (ucast (d mod sp) :: u16)"
  have "unat (ucast (d mod sp) :: u16) = i mod 65536 mod span_of lo hi"
    using m r s(3) by (simp add: unat_ucast_mod)
  moreover have "unat lo + n < 65536" if "n < span_of lo hi" for n
    using that assms(1) unat_u16 [of hi] unfolding span_of_def by linarith
  note this [OF r]
  ultimately have "unat ?x = port_at lo hi i" by (simp add: unat_word_ariths port_at_def)
  moreover have "lo + word_of_nat i + 1 = lo + (1 + word_of_nat i)" by (simp only: add.assoc) (simp only: add.commute)
  ultimately show ?thesis using nz by (simp add: port_take_def Let_def sp_def [symmetric] d_def)
qed

lemma ports_from:
  assumes "unat lo \<le> unat hi" "\<not> (unat lo = 0 \<and> unat hi = 65535)"
  shows "\<exists>xs. ports k \<lparr>pp_next = lo + of_nat i, pp_lo = lo, pp_hi = hi\<rparr> = Some xs \<and>
    map unat xs = map (port_at lo hi) [i..<i + k]"
proof (induction k arbitrary: i)
  case (Suc k)
  obtain x where x: "port_take \<lparr>pp_next = lo + of_nat i, pp_lo = lo, pp_hi = hi\<rparr> =
      Some (x, \<lparr>pp_next = lo + of_nat (Suc i), pp_lo = lo, pp_hi = hi\<rparr>)" "unat x = port_at lo hi i"
    using port_take_at [OF assms] by blast
  obtain xs where "ports k \<lparr>pp_next = lo + of_nat (Suc i), pp_lo = lo, pp_hi = hi\<rparr> = Some xs"
    "map unat xs = map (port_at lo hi) [Suc i..<Suc i + k]"
    using Suc.IH [of "Suc i"] by blast
  then show ?case using x by (simp add: upt_rec [of i])
qed simp

text \<open>The media ports: the pool never panics for a range that is not the whole port space, every
  port it hands out is inside the range, the \<open>i\<close>-th (from 0) is the first port plus \<open>i\<close> modulo \<open>2^16\<close>
  modulo the size of the range, and two takes less than a whole range apart get different ports when
  no multiple of \<open>2^16\<close> takes lies between them.\<close>

theorem ports_round_robin:
  assumes "unat lo \<le> unat hi" "\<not> (unat lo = 0 \<and> unat hi = 65535)"
  shows "\<exists>xs. ports k (PortPool_new lo hi) = Some xs \<and> length xs = k \<and>
    (\<forall>i < k. unat (xs ! i) = unat lo + i mod 65536 mod (unat hi + 1 - unat lo)) \<and>
    (\<forall>x \<in> set xs. unat lo \<le> unat x \<and> unat x \<le> unat hi) \<and>
    (\<forall>i < k. \<forall>j < k. i < j \<and> j < i + (unat hi + 1 - unat lo) \<and> i div 65536 = j div 65536 \<longrightarrow> xs ! i \<noteq> xs ! j)"
proof -
  obtain xs where xs: "ports k (PortPool_new lo hi) = Some xs" "map unat xs = map (port_at lo hi) [0..<k]"
    using ports_from [OF assms, of k 0] by (auto simp: PortPool_new_def)
  have len: "length xs = k" using arg_cong [OF xs(2), of length] by simp
  have at: "unat (xs ! i) = port_at lo hi i" if "i < k" for i
    using arg_cong [OF xs(2), of "\<lambda>l. l ! i"] that len by simp
  note s = span_word(2,3) [OF assms]
  have range: "unat lo \<le> port_at lo hi i \<and> port_at lo hi i \<le> unat hi" for i
  proof -
    define m where "m = i mod 65536 mod span_of lo hi"
    have "m < span_of lo hi" unfolding m_def by (rule mod_less_divisor [OF s(1)])
    then have "unat lo + m \<le> unat hi" using assms(1) unfolding span_of_def by linarith
    then show ?thesis by (simp add: port_at_def m_def)
  qed
  have diff: "xs ! i \<noteq> xs ! j"
    if ij: "i < k" "j < k" "i < j" "j < i + span_of lo hi" "i div 65536 = j div 65536" for i j
  proof
    assume "xs ! i = xs ! j"
    then have "port_at lo hi i = port_at lo hi j" using at [OF ij(1)] at [OF ij(2)] by simp
    then have e: "i mod 65536 mod span_of lo hi = j mod 65536 mod span_of lo hi" by (simp add: port_at_def)
    define a where "a = i mod 65536"
    define b where "b = j mod 65536"
    define q where "q = i div 65536"
    have i: "i = q * 65536 + a" using div_mult_mod_eq [of i 65536] by (simp only: a_def q_def)
    have j: "j = q * 65536 + b" using div_mult_mod_eq [of j 65536] ij(5) by (simp only: b_def q_def)
    have "a < b" "b < a + span_of lo hi" using ij(3,4) unfolding i j by simp_all
    moreover have "span_of lo hi dvd b - a"
      using e mod_eq_dvd_iff_nat [of a b "span_of lo hi"] \<open>a < b\<close> by (simp add: a_def b_def)
    ultimately show False using dvd_imp_le [of "span_of lo hi" "b - a"] by simp
  qed
  have rng: "\<forall>x \<in> set xs. unat lo \<le> unat x \<and> unat x \<le> unat hi"
    using range at len by (fastforce simp: in_set_conv_nth)
  show ?thesis using xs(1) len at rng diff by (auto simp: port_at_def span_of_def)
qed

lemma ports_round_robin_witness:
  "\<exists>xs. ports 2 (PortPool_new 40000 40999) = Some xs \<and> xs ! 0 \<noteq> xs ! 1"
  using ports_round_robin [of 40000 40999 2] by (auto simp: unat_numeral)

text \<open>The session ceiling does not keep a port from being handed out twice: with the media range of
  the program the takes number 65000 and 65536 get the same port, only 536 takes apart although the
  ceiling of concurrent sessions is 900; and takes 1000 apart always share their port within a block
  of \<open>2^16\<close>, however long the first session lives.\<close>

theorem port_reuse:
  shows "\<exists>xs. ports 65537 (PortPool_new 40000 40999) = Some xs \<and> xs ! 65000 = xs ! 65536 \<and>
    take 64536 (drop 1000 xs) = take 64536 xs"
proof -
  have lh: "unat (40000 :: u16) = 40000" "unat (40999 :: u16) = 40999" by simp_all
  obtain xs where xs: "ports 65537 (PortPool_new 40000 40999) = Some xs"
    "map unat xs = map (port_at 40000 40999) [0..<65537]"
    using ports_from [of 40000 40999 65537 0] by (auto simp: PortPool_new_def lh)
  have len: "length xs = 65537" using arg_cong [OF xs(2), of length] by simp
  have at: "unat (xs ! i) = 40000 + i mod 65536 mod 1000" if "i < 65537" for i
    using arg_cong [OF xs(2), of "\<lambda>l. l ! i"] that len by (simp add: port_at_def span_of_def lh)
  have "unat (xs ! 65000) = unat (xs ! 65536)" by (simp add: at)
  moreover have "unat (xs ! i) = unat (xs ! (i + 1000))" if "i + 1000 < 65536" for i
    using that by (simp add: at)
  ultimately have "xs ! 65000 = xs ! 65536" "\<And>i. i + 1000 < 65536 \<Longrightarrow> xs ! (1000 + i) = xs ! i"
    by (simp_all add: word_unat_eq_iff add.commute)
  moreover from this(2) have "take 64536 (drop 1000 xs) = take 64536 xs"
    by (intro nth_equalityI) (simp_all add: len)
  ultimately show ?thesis using xs(1) by blast
qed

section \<open>Inbound audio\<close>

lemma cut_frames_spec:
  assumes "n \<le> length pcm" "off \<le> n"
  shows "\<exists>k. concat (cut_frames pcm n off) = take (n - off) (drop off pcm) @ replicate k (Fin 0) \<and> k < FRAME_SAMPLES \<and>
    (\<forall>f \<in> set (cut_frames pcm n off). length f = FRAME_SAMPLES)"
  using assms
proof (induction pcm n off rule: cut_frames.induct)
  case (1 pcm n off)
  have F: "0 < FRAME_SAMPLES" by (simp add: FRAME_SAMPLES_def)
  show ?case
  proof (cases "off + FRAME_SAMPLES \<le> n")
    case True
    obtain k where k: "concat (cut_frames pcm n (off + FRAME_SAMPLES)) =
        take (n - (off + FRAME_SAMPLES)) (drop (off + FRAME_SAMPLES) pcm) @ replicate k (Fin 0)" "k < FRAME_SAMPLES"
      "\<forall>f \<in> set (cut_frames pcm n (off + FRAME_SAMPLES)). length f = FRAME_SAMPLES"
      using 1(1) [OF True 1(2) True] by blast
    have "take (n - off) (drop off pcm) =
        take FRAME_SAMPLES (drop off pcm) @ take (n - (off + FRAME_SAMPLES)) (drop (off + FRAME_SAMPLES) pcm)"
      using True take_add [of FRAME_SAMPLES "n - (off + FRAME_SAMPLES)" "drop off pcm"]
      by (simp add: add.commute)
    moreover have "length (take FRAME_SAMPLES (drop off pcm)) = FRAME_SAMPLES" using True 1(2) by simp
    ultimately show ?thesis
      using k True by (intro exI [of _ k]) (simp add: cut_frames.simps [of pcm n off])
  next
    case False
    show ?thesis
    proof (cases "off < n")
      case True
      then show ?thesis using False 1(2) F
        by (intro exI [of _ "FRAME_SAMPLES - (n - off)"]) (simp add: cut_frames.simps [of pcm n off])
    next
      case nf: False
      then have "off = n" using 1(3) by simp
      then show ?thesis using False F by (intro exI [of _ 0]) (simp add: cut_frames.simps [of pcm n n])
    qed
  qed
qed

text \<open>Decoded audio is cut into exact 20 ms frames without loss: for a packet of \<open>n\<close> samples every
  frame has 960 samples and the frames, put together, are the \<open>n\<close> samples followed by fewer than 960
  zeros.\<close>

theorem cut_frames_lossless:
  assumes "n \<le> length pcm"
  shows "(\<forall>f \<in> set (cut_frames pcm n 0). length f = 960) \<and>
    (\<exists>k < 960. concat (cut_frames pcm n 0) = take n pcm @ replicate k (Fin 0))"
  using cut_frames_spec [OF assms, of 0] by (auto simp: FRAME_SAMPLES_def)

lemma cut_frames_lossless_witness:
  "\<exists>k < 960. concat (cut_frames (replicate 5760 (Fin 1)) 2000 0) = replicate 2000 (Fin 1) @ replicate k (Fin 0)"
  using cut_frames_lossless [of 2000 "replicate 5760 (Fin 1)"] by simp

section \<open>The data channel\<close>

fun texts :: "channel_event list \<Rightarrow> string list" where
  "texts [] = []"
| "texts (evt # evts) =
     (case evt of
        OnMessage is_string text \<Rightarrow> (if is_string then (case text of None \<Rightarrow> [] | Some t \<Rightarrow> [t]) else []) @ texts evts
      | OnClose \<Rightarrow> [] | OnError \<Rightarrow> [] | OtherChannelEvent \<Rightarrow> texts evts)"

definition parsed :: "(string \<Rightarrow> (string, json) result) \<Rightarrow> string list \<Rightarrow> json list" where
  "parsed from_str ts = List.map_filter (\<lambda>t. case from_str t of Inl _ \<Rightarrow> None | Inr v \<Rightarrow> Some v) ts"

lemma channel_loop_fold:
  "channel_loop from_str evts s = fold (\<lambda>v. apply_data (viewer_data_of_value v)) (parsed from_str (texts evts)) s"
  by (induction evts arbitrary: s)
    (auto simp: parsed_def viewer_data_parse_def List.map_filter_simps map_filter_append split: channel_event.split option.split sum.split)

text \<open>C21. A hostile data channel cannot take a session out of its invariant: whatever the viewer sends,
  in whatever order (binary, malformed, not UTF-8, after an error), the session that results from a fresh
  one is the one the well-formed texts before the first close give, and it satisfies the bounds of the
  data channel. The JSON parser is only assumed not to produce an infinite or NaN number.\<close>

theorem channel_loop_safe:
  assumes "\<And>t v. from_str t = Inr v \<Longrightarrow> json_finite v"
  shows "channel_loop from_str evts (Session_new i a r sp) =
      fold (\<lambda>v. apply_data (viewer_data_of_value v)) (parsed from_str (texts evts)) (Session_new i a r sp) \<and>
    session_ok (channel_loop from_str evts (Session_new i a r sp))"
proof -
  have f: "\<forall>v \<in> set (parsed from_str (texts evts)). json_finite v"
    using assms by (auto simp: parsed_def set_map_filter split: sum.split_asm)
  have "session_ok s \<Longrightarrow> \<forall>v \<in> set vs. json_finite v \<Longrightarrow>
      session_ok (fold (\<lambda>v. apply_data (viewer_data_of_value v)) vs s)" for s vs
    by (induction vs arbitrary: s) (simp_all add: apply_data_ok parsed_data_ok)
  from this [OF Session_new_ok f] show ?thesis by (simp add: channel_loop_fold)
qed

lemma channel_loop_safe_witness:
  "session_ok (channel_loop (\<lambda>t. if t = [] then Inl ''eof'' else Inr JNull)
     [OnMessage False (Some ''x''), OnMessage True None, OnMessage True (Some []), OnMessage True (Some ''y''), OnError]
     (Session_new ''s'' ''a'' (Channel ''c'') True))"
  by (rule channel_loop_safe [THEN conjunct2]) (auto split: if_splits)

section \<open>Outbound audio\<close>

fun send_all ::
    "'e encode \<Rightarrow> (packet \<Rightarrow> (string, unit) result) \<Rightarrow> fp list list \<Rightarrow> 'e endpoint \<Rightarrow> packet list \<times> 'e endpoint" where
  "send_all enc wr [] ep = ([], ep)"
| "send_all enc wr (f # fs) ep =
     (let (ep, pk, _) = send_mix enc wr f ep; (pks, ep) = send_all enc wr fs ep
      in ((case pk of None \<Rightarrow> [] | Some p \<Rightarrow> [p]) @ pks, ep))"

lemma send_mix_steps:
  "send_mix enc wr f ep = (ep', pk, r) \<Longrightarrow>
     ep_out_ssrc ep' = ep_out_ssrc ep \<and> ep_out_pt ep' = ep_out_pt ep \<and> ep_session ep' = ep_session ep \<and> ep_dc ep' = ep_dc ep \<and>
     (case pk of None \<Rightarrow> ep_packet_timestamp ep' = ep_packet_timestamp ep \<and> (\<exists>e. r = Inl e)
      | Some p \<Rightarrow> pk_timestamp p = ep_packet_timestamp ep \<and> pk_ssrc p = ep_out_ssrc ep \<and> pk_pt p = ep_out_pt ep \<and>
          ep_packet_timestamp ep' = ep_packet_timestamp ep + 960)"
  by (auto simp: send_mix_def Let_def FRAME_SAMPLES_def split: prod.splits sum.splits)

text \<open>C27. The RTP clock of a listener has no gaps: over any sequence of frames, whatever fails in the
  encoder or the network, the packets handed to the transport carry the endpoint's SSRC and payload
  type and timestamps that advance by exactly 960 per packet, modulo \<open>2^32\<close>; a frame the encoder
  refuses does not advance the clock.\<close>

theorem rtp_clock:
  assumes "send_all enc wr fs ep = (pks, ep')"
  shows "(\<forall>i < length pks. pk_timestamp (pks ! i) = ep_packet_timestamp ep + of_nat (960 * i) \<and>
      pk_ssrc (pks ! i) = ep_out_ssrc ep \<and> pk_pt (pks ! i) = ep_out_pt ep) \<and>
    ep_packet_timestamp ep' = ep_packet_timestamp ep + of_nat (960 * length pks) \<and> length pks \<le> length fs"
  using assms
proof (induction fs arbitrary: ep pks)
  case (Cons f fs)
  obtain ep1 pk r where s: "send_mix enc wr f ep = (ep1, pk, r)" by (metis surj_pair)
  obtain pks1 where a: "send_all enc wr fs ep1 = (pks1, ep')" "pks = (case pk of None \<Rightarrow> [] | Some p \<Rightarrow> [p]) @ pks1"
    using Cons.prems s by (auto split: prod.splits)
  note m = send_mix_steps [OF s]
  note IH = Cons.IH [OF a(1)]
  show ?case
  proof (cases pk)
    case None
    then show ?thesis using IH m a(2) by auto
  next
    case (Some p)
    have "pk_timestamp (pks ! i) = ep_packet_timestamp ep + of_nat (960 * i) \<and>
      pk_ssrc (pks ! i) = ep_out_ssrc ep \<and> pk_pt (pks ! i) = ep_out_pt ep" if "i < length pks" for i
      using that IH m a(2) Some by (cases i) (auto simp: algebra_simps)
    moreover have "ep_packet_timestamp ep' = ep_packet_timestamp ep + of_nat (960 * length pks)"
      using IH m a(2) Some by (simp add: algebra_simps)
    ultimately show ?thesis using IH a(2) Some by simp
  qed
qed simp


lemma rtp_clock_witness:
  "\<exists>pks ep'. send_all (\<lambda>e f. (e, if f = [] then Inl ''empty'' else Inr [1])) (\<lambda>_. Inr ())
      [[Fin 0], [], [Fin 1]] \<lparr>ep_session = 0, ep_out_ssrc = 7, ep_out_pt = 111, ep_dc = None, ep_encoder = (), ep_packet_timestamp = 4294967000, ep_port = 40000\<rparr>
      = (pks, ep') \<and> ep_packet_timestamp ep' = 4294967000 + of_nat (960 * length pks)"
proof -
  let ?ep = "\<lparr>ep_session = 0, ep_out_ssrc = 7, ep_out_pt = 111, ep_dc = None, ep_encoder = (), ep_packet_timestamp = 4294967000, ep_port = 40000\<rparr>"
  obtain pks ep' where s: "send_all (\<lambda>e f. (e, if f = [] then Inl ''empty'' else Inr [1])) (\<lambda>_. Inr ()) [[Fin 0], [], [Fin 1]] ?ep = (pks, ep')"
    by (metis surj_pair)
  from rtp_clock [OF s] show ?thesis using s by simp
qed

text \<open>SSRCs and RTP start values are never 0: they are odd, for any clock reading and any state of
  the counter, including one that has wrapped.\<close>

theorem rand_u32_odd: "fst (rand_u32 counter t) \<noteq> 0 \<and> odd (fst (rand_u32 counter t))"
proof -
  have "bit (fst (rand_u32 counter t)) 0" by (simp add: rand_u32_def bit_or_iff bit_1_iff)
  then show ?thesis by (auto simp: bit_0)
qed

section \<open>The negotiated payload type\<close>

text \<open>A line that the scan passes over: not an rtpmap, or a well-formed rtpmap of another codec.\<close>

definition other_line :: "string \<Rightarrow> bool" where
  "other_line l \<longleftrightarrow> (case strip_prefix (trim l) ''a=rtpmap:'' of None \<Rightarrow> True
     | Some rest \<Rightarrow> (case split_once (CHR '' '') rest of None \<Rightarrow> False
         | Some (pt, codec) \<Rightarrow> \<not> prefix ''opus/'' (to_ascii_lowercase codec)))"

lemma opus_pt_skip: "\<forall>l \<in> set ls. other_line l \<Longrightarrow> opus_pt_lines (ls @ ms) = opus_pt_lines ms"
  by (induction ls) (auto simp: other_line_def split: option.splits prod.splits)

lemma opus_pt_lines_Some:
  "opus_pt_lines ls = Some n \<Longrightarrow> \<exists>us l vs rest pt codec. ls = us @ l # vs \<and> (\<forall>u \<in> set us. other_line u) \<and>
     strip_prefix (trim l) ''a=rtpmap:'' = Some rest \<and> split_once (CHR '' '') rest = Some (pt, codec) \<and>
     prefix ''opus/'' (to_ascii_lowercase codec) \<and> parse_u8 pt = Some n"
proof (induction ls)
  case (Cons l ls)
  show ?case
  proof (cases "other_line l")
    case True
    then have "opus_pt_lines ls = Some n" using Cons.prems opus_pt_skip [of "[l]" ls] by simp
    from Cons.IH [OF this] obtain us m vs rest pt codec where h: "ls = us @ m # vs" "\<forall>u \<in> set us. other_line u"
     "strip_prefix (trim m) ''a=rtpmap:'' = Some rest" "split_once (CHR '' '') rest = Some (pt, codec)"
     "prefix ''opus/'' (to_ascii_lowercase codec)" "parse_u8 pt = Some n" by blast
    then have "l # ls = (l # us) @ m # vs" "\<forall>u \<in> set (l # us). other_line u" using True by simp_all
    then show ?thesis using h(3-6) by blast
  next
    case False
    then obtain rest where r: "strip_prefix (trim l) ''a=rtpmap:'' = Some rest"
      by (cases "strip_prefix (trim l) ''a=rtpmap:''") (auto simp: other_line_def)
    then obtain pt codec where s: "split_once (CHR '' '') rest = Some (pt, codec)"
      using Cons.prems by (cases "split_once (CHR '' '') rest") auto
    then have p: "prefix ''opus/'' (to_ascii_lowercase codec)" using False r by (simp add: other_line_def)
    then have "parse_u8 pt = Some n" using Cons.prems r s by simp
    moreover have "l # ls = [] @ l # ls" by simp
    moreover have "\<forall>u \<in> set []. other_line u" by simp
    ultimately show ?thesis using r s p by blast
  qed
qed simp

lemma dec_no_space: "CHR '' '' \<notin> set (dec n)"
proof (induction n rule: dec.induct)
  case (1 n)
  have "CHR '' '' \<noteq> digit_char d" if "d < 10" for d
  proof -
    have "\<not> is_digit (CHR '' '')" by (simp add: is_digit_def byte_of_def)
    then show ?thesis using digit_char_inverse(1) [OF that] by metis
  qed
  then have "CHR '' '' \<noteq> digit_char (n mod 10)" "n < 10 \<Longrightarrow> CHR '' '' \<noteq> digit_char n" by simp_all
  then show ?case using 1 by (cases "n < 10") (simp_all add: dec.simps [of n])
qed

lemma split_once_append: "c \<notin> set a \<Longrightarrow> split_once c (a @ c # b) = Some (a, b)"
  by (induction a) auto

lemma dec_nonempty: "dec n \<noteq> []"
  using length_dec_pos [of n] by auto

lemma dec_hd_digit: "is_digit (hd (dec n))"
proof (induction n rule: dec.induct)
  case (1 n)
  then show ?case by (cases "n < 10") (simp_all add: dec.simps [of n] digit_char_inverse hd_append dec_nonempty)
qed

lemma parse_u8_dec: "n \<le> 255 \<Longrightarrow> parse_u8 (dec n) = Some (of_nat n)"
proof -
  have "hd (dec n) \<noteq> CHR ''+''" using dec_hd_digit [of n] by (auto simp: is_digit_def byte_of_def)
  moreover note dec_nonempty [of n]
  ultimately show "n \<le> 255 \<Longrightarrow> ?thesis" by (simp add: parse_u8_def Let_def read_digits_dec)
qed

text \<open>The payload type is read from the right line: what the scan of an answer returns is the number
  of the first rtpmap line of an Opus codec (in any letter case), all lines before it being other
  lines or well-formed rtpmaps of other codecs; and the number written in such a line is read back.\<close>

theorem negotiated_pt_sound:
  "(\<forall>n. negotiated_opus_pt sdp = Some n \<longrightarrow>
     (\<exists>us l vs rest pt codec. lines sdp = us @ l # vs \<and> (\<forall>u \<in> set us. other_line u) \<and>
       strip_prefix (trim l) ''a=rtpmap:'' = Some rest \<and> split_once (CHR '' '') rest = Some (pt, codec) \<and>
       prefix ''opus/'' (to_ascii_lowercase codec) \<and> parse_u8 pt = Some n)) \<and>
   (\<forall>us l vs codec n. lines sdp = us @ l # vs \<and> (\<forall>u \<in> set us. other_line u) \<and>
       trim l = ''a=rtpmap:'' @ dec n @ '' '' @ codec \<and> prefix ''opus/'' (to_ascii_lowercase codec) \<and> n \<le> 255 \<longrightarrow>
     negotiated_opus_pt sdp = Some (of_nat n))"
proof (intro conjI allI impI)
  fix n assume "negotiated_opus_pt sdp = Some n"
  then show "\<exists>us l vs rest pt codec. lines sdp = us @ l # vs \<and> (\<forall>u \<in> set us. other_line u) \<and>
       strip_prefix (trim l) ''a=rtpmap:'' = Some rest \<and> split_once (CHR '' '') rest = Some (pt, codec) \<and>
       prefix ''opus/'' (to_ascii_lowercase codec) \<and> parse_u8 pt = Some n"
    unfolding negotiated_opus_pt_def by (rule opus_pt_lines_Some)
next
  fix us l vs codec n
  assume h: "lines sdp = us @ l # vs \<and> (\<forall>u \<in> set us. other_line u) \<and>
       trim l = ''a=rtpmap:'' @ dec n @ '' '' @ codec \<and> prefix ''opus/'' (to_ascii_lowercase codec) \<and> n \<le> 255"
  have "strip_prefix (''a=rtpmap:'' @ x) ''a=rtpmap:'' = Some x" for x by (simp add: strip_prefix_def)
  then have "strip_prefix (trim l) ''a=rtpmap:'' = Some (dec n @ CHR '' '' # codec)" using h by simp
  then have "opus_pt_lines (l # vs) = Some (of_nat n)"
    using h by (simp add: split_once_append [OF dec_no_space] parse_u8_dec)
  then show "negotiated_opus_pt sdp = Some (of_nat n)"
    using h opus_pt_skip [of us "l # vs"] by (simp add: negotiated_opus_pt_def)
qed


lemma negotiated_pt_sound_witness:
  "negotiated_opus_pt ''a=rtpmap:96 OPUS/48000/2'' = Some 96"
proof -
  have l: "lines ''a=rtpmap:96 OPUS/48000/2'' = [] @ ''a=rtpmap:96 OPUS/48000/2'' # []" by code_simp
  have t: "trim ''a=rtpmap:96 OPUS/48000/2'' = ''a=rtpmap:'' @ dec 96 @ '' '' @ ''OPUS/48000/2''" by code_simp
  have p: "prefix ''opus/'' (to_ascii_lowercase ''OPUS/48000/2'')" by code_simp
  show ?thesis
    using negotiated_pt_sound [of "''a=rtpmap:96 OPUS/48000/2''", THEN conjunct2, rule_format, of "[]" _ "[]" 96 "''OPUS/48000/2''"] l t p
    by simp
qed

section \<open>Bring-up\<close>

lemma gather_wait_steps:
  assumes "\<forall>j < n. \<not> flag (i + j) \<and> elapsed (i + j) < GATHER_TIMEOUT_MS" "flag (i + n) \<or> GATHER_TIMEOUT_MS \<le> elapsed (i + n)"
  shows "gather_wait flag elapsed i = Some (i + n)"
  using assms
proof (induction n arbitrary: i)
  case 0
  then show ?case by (subst gather_wait.simps) auto
next
  case (Suc n)
  have "gather_wait flag elapsed (i + 1) = Some (i + 1 + n)" using Suc.prems by (intro Suc.IH) (force, simp)
  moreover have "\<not> flag i \<and> elapsed i < GATHER_TIMEOUT_MS" using Suc.prems(1) by force
  ultimately show ?case by (subst gather_wait.simps) simp
qed

lemma gather_returns:
  assumes "\<And>i. 20 * i \<le> elapsed i"
  shows "\<exists>n \<le> 125. gather_wait flag elapsed 0 = Some n \<and> (flag n \<or> GATHER_TIMEOUT_MS \<le> elapsed n) \<and> (\<forall>j < n. \<not> flag j \<and> elapsed j < GATHER_TIMEOUT_MS)"
proof -
  let ?P = "\<lambda>n. flag n \<or> GATHER_TIMEOUT_MS \<le> elapsed n"
  have p: "?P 125" using assms [of 125] by (simp add: GATHER_TIMEOUT_MS_def)
  define n where "n = (LEAST n. ?P n)"
  have n: "?P n" "n \<le> 125" unfolding n_def using p by (rule LeastI, rule Least_le)
  have l: "\<not> ?P j" if "j < n" for j using not_less_Least that unfolding n_def by blast
  have "gather_wait flag elapsed 0 = Some (0 + n)" using n l by (intro gather_wait_steps) (auto simp: not_le)
  then show ?thesis using n l by (auto simp: not_le)
qed

text \<open>C38. Provisioning cannot hang in ICE gathering: since each poll sleeps 20 ms, the loop returns
  after at most 125 polls, and it returns at the first poll that finds gathering complete or the 2.5 s
  deadline passed: at every earlier poll gathering was not complete and the clock was before the deadline.\<close>

theorem gather_wait_terminates:
  assumes "\<And>i. 20 * i \<le> elapsed i"
  shows "\<exists>n \<le> 125. gather_wait flag elapsed 0 = Some n \<and> (flag n \<or> 2500 \<le> elapsed n) \<and> (\<forall>j < n. \<not> flag j \<and> elapsed j < 2500)"
  using gather_returns [of elapsed flag] assms by (simp add: GATHER_TIMEOUT_MS_def)

lemma gather_wait_terminates_witness:
  "\<exists>n \<le> 125. gather_wait (\<lambda>i. i = 3) (\<lambda>i. 21 * i) 0 = Some n \<and> (n = 3 \<or> 2500 \<le> 21 * n)"
  using gather_wait_terminates [of "\<lambda>i. 21 * i" "\<lambda>i. i = 3"] by auto

lemma map_err_Inr_iff: "map_err w r = Inr x \<longleftrightarrow> r = Inr x"
  by (simp add: map_err_def split: sum.split)

text \<open>The error of the first of some calls that fails, with the name it is reported under.\<close>

fun first_error :: "(string \<times> (string, unit) result) list \<Rightarrow> string option" where
  "first_error [] = None"
| "first_error ((what, Inl e) # rs) = Some (what @ '': '' @ e)"
| "first_error ((what, Inr _) # rs) = first_error rs"

text \<open>C26. Bringing up a connection is all or nothing: with a clock that advances, \<open>establish\<close> returns,
  and it returns an endpoint exactly when every call it makes succeeds. Otherwise it returns the error of the
  first call that fails, in the order of the code, under the name of that call. An endpoint belongs to the
  session and the port, has the encoder that was created and an SSRC that is not 0, and sends with the payload
  type that the local description assigns to Opus, or 111 if it assigns none.\<close>

theorem establish_all_or_nothing:
  assumes "\<And>i. 20 * i \<le> x_elapsed X i"
  shows "\<exists>r k. establish X counter a sid offer ip port = Some (r, k) \<and>
    ((\<exists>ep. r = Inr ep) \<longleftrightarrow>
       x_register_codec X (opus_codec (x_mime_opus X)) 111 = Inr () \<and> x_interceptors X = Inr () \<and>
       x_track X (''wolfvoice-'' @ sid) (''wolfvoice-mix-'' @ sid) (fst (rand_u32 counter (x_nanos1 X))) (opus_codec (x_mime_opus X)) = Inr () \<and>
       x_build X (ip @ '':'' @ show_int (uint port)) = Inr () \<and> x_add_track X = Inr () \<and> x_parse_offer X offer = Inr () \<and>
       x_set_remote X = Inr () \<and> x_create_answer X = Inr () \<and> x_set_local X = Inr () \<and>
       x_local_description X \<noteq> None \<and> (\<exists>enc. x_encoder X = Inr enc)) \<and>
    (case first_error
         [(''register_codec'', x_register_codec X (opus_codec (x_mime_opus X)) 111), (''interceptors'', x_interceptors X),
          (''TrackLocalStaticSample'', x_track X (''wolfvoice-'' @ sid) (''wolfvoice-mix-'' @ sid)
             (fst (rand_u32 counter (x_nanos1 X))) (opus_codec (x_mime_opus X))),
          (''peer connection build'', x_build X (ip @ '':'' @ show_int (uint port))), (''add_track'', x_add_track X),
          (''parse offer'', x_parse_offer X offer), (''set_remote_description'', x_set_remote X),
          (''create_answer'', x_create_answer X), (''set_local_description'', x_set_local X)] of
       Some e \<Rightarrow> r = Inl e
     | None \<Rightarrow> (case x_local_description X of
         None \<Rightarrow> r = Inl ''no local description after set_local_description''
       | Some sdp \<Rightarrow> (case x_encoder X of
           Inl e \<Rightarrow> r = Inl (''opus encoder: '' @ e)
         | Inr enc \<Rightarrow> (\<exists>ep. r = Inr ep \<and> ep_encoder ep = enc)))) \<and>
    (\<forall>ep. r = Inr ep \<longrightarrow> ep_session ep = a \<and> ep_port ep = port \<and> ep_out_ssrc ep \<noteq> 0 \<and>
       (\<exists>sdp. x_local_description X = Some sdp \<and> ep_out_pt ep = unwrap_or (negotiated_opus_pt sdp) 111))"
proof -
  obtain n where g: "gather_wait (x_gathered X) (x_elapsed X) 0 = Some n" using gather_returns assms by blast
  obtain s1 k1 where r1: "rand_u32 counter (x_nanos1 X) = (s1, k1)" by fastforce
  have s1: "s1 \<noteq> 0"
  proof -
    have "bit (fst (rand_u32 counter (x_nanos1 X))) 0" by (simp add: rand_u32_def bit_or_iff bit_1_iff)
    then show ?thesis using r1 by auto
  qed
  obtain s2 k2 where r2: "rand_u32 k1 (x_nanos2 X) = (s2, k2)" by fastforce
  show ?thesis
    using s1
    by (simp add: establish_def r1 r2 g res_bind_def map_err_def ok_or_def OPUS_PT_PREFERRED_def split: sum.split option.split)
qed


text \<open>A stack in which every call succeeds and gathering completes at the third poll.\<close>

definition working_rtc :: "unit rtc" where
  "working_rtc =
     \<lparr>x_mime_opus = ''audio/opus'', x_register_codec = (\<lambda>_ _. Inr ()), x_interceptors = Inr (), x_track = (\<lambda>_ _ _ _. Inr ()), x_build = (\<lambda>_. Inr ()),
      x_add_track = Inr (), x_parse_offer = (\<lambda>_. Inr ()), x_set_remote = Inr (), x_create_answer = Inr (),
      x_set_local = Inr (), x_gathered = (\<lambda>i. 3 \<le> i), x_elapsed = (\<lambda>i. 21 * i), x_local_description = Some ''v=0'',
      x_encoder = Inr (), x_answer_sdp = Some ''v=0'', x_dc = None, x_nanos1 = 5, x_nanos2 = 6\<rparr>"

lemma establish_all_or_nothing_witness:
  "\<exists>ep k. establish working_rtc 0 1 ''wv-1'' ''v=0'' ''203.0.113.10'' 40000 = Some (Inr ep, k) \<and> ep_session ep = 1 \<and> ep_out_ssrc ep \<noteq> 0"
proof -
  have "20 * i \<le> x_elapsed working_rtc i" for i by (simp add: working_rtc_def)
  from establish_all_or_nothing [OF this, of 0 1 "''wv-1''" "''v=0''" "''203.0.113.10''" 40000]
  obtain r k where e: "establish working_rtc 0 1 ''wv-1'' ''v=0'' ''203.0.113.10'' 40000 = Some (r, k)"
    and "\<exists>ep. r = Inr ep" and r: "\<forall>ep. r = Inr ep \<longrightarrow> ep_session ep = 1 \<and> ep_out_ssrc ep \<noteq> 0"
    by (auto simp: working_rtc_def)
  then show ?thesis by auto
qed

end
