(* ===== verification/App.thy ===== *)
theory App
  imports Transport
begin

text \<open>
  \<open>src/src/main.rs\<close>: the application state and everything that acts on it: tearing a session down,
  the two JSON-RPC methods, the HTTP front with its body limits, the admin interface, the mixer loop
  and the start-up checks. The state is the record \<open>app\<close>; what the program does to the outside
  (closing a peer connection, sending a text or a packet, handing over a candidate) is appended to its
  trace. Each handler is the sequential composition of the code; how handlers interleave at their
  \<open>await\<close> points is the theory Interleaving.
\<close>

section \<open>State\<close>

definition MEDIA_PORT_LO :: u16 where "MEDIA_PORT_LO = 40000"
definition MEDIA_PORT_HI :: u16 where "MEDIA_PORT_HI = 40999"
definition MAX_RPC_BODY :: nat where "MAX_RPC_BODY = 256 * 1024"
definition MAX_ADMIN_BODY :: nat where "MAX_ADMIN_BODY = 4096"
definition MAX_SESSIONS :: nat where "MAX_SESSIONS = 900"

datatype effect = ClosePc string | SendText string nat string | SendPacket string packet | AddIce string ice_init

record 'e app =
  ap_store :: store
  ap_next :: arc
  ap_sessions :: registry
  ap_endpoints :: "(string, 'e endpoint) hmap"
  ap_ports :: port_pool
  ap_public_ip :: string
  ap_counter :: u32
  ap_trace :: "effect list"

definition app_new :: "string \<Rightarrow> 'e app" where
  "app_new public_ip =
     \<lparr>ap_store = (\<lambda>_. Session_new '''' '''' (Channel '''') False), ap_next = 0, ap_sessions = registry_default,
      ap_endpoints = hm_empty, ap_ports = PortPool_new MEDIA_PORT_LO MEDIA_PORT_HI, ap_public_ip = public_ip,
      ap_counter = 0, ap_trace = []\<rparr>"

definition app_endpoint :: "string \<Rightarrow> 'e app \<Rightarrow> 'e endpoint option" where
  "app_endpoint sid app = hm_get (ap_endpoints app) sid"

section \<open>Tearing down\<close>

definition notices :: "(json \<Rightarrow> string) \<Rightarrow> session \<Rightarrow> 'e app \<Rightarrow> effect list" where
  "notices ser gone app =
     (let remaining = reg_members (ap_sessions app) (s_room gone)
      in if \<exists>m \<in> set remaining. s_agent_id (ap_store app m) = s_agent_id gone then []
         else List.map_filter (\<lambda>m. let sid = s_id (ap_store app m) in
                case app_endpoint sid app of
                  None \<Rightarrow> None
                | Some ep \<Rightarrow>
                    if data_channel_open ep
                    then map_option (\<lambda>(dc, text). SendText sid dc text) (send_roster (leave_json ser (s_agent_id gone)) ep)
                    else None) remaining)"

definition drop_session :: "(json \<Rightarrow> string) \<Rightarrow> string \<Rightarrow> 'e app \<Rightarrow> 'e app" where
  "drop_session ser sid app =
     (let ep = app_endpoint sid app;
          app = app\<lparr>ap_endpoints := hm_remove sid (ap_endpoints app)\<rparr>;
          ((st, reg), gone) = reg_remove sid (ap_store app, ap_sessions app);
          app = app\<lparr>ap_store := st, ap_sessions := reg\<rparr>;
          app = (case ep of None \<Rightarrow> app | Some _ \<Rightarrow> app\<lparr>ap_trace := ap_trace app @ [ClosePc sid]\<rparr>)
      in case gone of
           None \<Rightarrow> app
         | Some a \<Rightarrow> app\<lparr>ap_trace := ap_trace app @ notices ser (ap_store app a) app\<rparr>)"

section \<open>The JSON-RPC methods\<close>

definition room_for :: "rpc_params \<Rightarrow> provision_request \<Rightarrow> (string, room_key \<times> bool) result" where
  "room_for params req =
     (case unwrap_or (pr_channel_type req) Local of
        Local \<Rightarrow> Inr (Spatial (rp_scene params) (pr_parcel_local_id req), True)
      | MultiAgent \<Rightarrow> res_bind (ok_or (pr_channel req) ''multiagent request without a channel'')
                       (\<lambda>channel. Inr (Channel channel, False)))"

text \<open>The part of \<open>provision\<close> after the checks. \<open>uuid\<close> is the fresh identifier. \<open>None\<close> is a panic of the
  port pool or a gathering loop that never returns.\<close>

definition connect ::
    "'e rtc \<Rightarrow> string \<Rightarrow> rpc_params \<Rightarrow> room_key \<Rightarrow> bool \<Rightarrow> string \<Rightarrow> 'e app \<Rightarrow> ((string, json) result \<times> 'e app) option" where
  "connect X uuid params room spatial offer app =
     (let sid = ''wv-'' @ uuid; a = ap_next app;
          app = app\<lparr>ap_store := (ap_store app)(a := Session_new sid (rp_user_id params) room spatial), ap_next := a + 1\<rparr>
      in Option.bind (port_take (ap_ports app)) (\<lambda>(port, pool).
         let app = app\<lparr>ap_ports := pool\<rparr>
         in map_option (\<lambda>(r, counter).
              let app = app\<lparr>ap_counter := counter\<rparr>
              in case r of
                   Inl e \<Rightarrow> (Inl e, app)
                 | Inr ep \<Rightarrow>
                     (case answer_sdp X of
                        None \<Rightarrow> (Inl ''no answer sdp'', app)
                      | Some sdp \<Rightarrow>
                          (Inr (provision_answer sid sdp),
                           app\<lparr>ap_endpoints := hm_insert sid ep (ap_endpoints app),
                               ap_sessions := reg_insert (ap_store app) a (ap_sessions app)\<rparr>)))
              (establish X (ap_counter app) a sid offer (ap_public_ip app) port)))"

definition provision ::
    "(string \<Rightarrow> string) \<Rightarrow> (json \<Rightarrow> string) \<Rightarrow> 'e rtc \<Rightarrow> string \<Rightarrow> rpc_params \<Rightarrow> 'e app
       \<Rightarrow> ((string, json) result \<times> 'e app) option" where
  "provision dbg ser X uuid params app =
     (case provision_parse dbg (rp_request params) of
        Inl e \<Rightarrow> Some (Inl e, app)
      | Inr req \<Rightarrow>
        if pr_logout req
        then (case pr_viewer_session req of
                None \<Rightarrow> Some (Inl ''logout without viewer_session'', app)
              | Some sid \<Rightarrow> Some (Inr (json_obj [(''viewer_session'', JStr sid)]), drop_session ser sid app))
        else (case pr_offer_sdp req of
                None \<Rightarrow> Some (Inl ''provision without a jsep offer'', app)
              | Some offer \<Rightarrow>
                  let app = (case pr_viewer_session req of
                               None \<Rightarrow> app
                             | Some existing \<Rightarrow>
                                 if app_endpoint existing app \<noteq> None then drop_session ser existing app else app)
                  in if MAX_SESSIONS \<le> session_count (ap_sessions app)
                     then Some (Inl ''voice service is at capacity'', app)
                     else if rp_user_id params = ''''
                     then Some (Inl ''region did not supply userID'', app)
                     else (case room_for params req of
                             Inl e \<Rightarrow> Some (Inl e, app)
                           | Inr (room, spatial) \<Rightarrow> connect X uuid params room spatial offer app)))"

definition signaling ::
    "rpc_params \<Rightarrow> 'e app \<Rightarrow> (string, json) result \<times> 'e app" where
  "signaling params app =
     (let req = signaling_parse (rp_request params)
      in case sg_viewer_session req of
           None \<Rightarrow> (Inl ''signaling without viewer_session'', app)
         | Some sid \<Rightarrow>
             (case app_endpoint sid app of
                None \<Rightarrow> (Inl (''unknown viewer_session '' @ sid), app)
              | Some ep \<Rightarrow>
                  (Inr (json_obj [(''viewer_session'', JStr sid)]),
                   app\<lparr>ap_trace := ap_trace app @
                     map (\<lambda>c. AddIce sid \<lparr>ii_candidate = ic_candidate c, ii_sdp_mid = ic_sdp_mid c,
                          ii_sdp_mline_index = ic_sdp_mline_index c, ii_username_fragment = None, ii_url = None\<rparr>)
                       (sg_candidates req)\<rparr>)))"

section \<open>HTTP\<close>

datatype http_method = GET | POST | OtherMethod

text \<open>A response: status, content type, and the value whose rendering is the body (\<open>None\<close>: empty).\<close>

record response =
  rs_status :: nat
  rs_content_type :: "string option"
  rs_body :: "json option"

definition json_body :: "nat \<Rightarrow> json \<Rightarrow> response" where
  "json_body status v = \<lparr>rs_status = status, rs_content_type = Some ''application/json'', rs_body = Some v\<rparr>"

definition json_200 :: "json \<Rightarrow> response" where
  "json_200 v = json_body 200 v"

text \<open>Reading a body chunk by chunk: a transport error, a body over the limit (\<open>Inr None\<close>), or the
  whole body.\<close>

fun read_body :: "nat \<Rightarrow> string \<Rightarrow> ('h, string) result list \<Rightarrow> ('h, string option) result" where
  "read_body limit whole [] = Inr (Some whole)"
| "read_body limit whole (Inl e # chunks) = Inl e"
| "read_body limit whole (Inr chunk # chunks) =
     (if limit < length whole + length chunk then Inr None else read_body limit (whole @ chunk) chunks)"

definition rpc_dispatch ::
    "(string \<Rightarrow> string) \<Rightarrow> (json \<Rightarrow> string) \<Rightarrow> 'e rtc \<Rightarrow> string \<Rightarrow> rpc_request \<Rightarrow> 'e app
       \<Rightarrow> ((string, json) result \<times> 'e app) option" where
  "rpc_dispatch dbg ser X uuid rq app =
     (if rq_method rq = METHOD_PROVISION then provision dbg ser X uuid (rq_params rq) app
      else if rq_method rq = METHOD_SIGNALING then Some (signaling (rq_params rq) app)
      else Some (Inl (''unknown method '' @ dbg (rq_method rq)), app))"

definition rpc_response ::
    "(string \<Rightarrow> string) \<Rightarrow> (json \<Rightarrow> string) \<Rightarrow> (string \<Rightarrow> (string, rpc_request) result) \<Rightarrow> 'e rtc \<Rightarrow> string
       \<Rightarrow> string \<Rightarrow> 'e app \<Rightarrow> (response \<times> 'e app) option" where
  "rpc_response dbg ser from_slice X uuid body app =
     (case from_slice body of
        Inl e \<Rightarrow> Some (json_200 (rpc_err JNull (''bad json-rpc: '' @ e)), app)
      | Inr rq \<Rightarrow>
          map_option (\<lambda>(r, app). case r of
              Inr v \<Rightarrow> (json_200 (rpc_ok (rq_id rq) v), app)
            | Inl e \<Rightarrow> (json_200 (rpc_err (rq_id rq) e), app))
            (rpc_dispatch dbg ser X uuid rq app))"

definition handle ::
    "(string \<Rightarrow> string) \<Rightarrow> (json \<Rightarrow> string) \<Rightarrow> (string \<Rightarrow> (string, rpc_request) result) \<Rightarrow> 'e rtc \<Rightarrow> string
       \<Rightarrow> http_method \<Rightarrow> ('h, string) result list \<Rightarrow> 'e app \<Rightarrow> (('h, response) result \<times> 'e app) option" where
  "handle dbg ser from_slice X uuid m chunks app =
     (if m = GET
      then Some (Inr (json_200 (json_obj
             [(''service'', JStr ''wolfvoice''),
              (''sessions'', JNum (PosInt (of_nat (session_count (ap_sessions app))))),
              (''rooms'', JNum (PosInt (of_nat (length (reg_rooms (ap_sessions app))))))])), app)
      else if m \<noteq> POST
      then Some (Inr \<lparr>rs_status = 405, rs_content_type = None, rs_body = None\<rparr>, app)
      else case read_body MAX_RPC_BODY [] chunks of
             Inl e \<Rightarrow> Some (Inl e, app)
           | Inr None \<Rightarrow> Some (Inr (json_200 (rpc_err JNull ''request body too large'')), app)
           | Inr (Some body) \<Rightarrow>
               map_option (\<lambda>(r, app). (Inr r, app)) (rpc_response dbg ser from_slice X uuid body app))"

section \<open>The admin interface\<close>

definition status_json :: "logctl \<Rightarrow> json" where
  "status_json c = json_obj [(''log_level'', JStr (get_level c)), (''mic_log_mode'', JStr (get_mic_mode c))]"

definition admin_handle ::
    "(string \<Rightarrow> string) \<Rightarrow> (string \<Rightarrow> (string, json) result) \<Rightarrow> http_method \<Rightarrow> string
       \<Rightarrow> ('h, string) result list \<Rightarrow> logctl \<Rightarrow> ('h, response) result \<times> logctl" where
  "admin_handle dbg from_slice m path chunks c =
     (if m = GET \<and> path = ''/status'' then (Inr (json_body 200 (status_json c)), c)
      else if m \<noteq> POST \<or> (path \<noteq> ''/log-level'' \<and> path \<noteq> ''/mic-log-mode'')
      then (Inr (json_body 404 (json_obj [(''error'', JStr ''not found'')])), c)
      else case read_body MAX_ADMIN_BODY [] chunks of
             Inl e \<Rightarrow> (Inl e, c)
           | Inr None \<Rightarrow> (Inr (json_body 413 (json_obj [(''error'', JStr ''body too large'')])), c)
           | Inr (Some whole) \<Rightarrow>
               (let field = (if path = ''/log-level'' then ''level'' else ''mode'');
                    val = (case from_slice whole of Inl _ \<Rightarrow> None | Inr v \<Rightarrow> Option.bind (jget v field) as_str)
                in case val of
                     None \<Rightarrow> (Inr (json_body 400 (json_obj
                        [(''error'', JStr (''expected JSON body {\"'' @ field @ ''\": \"...\"}''))])), c)
                   | Some s \<Rightarrow>
                       (let (result, c') = (if path = ''/log-level'' then set_level dbg s c else set_mic_mode dbg s c)
                        in case result of
                             Inr _ \<Rightarrow> (Inr (json_body 200 (status_json c')), c')
                           | Inl e \<Rightarrow> (Inr (json_body 400 (json_obj [(''error'', JStr e)])), c'))))"

text \<open>\<open>admin_loop\<close> serves a connection only when its peer is a loopback address.\<close>

datatype ip_addr = V4 u8 u8 u8 u8 | V6 "128 word"

definition is_loopback :: "ip_addr \<Rightarrow> bool" where
  "is_loopback ip = (case ip of V4 a b c d \<Rightarrow> a = 127 | V6 w \<Rightarrow> w = 1)"

definition admin_accept :: "ip_addr \<Rightarrow> (logctl \<Rightarrow> 'r \<times> logctl) \<Rightarrow> logctl \<Rightarrow> 'r option \<times> logctl" where
  "admin_accept peer serve c =
     (if \<not> is_loopback peer then (None, c) else (case serve c of (r, c') \<Rightarrow> (Some r, c')))"

section \<open>The mixer loop\<close>

record mixer_state =
  mx_inflight :: nat
  mx_skipped :: u64
  mx_last_warned :: nat

text \<open>The drain of a lone participant: \<open>while let Some(f) = take_frame()\<close>.\<close>

function drain :: "fp list option \<Rightarrow> session \<Rightarrow> session \<times> fp list option" where
  "drain prev s =
     (if s_inbound s = [] then (fst (take_frame s), prev)
      else drain (snd (take_frame s)) (fst (take_frame s)))"
  by pat_completeness auto
termination
  by (relation "measure (\<lambda>(l, s). length (s_inbound s))") (auto simp: take_frame_def split: list.split)

declare drain.simps [simp del]

definition drain_member :: "logctl \<Rightarrow> session \<Rightarrow> session \<times> string option" where
  "drain_member c s = (let (s, f) = drain None s; (s, level, line) = update_level c f False s in (s, line))"

definition drain_members :: "logctl \<Rightarrow> arc list \<Rightarrow> store \<Rightarrow> store" where
  "drain_members c members st = foldl (\<lambda>st m. st(m := fst (drain_member c (st m)))) st members"

text \<open>The rooms of one tick: a room of fewer than two is drained, every other is a task to spawn.\<close>

fun serve_rooms :: "logctl \<Rightarrow> room_key list \<Rightarrow> 'e app \<Rightarrow> 'e app \<times> arc list list" where
  "serve_rooms c [] app = (app, [])"
| "serve_rooms c (key # keys) app =
     (let members = reg_members (ap_sessions app) key
      in if length members < 2
         then serve_rooms c keys (app\<lparr>ap_store := drain_members c members (ap_store app)\<rparr>)
         else (let (app, jobs) = serve_rooms c keys app in (app, members # jobs)))"

definition dead_sessions :: "'e app \<Rightarrow> string list" where
  "dead_sessions app =
     map (\<lambda>ep. s_id (ap_store app (ep_session ep)))
       (filter (\<lambda>ep. s_closed (ap_store app (ep_session ep))) (hm_values (ap_endpoints app)))"

definition reap :: "(json \<Rightarrow> string) \<Rightarrow> 'e app \<Rightarrow> 'e app" where
  "reap ser app = fold (drop_session ser) (dead_sessions app) app"

text \<open>One tick at time \<open>now\<close> (milliseconds): the new state, the tasks spawned, and the number of
  skipped ticks if the overload warning is logged.\<close>

definition mixer_tick ::
    "logctl \<Rightarrow> (json \<Rightarrow> string) \<Rightarrow> nat \<Rightarrow> 'e app \<times> mixer_state \<Rightarrow> ('e app \<times> mixer_state) \<times> arc list list \<times> u64 option" where
  "mixer_tick c ser now = (\<lambda>(app, mx).
     if mx_inflight mx \<noteq> 0
     then let mx = mx\<lparr>mx_skipped := mx_skipped mx + 1\<rparr>
          in if 10000 \<le> now - mx_last_warned mx
             then ((app, mx\<lparr>mx_skipped := 0, mx_last_warned := now\<rparr>), [], Some (mx_skipped mx))
             else ((app, mx), [], None)
     else let app = reap ser app;
              (app, jobs) = serve_rooms c (reg_rooms (ap_sessions app)) app
          in ((app, mx\<lparr>mx_inflight := mx_inflight mx + length jobs\<rparr>), jobs, None))"

text \<open>The task of one listener, and the task of one room, which ends with the decrement.\<close>

definition deliver ::
    "'e encode \<Rightarrow> (packet \<Rightarrow> (string, unit) result) \<Rightarrow> listener_output \<Rightarrow> 'e app \<Rightarrow> 'e app" where
  "deliver enc wr out app =
     (let sid = s_id (ap_store app (o_session out))
      in case app_endpoint sid app of
           None \<Rightarrow> app
         | Some ep \<Rightarrow>
             if \<not> data_channel_open ep then app
             else let app = (case Option.bind (o_roster out) (\<lambda>t. send_roster t ep) of
                               None \<Rightarrow> app
                             | Some (dc, text) \<Rightarrow> app\<lparr>ap_trace := ap_trace app @ [SendText sid dc text]\<rparr>);
                      (ep', pk, r) = send_mix enc wr (o_stereo out) ep
                  in app\<lparr>ap_endpoints := hm_insert sid ep' (ap_endpoints app),
                         ap_trace := ap_trace app @ (case pk of None \<Rightarrow> [] | Some p \<Rightarrow> [SendPacket sid p])\<rparr>)"

text \<open>The room's task, its listeners served in the order of the room. The code spawns a task for each and
  waits for all of them: Listener_Tasks models these steps and shows that every schedule ends as this one.\<close>

definition room_task ::
    "libm \<Rightarrow> logctl \<Rightarrow> (json \<Rightarrow> string) \<Rightarrow> 'e encode \<Rightarrow> (packet \<Rightarrow> (string, unit) result) \<Rightarrow> arc list
       \<Rightarrow> 'e app \<times> mixer_state \<Rightarrow> ('e app \<times> mixer_state) option" where
  "room_task L c ser enc wr members = (\<lambda>(app, mx).
     map_option (\<lambda>(st, outs, logged).
         (fold (deliver enc wr) outs (app\<lparr>ap_store := st\<rparr>), mx\<lparr>mx_inflight := mx_inflight mx - 1\<rparr>))
       (mix_room L c ser members (ap_store app)))"

section \<open>Start-up\<close>

definition read_public_ip :: "string option \<Rightarrow> string option" where
  "read_public_ip env = opt_filter (\<lambda>v. trim v \<noteq> '''') env"

definition TLS_CERT :: string where "TLS_CERT = ''/etc/wolfvoice/tls/fullchain.pem''"
definition TLS_KEY :: string where "TLS_KEY = ''/etc/wolfvoice/tls/privkey.pem''"

text \<open>The key file is opened again for every section tried.\<close>

definition load_tls ::
    "(string \<Rightarrow> (string, 'f) result) \<Rightarrow> ('f \<Rightarrow> (string, 'c list) result) \<Rightarrow> ('f \<Rightarrow> (string, 'k list) result)
       \<Rightarrow> ('f \<Rightarrow> (string, 'k list) result) \<Rightarrow> ('f \<Rightarrow> (string, 'k list) result)
       \<Rightarrow> ('c list \<Rightarrow> 'k \<Rightarrow> (string, 'g) result) \<Rightarrow> (string, 'g) result" where
  "load_tls open_file read_certs pkcs8 rsa ec single_cert =
     res_bind (map_err TLS_CERT (open_file TLS_CERT)) (\<lambda>f.
     res_bind (map_err TLS_CERT (read_certs f)) (\<lambda>certs.
     if certs = [] then Inl (TLS_CERT @ '' contained no certificates'')
     else res_bind (map_err TLS_KEY (open_file TLS_KEY)) (\<lambda>f.
     res_bind (map_err TLS_KEY (pkcs8 f)) (\<lambda>keys.
     res_bind (if keys \<noteq> [] then Inr keys
               else res_bind (map_err TLS_KEY (open_file TLS_KEY)) (\<lambda>f. map_err TLS_KEY (rsa f))) (\<lambda>keys.
     res_bind (if keys \<noteq> [] then Inr keys
               else res_bind (map_err TLS_KEY (open_file TLS_KEY)) (\<lambda>f. map_err TLS_KEY (ec f))) (\<lambda>keys.
     case keys of
       [] \<Rightarrow> Inl (TLS_KEY @ '' contained no usable private key'')
     | k # _ \<Rightarrow> map_err ''tls config'' (single_cert certs k)))))))"

section \<open>The invariant of the application\<close>

definition sess_inv :: "session \<Rightarrow> bool" where
  "sess_inv s \<longleftrightarrow> session_ok s \<and> length (s_inbound s) \<le> JITTER_MAX_FRAMES"

definition ports_ok :: "port_pool \<Rightarrow> bool" where
  "ports_ok p \<longleftrightarrow> pp_lo p = MEDIA_PORT_LO \<and> pp_hi p = MEDIA_PORT_HI"

text \<open>The registry and the endpoints know the same sessions; addresses in use are below the next free
  one; the number of sessions is below the ceiling; every session keeps its own invariant.\<close>

definition app_ok :: "'e app \<Rightarrow> bool" where
  "app_ok app \<longleftrightarrow> reg_ok (ap_store app) (ap_sessions app) \<and> hm_ok (ap_endpoints app) \<and>
     (\<forall>sid. map_option ep_session (app_endpoint sid app) = hm_get (by_session (ap_sessions app)) sid) \<and>
     (\<forall>a. live (ap_sessions app) a \<longrightarrow> a < ap_next app) \<and> session_count (ap_sessions app) \<le> MAX_SESSIONS \<and>
     ports_ok (ap_ports app) \<and> (\<forall>a. sess_inv (ap_store app a))"

lemma sess_inv_new: "sess_inv (Session_new i a r sp)"
  using Session_new_ok by (simp add: sess_inv_def) (simp add: Session_new_def)

lemma app_new_ok: "app_ok (app_new ip)"
  using reg_ok_default sess_inv_new
  by (simp add: app_ok_def app_new_def hm.ok_empty app_endpoint_def hm_simps registry_default_def live_def session_count_def
      ports_ok_def PortPool_new_def hm_len_0_iff [THEN iffD2])

lemma app_ok_store:
  assumes "app_ok app" "same_ids (ap_store app) st" "\<And>a. sess_inv (st a)"
  shows "app_ok (app\<lparr>ap_store := st\<rparr>)"
  using assms by (simp add: app_ok_def app_endpoint_def reg_ok_same_ids)

lemma app_ok_one:
  assumes "app_ok app" "sess_inv s" "s_id s = s_id (ap_store app a)" "s_agent_id s = s_agent_id (ap_store app a)"
    "s_room s = s_room (ap_store app a)" "s_spatial s = s_spatial (ap_store app a)"
  shows "app_ok (app\<lparr>ap_store := (ap_store app)(a := s)\<rparr>)"
  using assms by (intro app_ok_store) (auto simp: same_ids_def app_ok_def)

lemma app_ok_endpoint:
  assumes "app_ok app" "app_endpoint sid app = Some ep" "ep_session ep' = ep_session ep"
  shows "app_ok (app\<lparr>ap_endpoints := hm_insert sid ep' (ap_endpoints app), ap_trace := t\<rparr>)"
proof -
  have e: "map_option ep_session (app_endpoint k (app\<lparr>ap_endpoints := hm_insert sid ep' (ap_endpoints app), ap_trace := t\<rparr>)) =
      map_option ep_session (app_endpoint k app)" for k
    using assms(2,3) by (simp add: app_endpoint_def hm_simps)
  show ?thesis using assms(1) unfolding app_ok_def e by (auto simp: hm.ok_put)
qed

lemma app_ok_trace: "app_ok app \<Longrightarrow> app_ok (app\<lparr>ap_trace := t\<rparr>)"
  by (simp add: app_ok_def app_endpoint_def)

section \<open>Tearing down\<close>

lemma drop_session_fields:
  assumes "reg_remove sid (ap_store app, ap_sessions app) = ((st, reg), gone)"
  shows "ap_store (drop_session ser sid app) = st" "ap_sessions (drop_session ser sid app) = reg"
    "ap_endpoints (drop_session ser sid app) = hm_remove sid (ap_endpoints app)"
    "ap_next (drop_session ser sid app) = ap_next app" "ap_ports (drop_session ser sid app) = ap_ports app"
    "ap_public_ip (drop_session ser sid app) = ap_public_ip app" "ap_counter (drop_session ser sid app) = ap_counter app"
  using assms by (auto simp: drop_session_def Let_def split: option.splits)

lemma reg_remove_None:
  "reg_remove sid (st, reg) = ((st', reg'), None) \<Longrightarrow> st' = st \<and> reg' = reg \<and> hm_get (by_session reg) sid = None"
  by (auto simp: reg_remove_def Let_def split: option.splits)

lemma reg_remove_sess_inv:
  assumes "reg_remove sid (st, reg) = ((st', reg'), x)" "\<And>a. sess_inv (st a)" shows "sess_inv (st' a)"
proof -
  have f: "sess_inv s \<Longrightarrow> sess_inv (forget_announced g s)" "sess_inv s \<Longrightarrow> sess_inv (s\<lparr>s_closed := True\<rparr>)" for s g
    by (simp_all add: sess_inv_def forget_announced_def session_ok_def)
  show ?thesis
  proof (cases "hm_get (by_session reg) sid")
    case None
    then show ?thesis using assms by (simp add: reg_remove_def)
  next
    case (Some b)
    then have "st' = (forget_all (s_agent_id (st b)) (hm_values (hm_remove sid (by_session reg))) st)
        (b := (forget_all (s_agent_id (st b)) (hm_values (hm_remove sid (by_session reg))) st b)\<lparr>s_closed := True\<rparr>)"
      using assms(1) reg_remove_Some [OF Some, of st] by simp
    then show ?thesis using assms(2) f by (simp add: forget_all_apply)
  qed
qed

lemma drop_session_ok:
  assumes "app_ok app"
  shows "app_ok (drop_session ser sid app)"
    "hm_get (by_session (ap_sessions (drop_session ser sid app))) k = (if k = sid then None else hm_get (by_session (ap_sessions app)) k)"
    "app_endpoint k (drop_session ser sid app) = (if k = sid then None else app_endpoint k app)"
    "same_ids (ap_store app) (ap_store (drop_session ser sid app))"
    "ap_next (drop_session ser sid app) = ap_next app"
proof -
  obtain st reg gone where r: "reg_remove sid (ap_store app, ap_sessions app) = ((st, reg), gone)" by (metis surj_pair)
  note f = drop_session_fields [OF r]
  have ro: "reg_ok (ap_store app) (ap_sessions app)" using assms by (simp add: app_ok_def)
  have k: "hm_get (by_session reg) k = (if k = sid then None else hm_get (by_session (ap_sessions app)) k)" for k
  proof (cases gone)
    case None
    then show ?thesis using reg_remove_None [of sid "ap_store app" "ap_sessions app"] r by auto
  next
    case (Some a)
    show ?thesis by (rule reg_remove_ok(9) [OF ro r [unfolded Some]])
  qed
  then show "hm_get (by_session (ap_sessions (drop_session ser sid app))) k = (if k = sid then None else hm_get (by_session (ap_sessions app)) k)"
    by (simp add: f)
  have e: "app_endpoint k (drop_session ser sid app) = (if k = sid then None else app_endpoint k app)" for k
    by (simp add: app_endpoint_def f hm_simps)
  then show "app_endpoint k (drop_session ser sid app) = (if k = sid then None else app_endpoint k app)" .
  have s: "same_ids (ap_store app) st \<and> reg_ok st reg \<and> session_count reg \<le> session_count (ap_sessions app) \<and>
      (\<forall>b. live reg b \<longrightarrow> live (ap_sessions app) b)"
  proof (cases gone)
    case None
    then show ?thesis using reg_remove_None [of sid "ap_store app" "ap_sessions app"] r ro by auto
  next
    case (Some a)
    note o = reg_remove_ok [OF ro r [unfolded Some]]
    show ?thesis using o(2,3,7,8) by auto
  qed
  then show "same_ids (ap_store app) (ap_store (drop_session ser sid app))" by (simp add: f)
  have "sess_inv (st a)" for a using reg_remove_sess_inv [OF r] assms by (simp add: app_ok_def)
  then show "app_ok (drop_session ser sid app)"
    using assms s unfolding app_ok_def e f by (auto simp: k hm.ok_del)
  show "ap_next (drop_session ser sid app) = ap_next app" by (simp add: f)
qed


lemma drop_session_trace:
  assumes "reg_remove sid (ap_store app, ap_sessions app) = ((st, reg), gone)"
  shows "ap_trace (drop_session ser sid app) = ap_trace app @ (if app_endpoint sid app = None then [] else [ClosePc sid]) @
    (case gone of None \<Rightarrow> [] | Some a \<Rightarrow> notices ser (st a) (drop_session ser sid app))"
proof -
  have n: "notices ser g app1 = notices ser g app2"
    if "ap_store app1 = ap_store app2" "ap_sessions app1 = ap_sessions app2" "ap_endpoints app1 = ap_endpoints app2"
    for g and app1 app2 :: "'a app"
    by (simp only: notices_def app_endpoint_def Let_def that)
  let ?app = "app\<lparr>ap_endpoints := hm_remove sid (ap_endpoints app), ap_store := st, ap_sessions := reg\<rparr>"
  note f = drop_session_fields [OF assms, of ser]
  have "notices ser g (?app\<lparr>ap_trace := t\<rparr>) = notices ser g (drop_session ser sid app)"
    for g t
    by (rule n) (simp_all add: f)
  moreover have "notices ser g ?app = notices ser g (drop_session ser sid app)" for g
    by (rule n) (simp_all add: f)
  ultimately have m: "notices ser (st a) (?app\<lparr>ap_trace := t\<rparr>) = notices ser (st a) (drop_session ser sid app)"
    "notices ser (st a) ?app = notices ser (st a) (drop_session ser sid app)" for a t by blast+
  have d: "ap_trace (drop_session ser sid app) =
      (let app2 = (case app_endpoint sid app of None \<Rightarrow> ?app | Some _ \<Rightarrow> ?app\<lparr>ap_trace := ap_trace app @ [ClosePc sid]\<rparr>)
       in ap_trace app2 @ (case gone of None \<Rightarrow> [] | Some a \<Rightarrow> notices ser (st a) app2))"
    using assms by (simp add: drop_session_def Let_def split: option.split)
  show ?thesis
    unfolding d Let_def by (cases "app_endpoint sid app"; cases gone) (simp_all add: m del: app.update_convs)
qed

lemma drop_trace_spec:
  assumes "app_ok app"
  shows "ap_trace (drop_session ser sid app) = ap_trace app @
    (case hm_get (by_session (ap_sessions app)) sid of
       None \<Rightarrow> []
     | Some a \<Rightarrow>
         let gone = ap_store app a; others = filter (\<lambda>b. b \<noteq> a) (reg_members (ap_sessions app) (s_room gone))
         in ClosePc sid #
           (if \<exists>b \<in> set others. s_agent_id (ap_store app b) = s_agent_id gone then []
            else List.map_filter (\<lambda>b. case app_endpoint (s_id (ap_store app b)) app of
                   None \<Rightarrow> None
                 | Some ep \<Rightarrow> map_option (\<lambda>dc. SendText (s_id (ap_store app b)) dc (leave_json ser (s_agent_id gone))) (ep_dc ep))
                 others))"
proof -
  obtain st reg gone where r: "reg_remove sid (ap_store app, ap_sessions app) = ((st, reg), gone)" by (metis surj_pair)
  note f = drop_session_fields [OF r]
  have ro: "reg_ok (ap_store app) (ap_sessions app)" using assms by (simp add: app_ok_def)
  have ep: "map_option ep_session (app_endpoint k app) = hm_get (by_session (ap_sessions app)) k" for k
    using assms by (simp add: app_ok_def)
  show ?thesis
  proof (cases gone)
    case None
    then have g: "hm_get (by_session (ap_sessions app)) sid = None"
      using reg_remove_None [of sid "ap_store app" "ap_sessions app"] r by simp
    then have "app_endpoint sid app = None" using ep [of sid] by simp
    then show ?thesis using g None by (simp add: drop_session_trace [OF r])
  next
    case (Some a)
    note o = reg_remove_ok [OF ro r [unfolded Some]]
    have ids: "s_id (st b) = s_id (ap_store app b)" "s_agent_id (st b) = s_agent_id (ap_store app b)"
      "s_room (st b) = s_room (ap_store app b)" for b using o(2) by (simp_all add: same_ids_def)
    have "app_endpoint sid app \<noteq> None" using ep [of sid] o(1) by auto
    let ?others = "filter (\<lambda>b. b \<noteq> a) (reg_members (ap_sessions app) (s_room (ap_store app a)))"
    have ne: "s_id (ap_store app b) \<noteq> sid" if "b \<in> set ?others" for b
    proof
      assume e: "s_id (ap_store app b) = sid"
      from that have "live (ap_sessions app) b" using members_set [OF ro] by auto
      then obtain k where k: "hm_get (by_session (ap_sessions app)) k = Some b" by (auto simp: live_def)
      then have "k = sid" using reg_okD(3) [OF ro k] e by simp
      then show False using k o(1) that by simp
    qed
    have "notices ser (st a) (drop_session ser sid app) =
      (if \<exists>b \<in> set ?others. s_agent_id (ap_store app b) = s_agent_id (ap_store app a) then []
       else List.map_filter (\<lambda>b. case app_endpoint (s_id (ap_store app b)) app of
              None \<Rightarrow> None
            | Some ep \<Rightarrow> map_option (\<lambda>dc. SendText (s_id (ap_store app b)) dc (leave_json ser (s_agent_id (ap_store app a)))) (ep_dc ep))
            ?others)"
      unfolding notices_def Let_def f(1,2) o(4) ids
      by (intro if_cong refl map_filter_cong)
        (auto simp: drop_session_ok(3) [OF assms] ne data_channel_open_def send_roster_def split: option.split)
    then show ?thesis using \<open>app_endpoint sid app \<noteq> None\<close>
      by (simp add: drop_session_trace [OF r] Some o(1) Let_def)
  qed
qed

text \<open>C23. A departure is announced exactly when it is one: dropping a registered session closes its
  transport, and then sends the leave notice of its agent, once, to each session still in the room
  whose data channel is open, in their order; when another session of the same agent is still in the
  room nobody is told anything. Dropping an unknown session sends nothing.\<close>

theorem leave_notices:
  assumes "app_ok app"
  shows "ap_trace (drop_session ser sid app) = ap_trace app @
    (case hm_get (by_session (ap_sessions app)) sid of
       None \<Rightarrow> []
     | Some a \<Rightarrow>
         let gone = ap_store app a; others = filter (\<lambda>b. b \<noteq> a) (reg_members (ap_sessions app) (s_room gone))
         in ClosePc sid #
           (if \<exists>b \<in> set others. s_agent_id (ap_store app b) = s_agent_id gone then []
            else List.map_filter (\<lambda>b. case app_endpoint (s_id (ap_store app b)) app of
                   None \<Rightarrow> None
                 | Some ep \<Rightarrow> map_option (\<lambda>dc. SendText (s_id (ap_store app b)) dc (leave_json ser (s_agent_id gone))) (ep_dc ep))
                 others))"
  using assms by (rule drop_trace_spec)

lemma leave_notices_witness:
  "ap_trace (drop_session (\<lambda>_. ''{}'') ''wv-1'' (app_new ''203.0.113.10'')) = []"
  using leave_notices [OF app_new_ok, of "\<lambda>_. ''{}''" "''wv-1''" "''203.0.113.10''"]
  by (simp add: app_new_def registry_default_def hm_simps)

section \<open>Provisioning\<close>

lemma establish_Inr:
  "establish X counter a sid offer ip port = Some (Inr ep, k) \<Longrightarrow> ep_session ep = a"
  by (auto simp: establish_def res_bind_def map_err_def ok_or_def split: sum.splits option.splits prod.splits)

lemma connect_cases:
  assumes "connect X uuid params room spatial offer app = Some (r, app')"
  obtains (fail) e port pool k where "r = Inl e" "port_take (ap_ports app) = Some (port, pool)"
      "app' = app\<lparr>ap_store := (ap_store app)(ap_next app := Session_new (''wv-'' @ uuid) (rp_user_id params) room spatial),
                  ap_next := ap_next app + 1, ap_ports := pool, ap_counter := k\<rparr>"
  | (ok) ep sdp port pool k where "r = Inr (provision_answer (''wv-'' @ uuid) sdp)" "ep_session ep = ap_next app"
      "port_take (ap_ports app) = Some (port, pool)"
      "establish X (ap_counter app) (ap_next app) (''wv-'' @ uuid) offer (ap_public_ip app) port = Some (Inr ep, k)"
      "app' = app\<lparr>ap_store := (ap_store app)(ap_next app := Session_new (''wv-'' @ uuid) (rp_user_id params) room spatial),
                  ap_next := ap_next app + 1, ap_ports := pool, ap_counter := k,
                  ap_endpoints := hm_insert (''wv-'' @ uuid) ep (ap_endpoints app),
                  ap_sessions := reg_insert ((ap_store app)(ap_next app := Session_new (''wv-'' @ uuid) (rp_user_id params) room spatial))
                     (ap_next app) (ap_sessions app)\<rparr>"
      "answer_sdp X = Some sdp"
proof -
  obtain port pool where p: "port_take (ap_ports app) = Some (port, pool)"
    using assms by (cases "port_take (ap_ports app)") (auto simp: connect_def Let_def)
  obtain er k where e: "establish X (ap_counter app) (ap_next app) (''wv-'' @ uuid) offer (ap_public_ip app) port = Some (er, k)"
    using assms p by (cases "establish X (ap_counter app) (ap_next app) (''wv-'' @ uuid) offer (ap_public_ip app) port")
      (auto simp: connect_def Let_def)
  show thesis
  proof (cases er)
    case (Inl m)
    then show thesis using assms p e by (intro fail) (auto simp: connect_def Let_def)
  next
    case (Inr ep)
    show thesis
    proof (cases "answer_sdp X")
      case None
      then show thesis using assms p e Inr by (intro fail) (auto simp: connect_def Let_def)
    next
      case (Some sdp)
      then show thesis using assms p e Inr establish_Inr [of X _ "ap_next app"]
        by (intro ok [of sdp ep port pool k]) (auto simp: connect_def Let_def)
    qed
  qed
qed

lemma port_take_ports_ok:
  assumes "ports_ok p" shows "\<exists>x p'. port_take p = Some (x, p') \<and> ports_ok p'"
  using assms by (auto simp: ports_ok_def port_take_def Let_def MEDIA_PORT_LO_def MEDIA_PORT_HI_def)

lemma reg_ok_fresh_arc:
  assumes "reg_ok st reg" "\<not> live reg a" shows "reg_ok (st(a := s)) reg"
proof -
  have b: "(st(a := s)) b = st b" if "hm_get (by_session reg) k = Some b" for k b
    using that assms(2) by (auto simp: live_def)
  have "(\<exists>b. hm_get (by_session reg) sid = Some b \<and> s_room ((st(a := s)) b) = r) \<longleftrightarrow>
      (\<exists>b. hm_get (by_session reg) sid = Some b \<and> s_room (st b) = r)" for sid r
    using b by (metis (no_types))
  moreover have "(\<forall>sid b. hm_get (by_session reg) sid = Some b \<longrightarrow> s_id ((st(a := s)) b) = sid) \<longleftrightarrow>
      (\<forall>sid b. hm_get (by_session reg) sid = Some b \<longrightarrow> s_id (st b) = sid)"
    using b by (metis (no_types))
  ultimately show ?thesis using assms(1) unfolding reg_ok_def by (simp only: simp_thms) blast
qed

lemma connect_ok:
  assumes "app_ok app" "connect X uuid params room spatial offer app = Some (r, app')"
    "hm_get (by_session (ap_sessions app)) (''wv-'' @ uuid) = None" "session_count (ap_sessions app) < MAX_SESSIONS"
  shows "app_ok app'"
proof -
  let ?s = "Session_new (''wv-'' @ uuid) (rp_user_id params) room spatial" and ?a = "ap_next app"
  have ro: "reg_ok (ap_store app) (ap_sessions app)" and nl: "\<not> live (ap_sessions app) ?a"
    using assms(1) by (auto simp: app_ok_def)
  have r1: "reg_ok ((ap_store app)(?a := ?s)) (ap_sessions app)" using ro nl by (rule reg_ok_fresh_arc)
  have po: "port_take (ap_ports app) = Some (port, pool) \<Longrightarrow> ports_ok pool" for port pool
    using port_take_ports_ok [of "ap_ports app"] assms(1) by (auto simp: app_ok_def)
  show ?thesis
    using assms(2)
  proof (cases rule: connect_cases)
    case (fail e port pool k)
    then show ?thesis using assms(1) r1 po sess_inv_new by (auto simp: app_ok_def app_endpoint_def less_Suc_eq)
  next
    case (ok ep sdp port pool k)
    let ?st = "(ap_store app)(?a := ?s)"
    have sid: "s_id (?st ?a) = ''wv-'' @ uuid" by (simp add: Session_new_def)
    have fr: "hm_get (by_session (ap_sessions app)) (s_id (?st ?a)) = None" using assms(3) unfolding sid .
    have "reg_ok ?st (reg_insert ?st ?a (ap_sessions app))" using r1 fr by (rule reg_ok_insert)
    moreover have b: "hm_get (by_session (reg_insert ?st ?a (ap_sessions app))) k =
        (if k = ''wv-'' @ uuid then Some ?a else hm_get (by_session (ap_sessions app)) k)" for k
      unfolding by_session_insert sid ..
    moreover have "session_count (reg_insert ?st ?a (ap_sessions app)) = Suc (session_count (ap_sessions app))"
      using hm.len_put [OF reg_okD(1) [OF ro], of "s_id (?st ?a)" ?a] fr
      by (simp add: session_count_def reg_insert_def insert_session_def insert_room_def Let_def)
    moreover have "live (reg_insert ?st ?a (ap_sessions app)) b \<longleftrightarrow> live (ap_sessions app) b \<or> b = ?a" for b
      unfolding live_def b using assms(3) by (metis option.distinct(1) option.inject)
    ultimately show ?thesis using assms(1,4) ok po sess_inv_new
      unfolding app_ok_def by (auto simp: app_endpoint_def hm_simps less_Suc_eq hm.ok_put)
  qed
qed

definition fresh :: "string \<Rightarrow> 'e app \<Rightarrow> bool" where
  "fresh uuid app \<longleftrightarrow> hm_get (by_session (ap_sessions app)) (''wv-'' @ uuid) = None"

text \<open>The application after the re-provisioning step.\<close>

definition redropped :: "(json \<Rightarrow> string) \<Rightarrow> provision_request \<Rightarrow> 'e app \<Rightarrow> 'e app" where
  "redropped ser req app =
     (case pr_viewer_session req of
        None \<Rightarrow> app
      | Some existing \<Rightarrow> if app_endpoint existing app \<noteq> None then drop_session ser existing app else app)"

lemma redropped_ok:
  assumes "app_ok app"
  shows "app_ok (redropped ser req app)" "fresh uuid app \<Longrightarrow> fresh uuid (redropped ser req app)"
  using drop_session_ok(1,2) [OF assms] assms by (auto simp: redropped_def fresh_def split: option.split)

lemma provision_cases:
  assumes "provision dbg ser X uuid params app = Some (r, app')"
  obtains (bad) e where "r = Inl e" "app' = app"
  | (logout) req sid where "provision_parse dbg (rp_request params) = Inr req" "pr_logout req" "pr_viewer_session req = Some sid"
      "r = Inr (json_obj [(''viewer_session'', JStr sid)])" "app' = drop_session ser sid app"
  | (refused) req e where "provision_parse dbg (rp_request params) = Inr req" "\<not> pr_logout req"
      "r = Inl e" "app' = redropped ser req app"
  | (connected) req offer room spatial where "provision_parse dbg (rp_request params) = Inr req" "\<not> pr_logout req"
      "pr_offer_sdp req = Some offer" "session_count (ap_sessions (redropped ser req app)) < MAX_SESSIONS"
      "rp_user_id params \<noteq> ''''" "room_for params req = Inr (room, spatial)"
      "connect X uuid params room spatial offer (redropped ser req app) = Some (r, app')"
proof (cases "provision_parse dbg (rp_request params)")
  case (Inl e)
  then show thesis using assms by (intro bad [of e]) (auto simp: provision_def)
next
  case (Inr req)
  show thesis
  proof (cases "pr_logout req")
    case True
    then show thesis using assms Inr
      by (cases "pr_viewer_session req") (auto simp: provision_def intro: bad logout)
  next
    case nl: False
    show thesis
    proof (cases "pr_offer_sdp req")
      case None
      then show thesis using assms Inr nl by (intro bad) (auto simp: provision_def)
    next
      case (Some offer)
      let ?app = "redropped ser req app"
      have e: "provision dbg ser X uuid params app =
          (if MAX_SESSIONS \<le> session_count (ap_sessions ?app) then Some (Inl ''voice service is at capacity'', ?app)
           else if rp_user_id params = '''' then Some (Inl ''region did not supply userID'', ?app)
           else (case room_for params req of Inl e \<Rightarrow> Some (Inl e, ?app)
                 | Inr (room, spatial) \<Rightarrow> connect X uuid params room spatial offer ?app))"
        by (simp only: provision_def Inr nl Some redropped_def Let_def sum.case if_False option.case)
      show thesis
      proof (cases "MAX_SESSIONS \<le> session_count (ap_sessions ?app) \<or> rp_user_id params = '''' \<or> (\<exists>e. room_for params req = Inl e)")
        case True
        then have "\<exists>x. r = Inl x \<and> app' = ?app" using assms unfolding e by (auto split: if_splits)
        then show thesis using refused [OF Inr nl] by blast
      next
        case False
        then obtain room spatial where ro: "room_for params req = Inr (room, spatial)"
          by (cases "room_for params req") auto
        show thesis
        proof (rule connected [OF Inr nl Some _ _ ro])
          show "session_count (ap_sessions ?app) < MAX_SESSIONS" "rp_user_id params \<noteq> ''''" using False by auto
          show "connect X uuid params room spatial offer ?app = Some (r, app')"
            using assms False ro unfolding e by auto
        qed
      qed
    qed
  qed
qed

lemma provision_ok:
  assumes "app_ok app" "fresh uuid app" "provision dbg ser X uuid params app = Some (r, app')"
  shows "app_ok app'"
  using assms(3)
proof (cases rule: provision_cases)
  case (logout req sid)
  then show ?thesis using drop_session_ok(1) [OF assms(1)] by simp
next
  case (refused req e)
  then show ?thesis using redropped_ok(1) [OF assms(1)] by simp
next
  case (connected req offer room spatial)
  then show ?thesis
    using connect_ok [OF redropped_ok(1) [OF assms(1)]] redropped_ok(2) [OF assms(1,2)] by (simp add: fresh_def)
qed (use assms in simp)

lemma signaling_ok: "app_ok app \<Longrightarrow> app_ok (snd (signaling params app))"
  by (auto simp: signaling_def Let_def app_ok_trace split: option.split)

lemma rpc_response_ok:
  assumes "app_ok app" "fresh uuid app" "rpc_response dbg ser from_slice X uuid body app = Some (r, app')"
  shows "app_ok app'"
proof (cases "from_slice body")
  case (Inl e)
  then show ?thesis using assms by (auto simp: rpc_response_def)
next
  case (Inr rq)
  then obtain r1 where d: "rpc_dispatch dbg ser X uuid rq app = Some (r1, app')"
    using assms(3) by (cases "rpc_dispatch dbg ser X uuid rq app") (auto simp: rpc_response_def split: sum.split_asm)
  show ?thesis
  proof (cases "rq_method rq = METHOD_PROVISION")
    case True
    then show ?thesis using d provision_ok [OF assms(1,2)] by (simp add: rpc_dispatch_def)
  next
    case False
    then show ?thesis using d signaling_ok [OF assms(1), of "rq_params rq"] assms(1)
      by (auto simp: rpc_dispatch_def split: if_splits)
  qed
qed

section \<open>The mixer loop\<close>

lemma reap_ok: "app_ok app \<Longrightarrow> app_ok (reap ser app)"
proof -
  have "app_ok app \<Longrightarrow> app_ok (fold (drop_session ser) ids app)" for ids and app :: "'a app"
    by (induction ids arbitrary: app) (simp_all add: drop_session_ok(1))
  then show "app_ok app \<Longrightarrow> ?thesis" by (simp add: reap_def)
qed

lemma drain_spec: "drain prev s = (s\<lparr>s_inbound := []\<rparr>, if s_inbound s = [] then prev else Some (last (s_inbound s)))"
proof (induction prev s rule: drain.induct)
  case (1 prev s)
  show ?case
  proof (cases "s_inbound s")
    case Nil
    then show ?thesis by (simp add: drain.simps [of prev s] take_frame_def)
  next
    case (Cons f q)
    then show ?thesis using 1 by (subst drain.simps) (simp add: take_frame_def)
  qed
qed

lemma drain_member_spec:
  "fst (drain_member c s) = s\<lparr>s_inbound := [],
     s_level := (if s_inbound s = [] then 0 else level_to_wire (last (s_inbound s))),
     s_was_speaking := speaking_of (if s_inbound s = [] then 0 else level_to_wire (last (s_inbound s)))\<rparr>"
  by (simp add: drain_member_def drain_spec update_level_def Let_def)

lemma drain_members_ok:
  assumes "\<And>a. sess_inv (st a)"
  shows "same_ids st (drain_members c ms st) \<and> (\<forall>a. sess_inv (drain_members c ms st a))"
  using assms
proof (induction ms arbitrary: st)
  case (Cons m ms)
  let ?st = "st(m := fst (drain_member c (st m)))"
  have "sess_inv (?st a)" for a
    using Cons.prems [of a] Cons.prems [of m] by (simp add: drain_member_spec sess_inv_def session_ok_def)
  moreover have "same_ids st ?st" by (simp add: same_ids_def drain_member_spec)
  moreover have "drain_members c (m # ms) st = drain_members c ms ?st" by (simp add: drain_members_def)
  ultimately show ?case using Cons.IH [of ?st] same_ids_trans [of st ?st] by (simp del: fun_upd_apply)
qed (simp add: drain_members_def)

lemma serve_rooms_ok:
  assumes "app_ok app"
  shows "app_ok (fst (serve_rooms c keys app)) \<and> ap_sessions (fst (serve_rooms c keys app)) = ap_sessions app \<and>
    same_ids (ap_store app) (ap_store (fst (serve_rooms c keys app))) \<and> ap_endpoints (fst (serve_rooms c keys app)) = ap_endpoints app \<and>
    snd (serve_rooms c keys app) = filter (\<lambda>ms. 2 \<le> length ms) (map (reg_members (ap_sessions app)) keys)"
  using assms
proof (induction keys arbitrary: app)
  case (Cons key keys)
  let ?ms = "reg_members (ap_sessions app) key"
  let ?app = "app\<lparr>ap_store := drain_members c ?ms (ap_store app)\<rparr>"
  have d: "same_ids (ap_store app) (drain_members c ?ms (ap_store app)) \<and> (\<forall>a. sess_inv (drain_members c ?ms (ap_store app) a))"
    using Cons.prems by (intro drain_members_ok) (simp add: app_ok_def)
  then have "app_ok ?app" using app_ok_store [OF Cons.prems] by blast
  from Cons.IH [OF this] Cons.IH [OF Cons.prems] show ?case using d
    by (auto simp: Let_def split_beta intro: same_ids_trans)
qed simp

lemma mixer_tick_ok:
  assumes "app_ok app" "mixer_tick c ser now (app, mx) = ((app', mx'), jobs, w)"
  shows "app_ok app'"
proof -
  have "app_ok (fst (serve_rooms c keys (reap ser app)))" for keys using serve_rooms_ok [OF reap_ok [OF assms(1)]] by blast
  then show ?thesis using assms by (auto simp: mixer_tick_def Let_def split_beta split: if_splits)
qed

lemma deliver_ok:
  assumes "app_ok app" shows "app_ok (deliver enc wr out app) \<and> ap_store (deliver enc wr out app) = ap_store app"
proof -
  let ?sid = "s_id (ap_store app (o_session out))"
  show ?thesis
  proof (cases "app_endpoint ?sid app")
    case None
    then show ?thesis using assms by (simp add: deliver_def)
  next
    case (Some ep)
    obtain ep' pk r where m: "send_mix enc wr (o_stereo out) ep = (ep', pk, r)" by (metis surj_pair)
    have s: "ep_session ep' = ep_session ep" using send_mix_steps [OF m] by blast
    show ?thesis
    proof (cases "data_channel_open ep")
      case False
      then show ?thesis using assms Some by (simp add: deliver_def Let_def)
    next
      case True
      have "deliver enc wr out app = app\<lparr>ap_endpoints := hm_insert ?sid ep' (ap_endpoints app),
          ap_trace := ap_trace app @ (case Option.bind (o_roster out) (\<lambda>t. send_roster t ep) of
              None \<Rightarrow> [] | Some (dc, text) \<Rightarrow> [SendText ?sid dc text]) @ (case pk of None \<Rightarrow> [] | Some p \<Rightarrow> [SendPacket ?sid p])\<rparr>"
        using True Some m by (intro app.equality) (auto simp: deliver_def Let_def split: option.split)
      then show ?thesis using app_ok_endpoint [OF assms Some s] by auto
    qed
  qed
qed

lemma fold_deliver_ok: "app_ok app \<Longrightarrow> app_ok (fold (deliver enc wr) outs app)"
  by (induction outs arbitrary: app) (simp_all add: deliver_ok)

lemma room_task_ok:
  assumes "app_ok app" "distinct members" "room_task L c ser enc wr members (app, mx) = Some (app', mx')"
  shows "app_ok app'"
proof -
  obtain st outs logged where m: "mix_room L c ser members (ap_store app) = Some (st, outs, logged)"
    and app': "app' = fold (deliver enc wr) outs (app\<lparr>ap_store := st\<rparr>)"
    using assms(3) by (auto simp: room_task_def)
  from mix_room_spec [OF assms(2), of L c ser "ap_store app"] m
  have sv: "same_view (ap_store app) st"
    and inb: "\<forall>a \<in> set members. s_inbound (st a) = tl (s_inbound (ap_store app a))"
      "\<forall>a. a \<notin> set members \<longrightarrow> st a = ap_store app a \<or> same_view (ap_store app) st \<and> s_inbound (st a) = s_inbound (ap_store app a) \<and>
         s_announced (st a) = s_announced (ap_store app a)"
    by auto
  have "sess_inv (st a)" for a
  proof -
    have i: "sess_inv (ap_store app a)" using assms(1) by (simp add: app_ok_def)
    have "length (s_inbound (st a)) \<le> length (s_inbound (ap_store app a))"
      using inb by (cases "a \<in> set members") auto
    then show ?thesis using i same_view_session_ok [OF sv, of a] by (auto simp: sess_inv_def)
  qed
  then have "app_ok (app\<lparr>ap_store := st\<rparr>)" using sv by (intro app_ok_store [OF assms(1)]) (simp_all add: same_view_def)
  then show ?thesis unfolding app' by (rule fold_deliver_ok)
qed


section \<open>Reachable states\<close>

text \<open>Everything that changes the state, one event at a time: a JSON-RPC body answered with a fresh
  identifier, a tick, the task of a room (for any list of distinct members, which may be the list of an
  earlier tick), a data-channel message, a decoded frame, a connection state, and a change of a
  data-channel slot.\<close>

inductive reachable :: "'e app \<Rightarrow> bool" where
  start: "reachable (app_new ip)"
| rpc: "reachable app \<Longrightarrow> fresh uuid app \<Longrightarrow> rpc_response dbg ser from_slice X uuid body app = Some (r, app') \<Longrightarrow> reachable app'"
| tick: "reachable app \<Longrightarrow> mixer_tick c ser now (app, mx) = ((app', mx'), jobs, w) \<Longrightarrow> reachable app'"
| task: "reachable app \<Longrightarrow> distinct members \<Longrightarrow> room_task L c ser enc wr members (app, mx) = Some (app', mx') \<Longrightarrow> reachable app'"
| control: "reachable app \<Longrightarrow> json_finite v \<Longrightarrow>
    reachable (app\<lparr>ap_store := (ap_store app)(a := apply_data (viewer_data_of_value v) (ap_store app a))\<rparr>)"
| audio: "reachable app \<Longrightarrow> reachable (app\<lparr>ap_store := (ap_store app)(a := push_frame f (ap_store app a))\<rparr>)"
| connection: "reachable app \<Longrightarrow>
    reachable (app\<lparr>ap_store := (ap_store app)(a := on_connection_state_change cs (ap_store app a))\<rparr>)"
| channel: "reachable app \<Longrightarrow> app_endpoint sid app = Some ep \<Longrightarrow>
    reachable (app\<lparr>ap_endpoints := hm_insert sid (ep\<lparr>ep_dc := slot\<rparr>) (ap_endpoints app), ap_trace := ap_trace app\<rparr>)"

lemma apply_data_ids [simp]:
  "s_id (apply_data m s) = s_id s" "s_agent_id (apply_data m s) = s_agent_id s" "s_room (apply_data m s) = s_room s"
  "s_spatial (apply_data m s) = s_spatial s" "s_inbound (apply_data m s) = s_inbound s"
  by (simp_all add: apply_data_def Let_def apply_join_def split: option.split)

lemma push_frame_ids [simp]:
  "s_id (push_frame f s) = s_id s" "s_agent_id (push_frame f s) = s_agent_id s" "s_room (push_frame f s) = s_room s"
  "s_spatial (push_frame f s) = s_spatial s" "session_ok (push_frame f s) = session_ok s"
  by (simp_all add: push_frame_def Let_def session_ok_def)

lemma connection_ids [simp]:
  "s_id (on_connection_state_change cs s) = s_id s" "s_agent_id (on_connection_state_change cs s) = s_agent_id s"
  "s_room (on_connection_state_change cs s) = s_room s" "s_spatial (on_connection_state_change cs s) = s_spatial s"
  "sess_inv (on_connection_state_change cs s) = sess_inv s"
  by (simp_all add: on_connection_state_change_def sess_inv_def session_ok_def)

lemma reachable_ok: "reachable app \<Longrightarrow> app_ok app"
proof (induction rule: reachable.induct)
  case (control app v a)
  then have "sess_inv (ap_store app a)" by (simp add: app_ok_def)
  then have "sess_inv (apply_data (viewer_data_of_value v) (ap_store app a))"
    using apply_data_ok [OF parsed_data_ok [OF control(2)]] by (simp add: sess_inv_def)
  then show ?case by (rule app_ok_one [OF control(3)]) simp_all
next
  case (audio app a f)
  then have "sess_inv (ap_store app a)" by (simp add: app_ok_def)
  then have "sess_inv (push_frame f (ap_store app a))" using jitter.push_bounded by (simp add: sess_inv_def)
  then show ?case by (rule app_ok_one [OF audio(2)]) simp_all
next
  case (connection app a cs)
  then have "sess_inv (ap_store app a)" by (simp add: app_ok_def)
  then have "sess_inv (on_connection_state_change cs (ap_store app a))" by simp
  then show ?case by (rule app_ok_one [OF connection(2)]) simp_all
next
  case (channel app sid ep slot)
  show ?case by (rule app_ok_endpoint [OF channel(3,2)]) simp
next
  case (start ip)
  show ?case by (rule app_new_ok)
next
  case rpc
  show ?case by (rule rpc_response_ok [OF rpc(4,2,3)])
next
  case tick
  show ?case by (rule mixer_tick_ok [OF tick(3,2)])
next
  case task
  show ?case by (rule room_task_ok [OF task(4,2,3)])
qed

text \<open>C1. The service keeps its books, handler by handler: in every state reachable from start-up by any
  sequence of JSON-RPC requests, ticks, room tasks, data-channel messages, decoded frames, connection events
  and channel events, each of which runs to its end before the next begins, there is a registered session
  exactly where there is an endpoint and they share the session object; the sessions of a room are those its
  index lists, each once; there are at most 900; every jitter buffer holds at most 10 frames; and every
  session is within the bounds of the data channel. Handlers that interleave at their awaits can break two of
  these, the ceiling (\<open>ceiling_overrun\<close>) and the agreement with the endpoints (\<open>ghost_session\<close>); the agreement
  of the registry's indices survives that too (\<open>indices_at_every_step\<close>).\<close>

theorem service_invariant:
  assumes "reachable app"
  shows "reg_ok (ap_store app) (ap_sessions app) \<and>
    (\<forall>sid. map_option ep_session (app_endpoint sid app) = hm_get (by_session (ap_sessions app)) sid) \<and>
    (\<forall>r. distinct (reg_members (ap_sessions app) r) \<and>
       set (reg_members (ap_sessions app) r) = {a. live (ap_sessions app) a \<and> s_room (ap_store app a) = r}) \<and>
    session_count (ap_sessions app) \<le> 900 \<and>
    (\<forall>a. session_ok (ap_store app a) \<and> length (s_inbound (ap_store app a)) \<le> 10)"
proof -
  have ok: "app_ok app" using assms by (rule reachable_ok)
  then have r: "reg_ok (ap_store app) (ap_sessions app)" by (simp add: app_ok_def)
  show ?thesis
    using ok members_distinct [OF r] members_set [OF r]
    by (simp add: app_ok_def sess_inv_def MAX_SESSIONS_def JITTER_MAX_FRAMES_def)
qed

section \<open>What a request can do\<close>

lemma redropped_get:
  assumes "app_ok app"
  shows "hm_get (by_session (ap_sessions (redropped ser req app))) k =
    (if pr_viewer_session req = Some k then None else hm_get (by_session (ap_sessions app)) k)"
proof (cases "pr_viewer_session req")
  case (Some x)
  have e: "map_option ep_session (app_endpoint x app) = hm_get (by_session (ap_sessions app)) x"
    using assms by (simp add: app_ok_def)
  show ?thesis using Some e drop_session_ok(2) [OF assms] by (auto simp: redropped_def)
qed (simp add: redropped_def)

text \<open>C4. Who a session belongs to is the region's word alone: when a connection request is answered
  with a result, that result names a new session whose agent is the non-empty user id the region sent
  and whose room is the region's own scene and the requested parcel, or the requested channel for group
  voice, whatever the viewer's body says besides; the session it replaces is gone, every other
  session is as before, and there are at most 900.\<close>

theorem provision_identity:
  assumes "app_ok app" "fresh uuid app" "provision_parse dbg (rp_request params) = Inr req" "\<not> pr_logout req"
    "provision dbg ser X uuid params app = Some (Inr v, app')"
  shows "\<exists>sdp a. v = provision_answer (''wv-'' @ uuid) sdp \<and>
    hm_get (by_session (ap_sessions app')) (''wv-'' @ uuid) = Some a \<and>
    s_agent_id (ap_store app' a) = rp_user_id params \<and> rp_user_id params \<noteq> '''' \<and>
    (if pr_channel_type req = Some MultiAgent
     then \<exists>ch. pr_channel req = Some ch \<and> s_room (ap_store app' a) = Channel ch \<and> \<not> s_spatial (ap_store app' a)
     else s_room (ap_store app' a) = Spatial (rp_scene params) (pr_parcel_local_id req) \<and> s_spatial (ap_store app' a)) \<and>
    (\<forall>sid. sid \<noteq> ''wv-'' @ uuid \<longrightarrow> hm_get (by_session (ap_sessions app')) sid =
       (if pr_viewer_session req = Some sid then None else hm_get (by_session (ap_sessions app)) sid)) \<and>
    session_count (ap_sessions app') \<le> 900"
proof -
  have ok: "app_ok app'" using assms(1,2,5) by (rule provision_ok)
  from assms(5) show ?thesis
  proof (cases rule: provision_cases)
    case (connected req' offer room spatial)
    then have req: "req' = req" using assms(3) by simp
    from connected(7) show ?thesis
    proof (cases rule: connect_cases)
      case (ok ep sdp port pool k)
      let ?s = "Session_new (''wv-'' @ uuid) (rp_user_id params) room spatial"
      let ?a = "ap_next (redropped ser req' app)"
      define sid where "sid = ''wv-'' @ uuid"
      have s: "ap_store app' ?a = ?s" using ok(5) by simp
      have g: "hm_get (by_session (ap_sessions app')) j =
          (if j = sid then Some ?a else hm_get (by_session (ap_sessions (redropped ser req app))) j)" for j
        unfolding ok(5) by (simp add: by_session_insert) (simp add: Session_new_def req sid_def)
      have room: "if pr_channel_type req = Some MultiAgent
          then \<exists>ch. pr_channel req = Some ch \<and> room = Channel ch \<and> \<not> spatial
          else room = Spatial (rp_scene params) (pr_parcel_local_id req) \<and> spatial"
        using connected(6) unfolding req room_for_def
        by (cases "pr_channel_type req") (auto simp: res_bind_Inr_iff ok_or_Inr_iff split: channel_type.splits)
      have f: "s_agent_id ?s = rp_user_id params" "s_room ?s = room" "s_spatial ?s = spatial"
        by (simp_all add: Session_new_def)
      have "session_count (ap_sessions app') \<le> 900" using \<open>app_ok app'\<close> by (simp add: app_ok_def MAX_SESSIONS_def)
      moreover have "hm_get (by_session (ap_sessions app')) k =
          (if pr_viewer_session req = Some k then None else hm_get (by_session (ap_sessions app)) k)" if "k \<noteq> sid" for k
        using that by (simp add: g redropped_get [OF assms(1)])
      moreover have "hm_get (by_session (ap_sessions app')) sid = Some ?a" by (simp add: g)
      ultimately show ?thesis
        using ok(1) connected(5) room f s unfolding sid_def by (intro exI [of _ sdp] exI [of _ ?a]) (simp split: if_splits)
    qed simp
  qed (use assms in auto)
qed

text \<open>A request the working stack accepts.\<close>

definition offer_params :: rpc_params where
  "offer_params =
     \<lparr>rp_request = JObj [(''jsep'', JObj [(''sdp'', JStr ''v=0''), (''type'', JStr ''offer'')]), (''user_id'', JStr ''mallory'')],
      rp_user_id = ''alice'', rp_scene = ''region''\<rparr>"

lemma offer_params_fields: "rp_user_id offer_params = ''alice''" "rp_scene offer_params = ''region''"
  by (simp_all add: offer_params_def)

lemma working_connects:
  assumes "ports_ok (ap_ports app)"
  shows "\<exists>v app'. connect working_rtc uuid params room spatial offer app = Some (Inr v, app')"
proof -
  have "20 * i \<le> x_elapsed working_rtc i" for i by (simp add: working_rtc_def)
  then obtain n where g: "gather_wait (x_gathered working_rtc) (x_elapsed working_rtc) 0 = Some n" using gather_returns by blast
  obtain port pool where pt: "port_take (ap_ports app) = Some (port, pool)" using port_take_ports_ok [OF assms] by blast
  obtain s1 k1 where r1: "rand_u32 (ap_counter app) (x_nanos1 working_rtc) = (s1, k1)" by fastforce
  obtain s2 k2 where r2: "rand_u32 k1 (x_nanos2 working_rtc) = (s2, k2)" by fastforce
  have w: "x_register_codec working_rtc y pt = Inr ()" "x_interceptors working_rtc = Inr ()" "x_track working_rtc a b c y = Inr ()"
    "x_build working_rtc x = Inr ()" "x_add_track working_rtc = Inr ()" "x_parse_offer working_rtc x = Inr ()"
    "x_set_remote working_rtc = Inr ()" "x_create_answer working_rtc = Inr ()" "x_set_local working_rtc = Inr ()"
    "x_local_description working_rtc = Some ''v=0''" "x_encoder working_rtc = Inr ()" "answer_sdp working_rtc = Some ''v=0''" for a b c x y pt
    by (simp_all add: working_rtc_def answer_sdp_def)
  show ?thesis unfolding connect_def Let_def by (simp add: pt establish_def r1 r2 g w map_err_def)
qed

lemma provision_identity_witness:
  "\<exists>v app'. provision (\<lambda>s. s) (\<lambda>_. ''{}'') working_rtc ''1'' offer_params (app_new ''203.0.113.10'') = Some (Inr v, app') \<and>
     (\<exists>a. hm_get (by_session (ap_sessions app')) ''wv-1'' = Some a \<and> s_agent_id (ap_store app' a) = ''alice'')"
proof -
  let ?app = "app_new ''203.0.113.10'' :: unit app"
  have f: "fresh ''1'' ?app" by (simp add: fresh_def app_new_def registry_default_def hm_simps)
  have p: "provision_parse (\<lambda>s. s) (rp_request offer_params) =
      Inr \<lparr>pr_logout = False, pr_viewer_session = None, pr_offer_sdp = Some ''v=0'', pr_channel_type = None,
           pr_parcel_local_id = 0, pr_channel = None\<rparr>" (is "_ = Inr ?req")
    by (simp add: offer_params_def provision_parse_def jget_str_def)
  have "app_ok ?app" by (rule app_new_ok)
  then have "ports_ok (ap_ports ?app)" by (simp add: app_ok_def)
  from working_connects [OF this] obtain v app' where
    c: "connect working_rtc ''1'' offer_params (Spatial ''region'' 0) True ''v=0'' ?app = Some (Inr v, app')" by blast
  have "session_count (ap_sessions ?app) = 0" by (simp add: session_count_def app_new_def registry_default_def hm_len_0_iff)
  then have pr: "provision (\<lambda>s. s) (\<lambda>_. ''{}'') working_rtc ''1'' offer_params ?app = Some (Inr v, app')"
    unfolding provision_def p using c by (simp add: Let_def MAX_SESSIONS_def room_for_def offer_params_fields)
  have "\<not> pr_logout ?req" by simp
  from provision_identity [OF app_new_ok f p this pr] pr show ?thesis by (auto simp: offer_params_def)
qed

section \<open>Answering requests\<close>

lemma establish_returns:
  assumes "\<And>i. 20 * i \<le> x_elapsed X i"
  shows "\<exists>r k. establish X counter a sid offer ip port = Some (r, k)"
proof -
  obtain n where "gather_wait (x_gathered X) (x_elapsed X) 0 = Some n" using gather_returns [OF assms] by blast
  then show ?thesis by (simp add: establish_def Let_def split: sum.split prod.split)
qed

lemma connect_returns:
  assumes "ports_ok (ap_ports app)" "\<And>i. 20 * i \<le> x_elapsed X i"
  shows "\<exists>r app'. connect X uuid params room spatial offer app = Some (r, app')"
proof -
  obtain port pool where p: "port_take (ap_ports app) = Some (port, pool)" using port_take_ports_ok [OF assms(1)] by blast
  obtain r k where e: "establish X (ap_counter app) (ap_next app) (''wv-'' @ uuid) offer (ap_public_ip app) port = Some (r, k)"
    using establish_returns [OF assms(2)] by blast
  show ?thesis using p e by (simp add: connect_def Let_def)
qed

lemma provision_returns:
  assumes "app_ok app" "\<And>i. 20 * i \<le> x_elapsed X i"
  shows "\<exists>r app'. provision dbg ser X uuid params app = Some (r, app')"
proof -
  have p: "ports_ok (ap_ports app)" "ports_ok (ap_ports (drop_session ser sid app))" for sid
    using assms(1) drop_session_ok(1) [OF assms(1)] by (simp_all add: app_ok_def)
  note c = connect_returns [OF p(1) assms(2)] connect_returns [OF p(2) assms(2)]
  show ?thesis using c
    by (simp add: provision_def Let_def split: sum.split option.split if_split prod.split)
qed

text \<open>C3. Every request is answered: in every state the service can reach, whatever the bytes of the
  body are and whatever the transport answers, a JSON-RPC POST comes back (no panic and no endless wait,
  the clock of the gathering loop advancing by at least its sleep per round) with status 200, JSON
  content, version "2.0", the identifier of the request (null when the body is not a request) and
  exactly one of a result and a textual error; an unknown method and a body that does not parse change
  nothing.\<close>

theorem rpc_always_answers:
  assumes "reachable app" "\<And>i. 20 * i \<le> x_elapsed X i"
  shows "\<exists>resp app' v. rpc_response dbg ser from_slice X uuid body app = Some (resp, app') \<and>
    resp = \<lparr>rs_status = 200, rs_content_type = Some ''application/json'', rs_body = Some v\<rparr> \<and>
    jget v ''jsonrpc'' = Some (JStr ''2.0'') \<and>
    jget v ''id'' = Some (case from_slice body of Inl _ \<Rightarrow> JNull | Inr rq \<Rightarrow> rq_id rq) \<and>
    (jget v ''result'' \<noteq> None \<and> jget v ''error'' = None \<or>
     jget v ''result'' = None \<and> (\<exists>e. jget v ''error'' = Some (JStr e))) \<and>
    ((case from_slice body of Inl _ \<Rightarrow> True | Inr rq \<Rightarrow> rq_method rq \<notin> {METHOD_PROVISION, METHOD_SIGNALING}) \<longrightarrow>
       app' = app \<and> jget v ''result'' = None)"
proof (cases "from_slice body")
  case (Inl e)
  then show ?thesis by (simp add: rpc_response_def json_200_def json_body_def rpc_err_fields)
next
  case (Inr rq)
  have "app_ok app" using assms(1) by (rule reachable_ok)
  then obtain r app' where d: "rpc_dispatch dbg ser X uuid rq app = Some (r, app')"
    using provision_returns [OF _ assms(2)] by (fastforce simp: rpc_dispatch_def)
  have u: "rq_method rq \<notin> {METHOD_PROVISION, METHOD_SIGNALING} \<longrightarrow> app' = app \<and> (\<exists>e. r = Inl e)"
    using d by (auto simp: rpc_dispatch_def)
  show ?thesis using d u Inr
    by (cases r) (auto simp: rpc_response_def json_200_def json_body_def rpc_ok_fields rpc_err_fields)
qed

lemma rpc_always_answers_witness:
  "\<exists>resp app'. rpc_response (\<lambda>s. s) (\<lambda>_. ''{}'') (\<lambda>_. Inl ''EOF'') working_rtc ''1'' ''{''
      (app_new ''203.0.113.10'') = Some (resp, app') \<and> rs_status resp = 200"
proof -
  have "\<And>i. 20 * i \<le> x_elapsed working_rtc i" by (simp add: working_rtc_def)
  from rpc_always_answers [OF reachable.start this, of "\<lambda>s. s" "\<lambda>_. ''{}''" "\<lambda>_. Inl ''EOF''" "''1''" "''{''" "''203.0.113.10''"]
  show ?thesis by auto
qed

section \<open>Bodies\<close>

lemma read_body_whole:
  "read_body limit whole (map Inr cs) =
     (if limit < length whole + length (concat cs) \<and> cs \<noteq> [] then Inr None else Inr (Some (whole @ concat cs)))"
proof (induction cs arbitrary: whole)
  case (Cons c cs)
  then show ?case by (cases "cs = []") auto
qed simp

lemma read_body_prefix:
  "read_body limit whole (map Inr cs @ Inl e # rest) =
     (if limit < length whole + length (concat cs) \<and> cs \<noteq> [] then Inr None else Inl e)"
proof (induction cs arbitrary: whole)
  case (Cons c cs)
  then show ?case by (cases "cs = []") auto
qed simp

text \<open>C28. The body limit is on the body, not on how it arrives: however the bytes are cut into chunks, a
  POST of at most 262144 bytes is answered as the request those bytes are, a longer one with the error
  "request body too large" and no effect; a transport error within the limit ends the connection with no
  effect; any other method than GET and POST is 405.\<close>

theorem body_limit:
  "handle dbg ser from_slice X uuid POST (map Inr cs) app =
     (if length (concat cs) \<le> 262144
      then map_option (\<lambda>(r, app). (Inr r, app)) (rpc_response dbg ser from_slice X uuid (concat cs) app)
      else Some (Inr (json_200 (rpc_err JNull ''request body too large'')), app)) \<and>
   handle dbg ser from_slice X uuid POST (map Inr cs @ Inl h # rest) app =
     Some (if length (concat cs) \<le> 262144 then Inl h else Inr (json_200 (rpc_err JNull ''request body too large'')), app) \<and>
   handle dbg ser from_slice X uuid OtherMethod chunks app = Some (Inr \<lparr>rs_status = 405, rs_content_type = None, rs_body = None\<rparr>, app)"
  by (auto simp: handle_def MAX_RPC_BODY_def read_body_whole read_body_prefix)

section \<open>The admin interface\<close>

text \<open>The value a request names: the string under the field of its path.\<close>

definition admin_value :: "(string \<Rightarrow> (string, json) result) \<Rightarrow> string \<Rightarrow> string \<Rightarrow> string option" where
  "admin_value from_slice path whole =
     (case from_slice whole of Inl _ \<Rightarrow> None
      | Inr v \<Rightarrow> Option.bind (jget v (if path = ''/log-level'' then ''level'' else ''mode'')) as_str)"

lemma set_level_cases:
  "(\<exists>l. parse_level dbg s = Inr l \<and> to_ascii_lowercase s = level_name l \<and> set_level dbg s c = (Inr (level_name l), c\<lparr>LOG_LEVEL := filter_as_u8 l\<rparr>) \<and>
      get_level (snd (set_level dbg s c)) = level_name l) \<or>
   (\<exists>e. parse_level dbg s = Inl e \<and> to_ascii_lowercase s \<notin> range level_name \<and> set_level dbg s c = (Inl e, c))"
  using parse_level_name [of dbg s] parse_level_of_name [of s _ dbg]
  by (cases "parse_level dbg s") (force simp: set_level_def get_level_store)+

lemma set_mic_cases:
  "(\<exists>m. parse_mic_mode dbg s = Inr m \<and> to_ascii_lowercase s = mic_name m \<and> set_mic_mode dbg s c = (Inr (mic_name m), c\<lparr>MIC_LOG_MODE := mic_as_u8 m\<rparr>) \<and>
      get_mic_mode (snd (set_mic_mode dbg s c)) = mic_name m) \<or>
   (\<exists>e. parse_mic_mode dbg s = Inl e \<and> to_ascii_lowercase s \<notin> range mic_name \<and> set_mic_mode dbg s c = (Inl e, c))"
  using parse_mic_name [of dbg s] parse_mic_of_name [of s _ dbg]
  by (cases "parse_mic_mode dbg s") (force simp: set_mic_mode_def get_mic_store)+

text \<open>C29. The admin interface does what it answers: a request is answered 200 with the settings that hold
  afterwards, or with 400, 404 or 413 and no change. The only requests that change anything are POSTs of at most
  4096 bytes to the two paths naming a value of that setting, and then that setting is that value and the other
  is as before. A peer that is not on the loopback is not served and changes nothing.\<close>

theorem admin_only_sets:
  assumes "admin_handle dbg from_slice m path (map Inr cs :: ('h, string) result list) c = (Inr resp, c')"
  shows "(if c' = c then rs_status resp \<in> {200, 400, 404, 413} else rs_status resp = 200) \<and>
    rs_content_type resp = Some ''application/json'' \<and>
    (rs_status resp = 200 \<longrightarrow> rs_body resp = Some (status_json c') \<and>
       (m = GET \<and> path = ''/status'' \<and> c' = c \<or>
        m = POST \<and> length (concat cs) \<le> 4096 \<and>
        (\<exists>s. admin_value from_slice path (concat cs) = Some s \<and>
           (path = ''/log-level'' \<and> get_level c' = to_ascii_lowercase s \<and> MIC_LOG_MODE c' = MIC_LOG_MODE c \<or>
            path = ''/mic-log-mode'' \<and> get_mic_mode c' = to_ascii_lowercase s \<and> LOG_LEVEL c' = LOG_LEVEL c)))) \<and>
    (m = POST \<and> path = ''/log-level'' \<and> length (concat cs) \<le> 4096 \<and>
       (\<exists>s. admin_value from_slice path (concat cs) = Some s \<and> to_ascii_lowercase s \<in> range level_name) \<longrightarrow> rs_status resp = 200) \<and>
    (m = POST \<and> path = ''/mic-log-mode'' \<and> length (concat cs) \<le> 4096 \<and>
       (\<exists>s. admin_value from_slice path (concat cs) = Some s \<and> to_ascii_lowercase s \<in> range mic_name) \<longrightarrow> rs_status resp = 200) \<and>
    (\<forall>peer. admin_accept peer (admin_handle dbg from_slice m path (map Inr cs :: ('h, string) result list)) c =
       (if is_loopback peer then (Some (Inr resp), c') else (None, c)))"
proof -
  define whole where "whole = concat cs"
  define val where "val = admin_value from_slice path whole"
  have acc: "admin_accept peer (admin_handle dbg from_slice m path (map Inr cs :: ('h, string) result list)) c =
       (if is_loopback peer then (Some (Inr resp), c') else (None, c))" for peer
    using assms by (simp add: admin_accept_def)
  have rb: "read_body MAX_ADMIN_BODY [] (map Inr cs :: ('h, string) result list) =
      (if 4096 < length whole then Inr None else Inr (Some whole))"
    by (auto simp: read_body_whole MAX_ADMIN_BODY_def whole_def)
  consider (status) "m = GET" "path = ''/status''" | (nf) "\<not> (m = GET \<and> path = ''/status'')" "m \<noteq> POST \<or> (path \<noteq> ''/log-level'' \<and> path \<noteq> ''/mic-log-mode'')"
    | (level) "m = POST" "path = ''/log-level''" | (mode) "m = POST" "path = ''/mic-log-mode''" by blast
  then show ?thesis
  proof cases
    case status
    then show ?thesis using assms acc by (auto simp: admin_handle_def json_body_def)
  next
    case nf
    then show ?thesis using assms acc by (auto simp: admin_handle_def json_body_def)
  next
    case level
    have v: "val = (case from_slice whole of Inl _ \<Rightarrow> None | Inr v \<Rightarrow> Option.bind (jget v ''level'') as_str)"
      by (simp add: val_def admin_value_def level)
    have e: "admin_handle dbg from_slice m path (map Inr cs :: ('h, string) result list) c =
      (if 4096 < length whole then (Inr (json_body 413 (json_obj [(''error'', JStr ''body too large'')])), c)
       else case val of None \<Rightarrow> (Inr (json_body 400 (json_obj [(''error'', JStr (''expected JSON body {\"level\": \"...\"}''))])), c)
         | Some s \<Rightarrow> (case set_level dbg s c of (Inr _, c') \<Rightarrow> (Inr (json_body 200 (status_json c')), c')
            | (Inl e, c') \<Rightarrow> (Inr (json_body 400 (json_obj [(''error'', JStr e)])), c')))"
      unfolding admin_handle_def rb using level by (auto simp: v Let_def split: option.split sum.split prod.split)
    show ?thesis using assms acc level unfolding e val_def [symmetric] whole_def [symmetric]
      using set_level_cases [of dbg "the val" c]
      by (cases "4096 < length whole"; cases val) (auto simp: json_body_def get_level_store)
  next
    case mode
    have v: "val = (case from_slice whole of Inl _ \<Rightarrow> None | Inr v \<Rightarrow> Option.bind (jget v ''mode'') as_str)"
      by (simp add: val_def admin_value_def mode)
    have e: "admin_handle dbg from_slice m path (map Inr cs :: ('h, string) result list) c =
      (if 4096 < length whole then (Inr (json_body 413 (json_obj [(''error'', JStr ''body too large'')])), c)
       else case val of None \<Rightarrow> (Inr (json_body 400 (json_obj [(''error'', JStr (''expected JSON body {\"mode\": \"...\"}''))])), c)
         | Some s \<Rightarrow> (case set_mic_mode dbg s c of (Inr _, c') \<Rightarrow> (Inr (json_body 200 (status_json c')), c')
            | (Inl e, c') \<Rightarrow> (Inr (json_body 400 (json_obj [(''error'', JStr e)])), c')))"
      unfolding admin_handle_def rb using mode by (auto simp: v Let_def split: option.split sum.split prod.split)
    show ?thesis using assms acc mode unfolding e val_def [symmetric] whole_def [symmetric]
      using set_mic_cases [of dbg "the val" c]
      by (cases "4096 < length whole"; cases val) (auto simp: json_body_def get_mic_store)
  qed
qed

lemma admin_only_sets_witness:
  "rs_status \<lparr>rs_status = 200, rs_content_type = Some ''application/json'',
     rs_body = Some (status_json (logctl_init\<lparr>LOG_LEVEL := filter_as_u8 FDebug\<rparr>))\<rparr> = 200 \<and>
   snd (admin_accept (V4 203 0 113 10) (admin_handle (\<lambda>s. s) (\<lambda>_. Inr (JObj [(''level'', JStr ''Debug'')])) POST ''/log-level''
     (map Inr [''x''] :: (unit, string) result list)) logctl_init) = logctl_init"
proof -
  have pl: "parse_level (\<lambda>s. s) ''Debug'' = Inr FDebug"
    by (rule parse_level_of_name) code_simp
  have "admin_handle (\<lambda>s. s) (\<lambda>_. Inr (JObj [(''level'', JStr ''Debug'')])) POST ''/log-level''
      (map Inr [''x''] :: (unit, string) result list) logctl_init =
    (Inr \<lparr>rs_status = 200, rs_content_type = Some ''application/json'',
     rs_body = Some (status_json (logctl_init\<lparr>LOG_LEVEL := filter_as_u8 FDebug\<rparr>))\<rparr>, logctl_init\<lparr>LOG_LEVEL := filter_as_u8 FDebug\<rparr>)"
    by (simp add: admin_handle_def MAX_ADMIN_BODY_def set_level_def pl Let_def json_body_def)
  from admin_only_sets [OF this] show ?thesis by (simp add: is_loopback_def)
qed

section \<open>The tick\<close>

lemma fold_drop_keeps:
  assumes "app_ok app"
  shows "app_ok (fold (drop_session ser) ids app) \<and>
    hm_get (by_session (ap_sessions (fold (drop_session ser) ids app))) k =
      (if k \<in> set ids then None else hm_get (by_session (ap_sessions app)) k) \<and>
    same_ids (ap_store app) (ap_store (fold (drop_session ser) ids app))"
  using assms
proof (induction ids arbitrary: app)
  case (Cons i ids)
  note d = drop_session_ok [OF Cons.prems, where ser = ser and sid = i]
  show ?case using Cons.IH [OF d(1)] d(2) same_ids_trans [OF d(4)] by auto
qed simp

text \<open>An endpoint is stored under the identifier of its session.\<close>

lemma endpoint_id:
  assumes "app_ok app" "app_endpoint sid app = Some ep" shows "s_id (ap_store app (ep_session ep)) = sid"
proof -
  have "map_option ep_session (app_endpoint sid app) = hm_get (by_session (ap_sessions app)) sid"
    and r: "reg_ok (ap_store app) (ap_sessions app)" using assms(1) by (simp_all add: app_ok_def)
  then have "hm_get (by_session (ap_sessions app)) sid = Some (ep_session ep)" using assms(2) by simp
  then show ?thesis by (rule reg_okD(3) [OF r])
qed

lemma dead_sessions_iff:
  assumes "app_ok app"
  shows "sid \<in> set (dead_sessions app) \<longleftrightarrow>
    (\<exists>a. hm_get (by_session (ap_sessions app)) sid = Some a \<and> s_closed (ap_store app a))"
proof -
  have ok: "hm_ok (ap_endpoints app)"
    and e: "\<And>k. map_option ep_session (app_endpoint k app) = hm_get (by_session (ap_sessions app)) k"
    using assms by (simp_all add: app_ok_def)
  have "sid \<in> set (dead_sessions app) \<longleftrightarrow> (\<exists>ep k. app_endpoint k app = Some ep \<and> s_closed (ap_store app (ep_session ep)) \<and>
      sid = s_id (ap_store app (ep_session ep)))"
    by (auto simp: dead_sessions_def hm_values_iff [OF ok] app_endpoint_def)
  also have "\<dots> \<longleftrightarrow> (\<exists>ep. app_endpoint sid app = Some ep \<and> s_closed (ap_store app (ep_session ep)))"
    using endpoint_id [OF assms] by metis
  also have "\<dots> \<longleftrightarrow> (\<exists>a. hm_get (by_session (ap_sessions app)) sid = Some a \<and> s_closed (ap_store app a))"
    unfolding e [of sid, symmetric] by auto
  finally show ?thesis .
qed

lemma reap_keeps:
  assumes "app_ok app"
  shows "hm_get (by_session (ap_sessions (reap ser app))) sid =
    (case hm_get (by_session (ap_sessions app)) sid of
       None \<Rightarrow> None | Some a \<Rightarrow> if s_closed (ap_store app a) then None else Some a)"
  using fold_drop_keeps [OF assms, of ser "dead_sessions app" sid] dead_sessions_iff [OF assms, of sid]
  by (auto simp: reap_def split: option.split)

lemma drain_members_inbound:
  "s_inbound (drain_members c ms st a) = (if a \<in> set ms then [] else s_inbound (st a))"
proof (induction ms arbitrary: st)
  case (Cons m ms)
  define st' where "st' = st(m := fst (drain_member c (st m)))"
  have e: "drain_members c (m # ms) st = drain_members c ms st'" by (simp add: drain_members_def st'_def)
  have "s_inbound (st' a) = (if a = m then [] else s_inbound (st a))" by (simp add: st'_def drain_member_spec)
  then show ?case unfolding e Cons.IH by auto
qed (simp add: drain_members_def)

lemma serve_rooms_inbound:
  "s_inbound (ap_store (fst (serve_rooms c keys app)) a) =
     (if \<exists>r \<in> set keys. length (reg_members (ap_sessions app) r) < 2 \<and> a \<in> set (reg_members (ap_sessions app) r)
      then [] else s_inbound (ap_store app a))"
proof (induction keys arbitrary: app)
  case (Cons r keys)
  let ?ms = "reg_members (ap_sessions app) r"
  show ?case
  proof (cases "length ?ms < 2")
    case True
    then have e: "fst (serve_rooms c (r # keys) app) = fst (serve_rooms c keys (app\<lparr>ap_store := drain_members c ?ms (ap_store app)\<rparr>))"
      by (simp add: Let_def)
    show ?thesis unfolding e Cons.IH using True by (auto simp: drain_members_inbound)
  next
    case False
    then have e: "fst (serve_rooms c (r # keys) app) = fst (serve_rooms c keys app)" by (simp add: Let_def split_beta)
    show ?thesis unfolding e Cons.IH using False by auto
  qed
qed simp

lemma jobs_disjoint:
  assumes "reg_ok st reg" "distinct keys"
  shows "distinct (concat (filter (\<lambda>ms. 2 \<le> length ms) (map (reg_members reg) keys)))"
  using assms(2)
proof (induction keys)
  case (Cons r keys)
  have "set (reg_members reg r) \<inter> set (reg_members reg r') = {}" if "r' \<in> set keys" for r'
    using members_set [OF assms(1)] that Cons.prems by auto
  then show ?case using Cons members_distinct [OF assms(1), of r] by auto
qed simp

lemma tick_spec:
  assumes "reachable app" "mixer_tick c ser now (app, mx) = ((app', mx'), jobs, w)"
  shows "if mx_inflight mx \<noteq> 0 then app' = app \<and> jobs = [] \<and> mx_inflight mx' = mx_inflight mx
    else (\<forall>sid. hm_get (by_session (ap_sessions app')) sid = (case hm_get (by_session (ap_sessions app)) sid of
             None \<Rightarrow> None | Some a \<Rightarrow> if s_closed (ap_store app a) then None else Some a)) \<and>
      mx_inflight mx' = length jobs \<and> distinct (concat jobs) \<and>
      set jobs = {ms. \<exists>r. ms = reg_members (ap_sessions app') r \<and> 2 \<le> length ms} \<and>
      (\<forall>a. live (ap_sessions app') a \<longrightarrow>
         (if a \<in> set (concat jobs) then s_inbound (ap_store app' a) = s_inbound (ap_store (reap ser app) a)
          else reg_members (ap_sessions app') (s_room (ap_store app' a)) = [a] \<and> s_inbound (ap_store app' a) = []))"
proof (cases "mx_inflight mx = 0")
  case False
  then show ?thesis using assms(2) by (auto simp: mixer_tick_def Let_def split: if_splits)
next
  case True
  have ok: "app_ok app" using assms(1) by (rule reachable_ok)
  let ?app = "reap ser app"
  define reg where "reg = ap_sessions ?app"
  let ?keys = "reg_rooms reg"
  note sv = serve_rooms_ok [OF reap_ok [OF ok, of ser], where c = c and keys = ?keys]
  have app': "app' = fst (serve_rooms c ?keys ?app)" and jobs: "jobs = filter (\<lambda>ms. 2 \<le> length ms) (map (reg_members reg) ?keys)"
    and infl: "mx_inflight mx' = length jobs"
    using assms(2) True sv unfolding mixer_tick_def by (auto simp add: Let_def split_beta reg_def)
  have reg': "ap_sessions app' = reg" and st: "same_ids (ap_store ?app) (ap_store app')" using sv by (simp_all add: app' reg_def)
  have ro: "reg_ok (ap_store ?app) reg" using reap_ok [OF ok, of ser] by (simp add: app_ok_def reg_def)
  have dk: "distinct ?keys" using reg_okD(2) [OF ro] by (simp add: reg_rooms_def hm_keys_def hm_ok_def)
  have mem: "set (reg_members reg r) = {a. live reg a \<and> s_room (ap_store ?app a) = r}" for r by (rule members_set [OF ro])
  have sj: "set jobs = {ms. \<exists>r. ms = reg_members reg r \<and> 2 \<le> length ms}"
  proof -
    have "r \<in> set ?keys" if "2 \<le> length (reg_members reg r)" for r
      using rooms_iff [OF ro, of r] that by auto
    then show ?thesis by (auto simp: jobs)
  qed
  have lone: "reg_members reg (s_room (ap_store ?app a)) = [a] \<and> s_inbound (ap_store app' a) = []"
    if "live reg a" "a \<notin> set (concat jobs)" for a
  proof -
    let ?r = "s_room (ap_store ?app a)"
    have a: "a \<in> set (reg_members reg ?r)" using that(1) mem by simp
    have nj: "ms \<notin> set jobs" if "a \<in> set ms" for ms using that \<open>a \<notin> set (concat jobs)\<close> by auto
    have "reg_members reg ?r \<notin> set jobs" using a by (rule nj)
    then have "\<not> 2 \<le> length (reg_members reg ?r)" unfolding sj by blast
    then have l: "length (reg_members reg ?r) < 2" by (rule not_le_imp_less)
    have "reg_members reg ?r \<noteq> []" using a by auto
    then have "?r \<in> set ?keys" using rooms_iff [OF ro] by blast
    then have "s_inbound (ap_store app' a) = []"
      unfolding app' serve_rooms_inbound using a l by (auto simp: reg_def)
    moreover have "reg_members reg ?r = [a]" using a l by (cases "reg_members reg ?r") (auto simp: less_Suc_eq)
    ultimately show ?thesis by simp
  qed
  have kept: "s_inbound (ap_store app' a) = s_inbound (ap_store ?app a)" if j: "a \<in> set (concat jobs)" for a
  proof -
    obtain ms where ms: "ms \<in> set jobs" "a \<in> set ms" using j by auto
    then obtain r where "ms = reg_members reg r" "2 \<le> length ms" using sj by blast
    then have r: "a \<in> set (reg_members reg r)" "2 \<le> length (reg_members reg r)" using ms by simp_all
    have "r' = r" if "a \<in> set (reg_members reg r')" for r' using that r(1) mem by simp
    then show ?thesis unfolding app' serve_rooms_inbound using r(2) by (auto simp: reg_def)
  qed
  have room: "s_room (ap_store app' a) = s_room (ap_store ?app a)" for a using st by (simp add: same_ids_def)
  have "distinct (concat jobs)" unfolding jobs by (rule jobs_disjoint [OF ro dk])
  moreover have "hm_get (by_session reg) sid = (case hm_get (by_session (ap_sessions app)) sid of
      None \<Rightarrow> None | Some a \<Rightarrow> if s_closed (ap_store app a) then None else Some a)" for sid
    unfolding reg_def by (rule reap_keeps [OF ok])
  moreover have "if a \<in> set (concat jobs) then s_inbound (ap_store app' a) = s_inbound (ap_store ?app a)
      else reg_members reg (s_room (ap_store app' a)) = [a] \<and> s_inbound (ap_store app' a) = []" if "live reg a" for a
    unfolding room using lone [OF that] kept [of a] by (cases "a \<in> set (concat jobs)") simp_all
  ultimately show ?thesis unfolding reg' using True infl sj by simp
qed

text \<open>C6. A tick serves everyone exactly once, or is skipped whole: while tasks of the previous tick are
  outstanding nothing is touched and no task is spawned; otherwise exactly the sessions marked closed are
  dropped, one task is counted and spawned for each room of two or more remaining sessions, no session
  is in two tasks, and every other remaining session is alone in its room and has its jitter buffer
  emptied, while the buffers of the tasks' sessions are left to them.\<close>

theorem tick_serves_once:
  assumes "reachable app" "mixer_tick c ser now (app, mx) = ((app', mx'), jobs, w)"
  shows "if mx_inflight mx \<noteq> 0 then app' = app \<and> jobs = [] \<and> mx_inflight mx' = mx_inflight mx
    else (\<forall>sid. hm_get (by_session (ap_sessions app')) sid = (case hm_get (by_session (ap_sessions app)) sid of
             None \<Rightarrow> None | Some a \<Rightarrow> if s_closed (ap_store app a) then None else Some a)) \<and>
      mx_inflight mx' = length jobs \<and> distinct (concat jobs) \<and>
      set jobs = {ms. \<exists>r. ms = reg_members (ap_sessions app') r \<and> 2 \<le> length ms} \<and>
      (\<forall>a. live (ap_sessions app') a \<longrightarrow>
         (if a \<in> set (concat jobs) then s_inbound (ap_store app' a) = s_inbound (ap_store (reap ser app) a)
          else reg_members (ap_sessions app') (s_room (ap_store app' a)) = [a] \<and> s_inbound (ap_store app' a) = []))"
  using assms by (rule tick_spec)

lemma tick_serves_once_witness:
  "\<exists>app' mx' w. mixer_tick logctl_init (\<lambda>_. ''{}'') 0 (app_new ''203.0.113.10'' :: unit app,
       \<lparr>mx_inflight = 3, mx_skipped = 0, mx_last_warned = 0\<rparr>) = ((app', mx'), [], w) \<and> mx_inflight mx' = 3"
proof -
  have t: "mixer_tick logctl_init (\<lambda>_. ''{}'') 0 (app_new ''203.0.113.10'' :: unit app,
       \<lparr>mx_inflight = 3, mx_skipped = 0, mx_last_warned = 0\<rparr>) =
     ((app_new ''203.0.113.10'', \<lparr>mx_inflight = 3, mx_skipped = 1, mx_last_warned = 0\<rparr>), [], None)"
    by (simp add: mixer_tick_def)
  from tick_serves_once [OF reachable.start t] t show ?thesis by simp
qed

end
