(* ===== verification/Server.thy ===== *)
theory Server
  imports App
begin

text \<open>
  Start-up and the listening loops of \<open>src/src/main.rs\<close> (\<open>main\<close>, \<open>admin_loop\<close>): the checks in order, the
  background tasks, and which connections are served. Accepts and TLS handshakes are events.
\<close>

section \<open>Start-up\<close>

definition RPC_BIND :: string where "RPC_BIND = ''0.0.0.0:9443''"
definition PUBLIC_IP_ENV :: string where "PUBLIC_IP_ENV = ''WOLFVOICE_PUBLIC_IP''"
definition ADMIN_BIND :: string where "ADMIN_BIND = ''127.0.0.1:9444''"

datatype background = MixerLoop | AdminLoop

datatype 'a startup = ExitCode nat | Fails string "background list" | Listens 'a "background list"

text \<open>\<open>process::exit(2)\<close>, an error returned from \<open>main\<close> after the background tasks were spawned, or the
  accept loop.\<close>

definition main_start ::
    "(string \<Rightarrow> string option) \<Rightarrow> (string \<Rightarrow> (string, 'f) result) \<Rightarrow> ('f \<Rightarrow> (string, 'c list) result)
       \<Rightarrow> ('f \<Rightarrow> (string, 'k list) result) \<Rightarrow> ('f \<Rightarrow> (string, 'k list) result) \<Rightarrow> ('f \<Rightarrow> (string, 'k list) result)
       \<Rightarrow> ('c list \<Rightarrow> 'k \<Rightarrow> (string, 'g) result) \<Rightarrow> (string \<Rightarrow> (string, 'addr) result)
       \<Rightarrow> ('addr \<Rightarrow> (string, unit) result) \<Rightarrow> 'e app startup" where
  "main_start env_var open_file read_certs pkcs8 rsa ec single_cert parse_addr bind_addr =
     (case read_public_ip (env_var PUBLIC_IP_ENV) of
        None \<Rightarrow> ExitCode 2
      | Some public_ip \<Rightarrow>
          (let app = app_new public_ip; spawned = [MixerLoop, AdminLoop]
           in case res_bind (load_tls open_file read_certs pkcs8 rsa ec single_cert)
                     (\<lambda>_. res_bind (parse_addr RPC_BIND) bind_addr) of
                Inl e \<Rightarrow> Fails e spawned
              | Inr _ \<Rightarrow> Listens app spawned))"

section \<open>The two listeners\<close>

text \<open>The accept loop of \<open>main\<close>: an accept that fails is skipped, and each connection is taken up in a task of
  its own, which ends when the TLS handshake fails and otherwise hands the stream to the HTTP library, with
  \<open>handle\<close> as the service. The result lists the streams handed over. How the library reads requests from a
  stream and writes the responses back is not modelled.\<close>

datatype 's rpc_event = RpcAcceptFails | RpcPeer "(string, 's) result"

fun rpc_accepts :: "'s rpc_event list \<Rightarrow> 's list" where
  "rpc_accepts [] = []"
| "rpc_accepts (RpcAcceptFails # es) = rpc_accepts es"
| "rpc_accepts (RpcPeer (Inl e) # es) = rpc_accepts es"
| "rpc_accepts (RpcPeer (Inr tls_stream) # es) = tls_stream # rpc_accepts es"

lemma rpc_accepts_append: "rpc_accepts (es @ es') = rpc_accepts es @ rpc_accepts es'"
  by (induction es rule: rpc_accepts.induct) simp_all

text \<open>Every connection whose handshake succeeds is served, whatever fails before it.\<close>

lemma rpc_accepts_all: "tls_stream \<in> set (rpc_accepts es) \<longleftrightarrow> RpcPeer (Inr tls_stream) \<in> set es"
  by (induction es rule: rpc_accepts.induct) auto

text \<open>\<open>admin_loop\<close>: a listener that cannot be bound ends the task; a failed accept or a foreign peer is skipped.\<close>

datatype 'q admin_event = AdminAcceptFails | AdminPeer ip_addr "'q list"

fun admin_accepts :: "'q admin_event list \<Rightarrow> 'q list list" where
  "admin_accepts [] = []"
| "admin_accepts (AdminAcceptFails # es) = admin_accepts es"
| "admin_accepts (AdminPeer peer qs # es) = (if \<not> is_loopback peer then admin_accepts es else qs # admin_accepts es)"

definition admin_loop :: "(string \<Rightarrow> (string, unit) result) \<Rightarrow> 'q admin_event list \<Rightarrow> 'q list list" where
  "admin_loop bind_addr es = (case bind_addr ADMIN_BIND of Inl _ \<Rightarrow> [] | Inr _ \<Rightarrow> admin_accepts es)"

lemma admin_loop_serves:
  "admin_loop bind_addr es = (case bind_addr ''127.0.0.1:9444'' of Inl _ \<Rightarrow> []
     | Inr _ \<Rightarrow> concat (map (\<lambda>e. case e of AdminPeer peer qs \<Rightarrow> if is_loopback peer then [qs] else [] | AdminAcceptFails \<Rightarrow> []) es))"
proof -
  have "admin_accepts es = concat (map (\<lambda>e. case e of AdminPeer peer qs \<Rightarrow> if is_loopback peer then [qs] else []
      | AdminAcceptFails \<Rightarrow> []) es)"
    by (induction es rule: admin_accepts.induct) auto
  then show ?thesis by (simp add: admin_loop_def ADMIN_BIND_def split: sum.split)
qed

section \<open>Properties\<close>

text \<open>C13. The service starts exactly when it should, and fails loudly otherwise: with the public address unset
  or blank the process exits with status 2 before any task is spawned; with the address set, the mixer and
  the admin listener are running before the certificates are read, and the RPC listener opens exactly when
  the certificates load, "0.0.0.0:9443" parses and the bind succeeds, on an application that advertises the
  address as it was given, has no session and no endpoint, and hands out the media port 40000 first; the
  first of the three that fails is the error the process ends with.\<close>

theorem startup_outcomes:
  "case main_start env_var open_file read_certs pkcs8 rsa ec single_cert parse_addr bind_addr of
     ExitCode n \<Rightarrow> n = 2 \<and> (case env_var ''WOLFVOICE_PUBLIC_IP'' of None \<Rightarrow> True | Some v \<Rightarrow> trim v = '''')
   | Fails e spawned \<Rightarrow> spawned = [MixerLoop, AdminLoop] \<and>
       (\<exists>v. env_var ''WOLFVOICE_PUBLIC_IP'' = Some v \<and> trim v \<noteq> '''') \<and>
       (load_tls open_file read_certs pkcs8 rsa ec single_cert = Inl e \<or>
        (\<exists>g. load_tls open_file read_certs pkcs8 rsa ec single_cert = Inr g \<and>
         (parse_addr ''0.0.0.0:9443'' = Inl e \<or> (\<exists>a. parse_addr ''0.0.0.0:9443'' = Inr a \<and> bind_addr a = Inl e))))
   | Listens app spawned \<Rightarrow> spawned = [MixerLoop, AdminLoop] \<and>
       (\<exists>v g a. env_var ''WOLFVOICE_PUBLIC_IP'' = Some v \<and> trim v \<noteq> '''' \<and>
         load_tls open_file read_certs pkcs8 rsa ec single_cert = Inr g \<and>
         parse_addr ''0.0.0.0:9443'' = Inr a \<and> bind_addr a = Inr () \<and> ap_public_ip app = v) \<and>
       session_count (ap_sessions app) = 0 \<and> reg_rooms (ap_sessions app) = [] \<and> ap_endpoints app = [] \<and>
       map_option fst (port_take (ap_ports app)) = Some 40000"
  by (auto simp: main_start_def read_public_ip_def opt_filter_def PUBLIC_IP_ENV_def RPC_BIND_def res_bind_def Let_def
      app_new_def session_count_def registry_default_def hm_empty_def reg_rooms_def PortPool_new_def port_take_def
      MEDIA_PORT_LO_def MEDIA_PORT_HI_def hm_len_def hm_keys_def split: option.splits sum.splits)

end
