(* ===== verification/Interleaving.thy ===== *)
theory Interleaving
  imports App
begin

text \<open>
  The handlers at the granularity of their locks. The program runs its handlers on many threads, and
  \<open>Registry\<close>, the endpoint map and the session flags are behind separate locks, so two handlers
  interleave between any two of the steps below. A request slot is a program counter \<open>pc\<close>; a state is
  the application and the list of slots; a step is one locked section of one slot. A slot that has
  finished is idle and takes the next request.

  The theory shows that the order in which \<open>Registry::insert\<close> and \<open>Registry::remove\<close> take their two
  locks keeps the indices usable at every moment and exact whenever no request is in flight, that the
  session ceiling is overrun by at most the number of slots, and that a session can be left
  registered without an endpoint for good.
\<close>

section \<open>The steps\<close>

datatype 'e pc =
    Idle
  | PCheck string string "room_key option" bool  \<comment> \<open>\<open>provision\<close>, before the capacity check\<close>
  | PEstablish arc u16                    \<comment> \<open>the session object exists, the transport is being built on the port\<close>
  | PEndpoint arc "'e endpoint"           \<comment> \<open>before \<open>endpoints.insert\<close>\<close>
  | PRoom arc                             \<comment> \<open>in \<open>Registry::insert\<close>, before the room index\<close>
  | PSession arc                          \<comment> \<open>in \<open>Registry::insert\<close>, before the session index\<close>
  | DEndpoint string                      \<comment> \<open>\<open>drop_session\<close>, before \<open>endpoints.remove\<close>\<close>
  | DSession string                       \<comment> \<open>in \<open>Registry::remove\<close>, before the session index\<close>
  | DRoom arc                             \<comment> \<open>in \<open>Registry::remove\<close>, before the room index\<close>
  | DForget arc                           \<comment> \<open>in \<open>Registry::remove\<close>, before the loop over the others\<close>
  | DClose arc                            \<comment> \<open>in \<open>Registry::remove\<close>, before the closed flag\<close>

type_synonym 'e mstate = "'e app \<times> 'e pc list"

text \<open>A slot holds the identifier of the session it is creating.\<close>

fun creating :: "'e pc \<Rightarrow> arc option" where
  "creating (PEstablish a port) = Some a"
| "creating (PEndpoint a ep) = Some a"
| "creating (PRoom a) = Some a"
| "creating (PSession a) = Some a"
| "creating _ = None"

text \<open>A fresh identifier is new to both indices and to the slots at work.\<close>

definition new_id :: "string \<Rightarrow> 'e mstate \<Rightarrow> bool" where
  "new_id sid = (\<lambda>(app, ts). hm_get (by_session (ap_sessions app)) sid = None \<and>
     (\<forall>r. sid \<notin> set (ids_of (ap_sessions app) r)) \<and>
     (\<forall>t \<in> set ts. \<forall>a. creating t = Some a \<longrightarrow> s_id (ap_store app a) \<noteq> sid))"

text \<open>A connection request carries the identifier it will draw, the agent, and the room with its kind, \<open>None\<close>
  being a group request without a channel. The port is taken with the session object; the transport can
  be built on it only while no other endpoint has its socket there.\<close>

definition in_use :: "u16 \<Rightarrow> 'e mstate \<Rightarrow> bool" where
  "in_use port = (\<lambda>(app, ts). (\<exists>sid ep. app_endpoint sid app = Some ep \<and> ep_port ep = port) \<or>
     (\<exists>a ep. PEndpoint a ep \<in> set ts \<and> ep_port ep = port))"

definition is_spatial :: "room_key option \<Rightarrow> bool" where
  "is_spatial room = (case room of Some (Spatial region parcel) \<Rightarrow> True | _ \<Rightarrow> False)"

inductive mstep :: "'e mstate \<Rightarrow> 'e mstate \<Rightarrow> bool" where
  request: "i < length ts \<Longrightarrow> ts ! i = Idle \<Longrightarrow>
    mstep (app, ts) (app, ts[i := PCheck sid agent room (is_spatial room)])"
| full: "i < length ts \<Longrightarrow> ts ! i = PCheck sid agent room spatial \<Longrightarrow> MAX_SESSIONS \<le> session_count (ap_sessions app) \<Longrightarrow>
    mstep (app, ts) (app, ts[i := Idle])"
| no_user: "i < length ts \<Longrightarrow> ts ! i = PCheck sid '''' room spatial \<Longrightarrow> session_count (ap_sessions app) < MAX_SESSIONS \<Longrightarrow>
    mstep (app, ts) (app, ts[i := Idle])"
| no_channel: "i < length ts \<Longrightarrow> ts ! i = PCheck sid agent None spatial \<Longrightarrow> session_count (ap_sessions app) < MAX_SESSIONS \<Longrightarrow>
    mstep (app, ts) (app, ts[i := Idle])"
| check: "i < length ts \<Longrightarrow> ts ! i = PCheck sid agent (Some room) spatial \<Longrightarrow> session_count (ap_sessions app) < MAX_SESSIONS \<Longrightarrow>
    agent \<noteq> '''' \<Longrightarrow> new_id sid (app, ts) \<Longrightarrow> port_take (ap_ports app) = Some (port, pool) \<Longrightarrow>
    mstep (app, ts)
      (app\<lparr>ap_store := (ap_store app)(ap_next app := Session_new sid agent room spatial), ap_next := ap_next app + 1,
           ap_ports := pool\<rparr>,
       ts[i := PEstablish (ap_next app) port])"
| failed: "i < length ts \<Longrightarrow> ts ! i = PEstablish a port \<Longrightarrow> mstep (app, ts) (app, ts[i := Idle])"
| established: "i < length ts \<Longrightarrow> ts ! i = PEstablish a port \<Longrightarrow> ep_session ep = a \<Longrightarrow> ep_port ep = port \<Longrightarrow>
    \<not> in_use port (app, ts) \<Longrightarrow>
    mstep (app, ts) (app, ts[i := PEndpoint a ep])"
| endpoint: "i < length ts \<Longrightarrow> ts ! i = PEndpoint a ep \<Longrightarrow>
    mstep (app, ts) (app\<lparr>ap_endpoints := hm_insert (s_id (ap_store app a)) ep (ap_endpoints app)\<rparr>, ts[i := PRoom a])"
| room: "i < length ts \<Longrightarrow> ts ! i = PRoom a \<Longrightarrow>
    mstep (app, ts) (app\<lparr>ap_sessions := insert_room (ap_store app) a (ap_sessions app)\<rparr>, ts[i := PSession a])"
| session: "i < length ts \<Longrightarrow> ts ! i = PSession a \<Longrightarrow>
    mstep (app, ts) (app\<lparr>ap_sessions := insert_session (ap_store app) a (ap_sessions app)\<rparr>, ts[i := Idle])"
| drop: "i < length ts \<Longrightarrow> ts ! i = Idle \<Longrightarrow> mstep (app, ts) (app, ts[i := DEndpoint sid])"
| drop_endpoint: "i < length ts \<Longrightarrow> ts ! i = DEndpoint sid \<Longrightarrow>
    mstep (app, ts) (app\<lparr>ap_endpoints := hm_remove sid (ap_endpoints app)\<rparr>, ts[i := DSession sid])"
| drop_unknown: "i < length ts \<Longrightarrow> ts ! i = DSession sid \<Longrightarrow> hm_get (by_session (ap_sessions app)) sid = None \<Longrightarrow>
    mstep (app, ts) (app, ts[i := Idle])"
| drop_session: "i < length ts \<Longrightarrow> ts ! i = DSession sid \<Longrightarrow> hm_get (by_session (ap_sessions app)) sid = Some a \<Longrightarrow>
    mstep (app, ts)
      (app\<lparr>ap_sessions := (ap_sessions app)\<lparr>by_session := hm_remove sid (by_session (ap_sessions app))\<rparr>\<rparr>, ts[i := DRoom a])"
| drop_room: "i < length ts \<Longrightarrow> ts ! i = DRoom a \<Longrightarrow>
    mstep (app, ts)
      (app\<lparr>ap_sessions := remove_room (s_room (ap_store app a)) (s_id (ap_store app a)) (ap_sessions app)\<rparr>, ts[i := DForget a])"
| drop_forget: "i < length ts \<Longrightarrow> ts ! i = DForget a \<Longrightarrow>
    mstep (app, ts)
      (app\<lparr>ap_store := forget_all (s_agent_id (ap_store app a)) (hm_values (by_session (ap_sessions app))) (ap_store app)\<rparr>,
       ts[i := DClose a])"
| drop_close: "i < length ts \<Longrightarrow> ts ! i = DClose a \<Longrightarrow>
    mstep (app, ts) (app\<lparr>ap_store := (ap_store app)(a := (ap_store app a)\<lparr>s_closed := True\<rparr>)\<rparr>, ts[i := Idle])"
| contents: "same_ids (ap_store app) st \<Longrightarrow> mstep (app, ts) (app\<lparr>ap_store := st\<rparr>, ts)"

text \<open>The states of a run from start-up with \<open>k\<close> request slots.\<close>

inductive mreach :: "nat \<Rightarrow> 'e mstate \<Rightarrow> bool" for k :: nat where
  start: "mreach k (app_new ip, replicate k Idle)"
| step: "mreach k s \<Longrightarrow> mstep s s' \<Longrightarrow> mreach k s'"

section \<open>The invariant\<close>

text \<open>Per slot: a session being created is not registered, and is listed in its room only in the last
  step; a session being removed is no longer registered.\<close>

definition slot_ok :: "'e app \<Rightarrow> 'e pc \<Rightarrow> bool" where
  "slot_ok app t \<longleftrightarrow> (case t of
       DRoom a \<Rightarrow> hm_get (by_session (ap_sessions app)) (s_id (ap_store app a)) = None \<and>
         s_id (ap_store app a) \<in> set (ids_of (ap_sessions app) (s_room (ap_store app a))) \<and> a < ap_next app
     | DForget a \<Rightarrow> a < ap_next app
     | DClose a \<Rightarrow> a < ap_next app
     | PSession a \<Rightarrow> hm_get (by_session (ap_sessions app)) (s_id (ap_store app a)) = None \<and>
         s_id (ap_store app a) \<in> set (ids_of (ap_sessions app) (s_room (ap_store app a))) \<and> a < ap_next app
     | _ \<Rightarrow> (\<forall>a. creating t = Some a \<longrightarrow> a < ap_next app \<and> hm_get (by_session (ap_sessions app)) (s_id (ap_store app a)) = None \<and>
         (\<forall>r. s_id (ap_store app a) \<notin> set (ids_of (ap_sessions app) r))))"

text \<open>The session a slot is creating or unlisting, which no other slot is.\<close>

fun claims :: "'e pc \<Rightarrow> arc option" where
  "claims (DRoom a) = Some a"
| "claims t = creating t"

text \<open>An identifier listed in a room is that of a registered session of the room, or of one a slot is
  about to register or to unlist.\<close>

definition busy :: "'e pc list \<Rightarrow> arc \<Rightarrow> bool" where
  "busy ts a \<longleftrightarrow> PSession a \<in> set ts \<or> DRoom a \<in> set ts"

definition accounted :: "'e mstate \<Rightarrow> room_key \<Rightarrow> string \<Rightarrow> bool" where
  "accounted = (\<lambda>(app, ts) r sid.
     (\<exists>a. hm_get (by_session (ap_sessions app)) sid = Some a \<and> s_room (ap_store app a) = r) \<or>
     (\<exists>a. busy ts a \<and> s_id (ap_store app a) = sid \<and> s_room (ap_store app a) = r))"

definition minv :: "'e mstate \<Rightarrow> bool" where
  "minv = (\<lambda>(app, ts).
     hm_ok (by_session (ap_sessions app)) \<and> hm_ok (by_room (ap_sessions app)) \<and>
     (\<forall>r. hm_get (by_room (ap_sessions app)) r \<noteq> Some []) \<and>
     (\<forall>r. distinct (ids_of (ap_sessions app) r)) \<and>
     (\<forall>sid a. hm_get (by_session (ap_sessions app)) sid = Some a \<longrightarrow>
        a < ap_next app \<and> s_id (ap_store app a) = sid \<and> sid \<in> set (ids_of (ap_sessions app) (s_room (ap_store app a)))) \<and>
     (\<forall>r sid. sid \<in> set (ids_of (ap_sessions app) r) \<longrightarrow> accounted (app, ts) r sid) \<and>
     (\<forall>t \<in> set ts. slot_ok app t) \<and>
     (\<forall>i j a b. i < length ts \<longrightarrow> j < length ts \<longrightarrow> i \<noteq> j \<longrightarrow> claims (ts ! i) = Some a \<longrightarrow> claims (ts ! j) = Some b \<longrightarrow>
        s_id (ap_store app a) \<noteq> s_id (ap_store app b)))"

lemma same_idsD:
  assumes "same_ids st st'" shows "s_id (st' a) = s_id (st a)" "s_room (st' a) = s_room (st a)"
  using assms by (simp_all add: same_ids_def)

lemma minv_contents:
  assumes "minv (app, ts)" "same_ids (ap_store app) st"
  shows "minv (app\<lparr>ap_store := st\<rparr>, ts)"
proof -
  have "slot_ok (app\<lparr>ap_store := st\<rparr>) t = slot_ok app t" for t
    by (cases t) (simp_all add: slot_ok_def same_idsD [OF assms(2)])
  then show ?thesis using assms(1) unfolding minv_def accounted_def by (simp add: same_idsD [OF assms(2)])
qed

text \<open>Replacing the counter of one slot, the application as it is.\<close>

lemma set_update: "i < length ts \<Longrightarrow> x \<in> set (ts[i := t]) \<longleftrightarrow> x = t \<or> (\<exists>j < length ts. j \<noteq> i \<and> x = ts ! j)"
  by (auto simp: set_conv_nth nth_list_update)

lemma busy_update:
  assumes "i < length ts"
  shows "busy (ts[i := t]) a \<longleftrightarrow> t = PSession a \<or> t = DRoom a \<or>
    (\<exists>j < length ts. j \<noteq> i \<and> (ts ! j = PSession a \<or> ts ! j = DRoom a))"
  using assms by (auto simp: busy_def set_update)

lemma busy_nth: "busy ts a \<longleftrightarrow> (\<exists>j < length ts. ts ! j = PSession a \<or> ts ! j = DRoom a)"
  by (auto simp: busy_def in_set_conv_nth)

lemma busy_keep:
  assumes "busy ts a" "i < length ts" "ts ! i \<noteq> PSession a" "ts ! i \<noteq> DRoom a" shows "busy (ts[i := t]) a"
proof -
  obtain j where j: "j < length ts" "ts ! j = PSession a \<or> ts ! j = DRoom a" using assms(1) by (auto simp: busy_nth)
  then have "j \<noteq> i" using assms(3,4) by auto
  then show ?thesis using j by (auto simp: busy_update [OF assms(2)])
qed

lemma busy_slot:
  assumes "busy ts a" "\<And>i. i < length ts \<Longrightarrow> slot_ok app (ts ! i)"
  shows "a < ap_next app" "s_id (ap_store app a) \<in> set (ids_of (ap_sessions app) (s_room (ap_store app a)))"
    "hm_get (by_session (ap_sessions app)) (s_id (ap_store app a)) = None"
proof -
  obtain j where "j < length ts" "ts ! j = PSession a \<or> ts ! j = DRoom a" using assms(1) by (auto simp: busy_nth)
  then have "slot_ok app (PSession a) \<or> slot_ok app (DRoom a)" using assms(2) by metis
  then show "a < ap_next app" "s_id (ap_store app a) \<in> set (ids_of (ap_sessions app) (s_room (ap_store app a)))"
    "hm_get (by_session (ap_sessions app)) (s_id (ap_store app a)) = None" by (auto simp: slot_ok_def)
qed

definition distinct_claims :: "store \<Rightarrow> 'e pc list \<Rightarrow> bool" where
  "distinct_claims st ts \<longleftrightarrow> (\<forall>i j a b. i < length ts \<longrightarrow> j < length ts \<longrightarrow> i \<noteq> j \<longrightarrow> claims (ts ! i) = Some a \<longrightarrow>
     claims (ts ! j) = Some b \<longrightarrow> s_id (st a) \<noteq> s_id (st b))"

lemma distinct_claims_update:
  assumes "distinct_claims st ts" "i < length ts"
    "\<And>j a b. j < length ts \<Longrightarrow> j \<noteq> i \<Longrightarrow> claims t = Some a \<Longrightarrow> claims (ts ! j) = Some b \<Longrightarrow> s_id (st a) \<noteq> s_id (st b)"
  shows "distinct_claims st (ts[i := t])"
  using assms unfolding distinct_claims_def by (auto simp: nth_list_update) metis

lemma distinct_claims_keep:
  assumes "distinct_claims st ts" "i < length ts" "claims t = None \<or> claims t = claims (ts ! i)"
  shows "distinct_claims st (ts[i := t])"
  using assms by (intro distinct_claims_update) (auto simp: distinct_claims_def)

lemma minvD:
  assumes "minv (app, ts)"
  shows "hm_ok (by_session (ap_sessions app))" "hm_ok (by_room (ap_sessions app))"
    "hm_get (by_room (ap_sessions app)) r \<noteq> Some []" "distinct (ids_of (ap_sessions app) r)"
    "hm_get (by_session (ap_sessions app)) sid = Some a \<Longrightarrow>
       a < ap_next app \<and> s_id (ap_store app a) = sid \<and> sid \<in> set (ids_of (ap_sessions app) (s_room (ap_store app a)))"
    "sid \<in> set (ids_of (ap_sessions app) r) \<Longrightarrow> accounted (app, ts) r sid"
    "i < length ts \<Longrightarrow> slot_ok app (ts ! i)"
    "distinct_claims (ap_store app) ts"
  using assms by (auto simp: minv_def distinct_claims_def)

lemma minvI:
  assumes "hm_ok (by_session (ap_sessions app))" "hm_ok (by_room (ap_sessions app))"
    "\<And>r. hm_get (by_room (ap_sessions app)) r \<noteq> Some []" "\<And>r. distinct (ids_of (ap_sessions app) r)"
    "\<And>sid a. hm_get (by_session (ap_sessions app)) sid = Some a \<Longrightarrow>
       a < ap_next app \<and> s_id (ap_store app a) = sid \<and> sid \<in> set (ids_of (ap_sessions app) (s_room (ap_store app a)))"
    "\<And>r sid. sid \<in> set (ids_of (ap_sessions app) r) \<Longrightarrow> accounted (app, ts) r sid"
    "\<And>i. i < length ts \<Longrightarrow> slot_ok app (ts ! i)" "distinct_claims (ap_store app) ts"
  shows "minv (app, ts)"
  using assms(1-6,8) unfolding minv_def distinct_claims_def by (auto simp: in_set_conv_nth intro: assms(7))

text \<open>The index of sessions that a slot claims is different from the slot's own.\<close>

lemma other_claim:
  assumes "minv (app, ts)" "i < length ts" "j < length ts" "i \<noteq> j" "claims (ts ! i) = Some a" "claims (ts ! j) = Some b"
  shows "s_id (ap_store app a) \<noteq> s_id (ap_store app b)"
  using minvD(8) [OF assms(1)] assms(2-6) unfolding distinct_claims_def by blast

lemma minv_slot:
  assumes "minv (app, ts)" "i < length ts" "slot_ok app t" "claims t = None \<or> claims t = claims (ts ! i)"
    "\<And>a. ts ! i \<noteq> PSession a \<and> ts ! i \<noteq> DRoom a"
  shows "minv (app, ts[i := t])"
proof (rule minvI)
  note m = minvD [OF assms(1)]
  show "accounted (app, ts[i := t]) r sid" if "sid \<in> set (ids_of (ap_sessions app) r)" for r sid
    using m(6) [OF that] busy_keep [OF _ assms(2)] assms(5) unfolding accounted_def by fastforce
  show "slot_ok app (ts[i := t] ! j)" if "j < length (ts[i := t])" for j
    using that m(7) assms(3) by (cases "j = i") simp_all
  show "distinct_claims (ap_store app) (ts[i := t])" using m(8) assms(2,4) by (rule distinct_claims_keep)
qed (use minvD [OF assms(1)] in auto)

section \<open>Preservation, step by step\<close>

lemma slot_below: "slot_ok app t \<Longrightarrow> claims t = Some a \<Longrightarrow> a < ap_next app"
  by (cases t) (simp_all add: slot_ok_def)

lemma minv_check:
  assumes m: "minv (app, ts)" and i: "i < length ts" "ts ! i = PCheck sid agent (Some room) spatial" and f: "new_id sid (app, ts)"
  shows "minv (app\<lparr>ap_store := (ap_store app)(ap_next app := Session_new sid agent room spatial), ap_next := ap_next app + 1, ap_ports := pool\<rparr>,
       ts[i := PEstablish (ap_next app) port])"
proof (rule minvI)
  let ?n = "ap_next app" and ?st = "(ap_store app)(ap_next app := Session_new sid agent room spatial)"
  let ?app = "app\<lparr>ap_store := ?st, ap_next := ?n + 1, ap_ports := pool\<rparr>"
  note d = minvD [OF m]
  have new: "s_id (Session_new sid agent room spatial) = sid" by (simp add: Session_new_def)
  have other: "slot_ok ?app t" if "slot_ok app t" for t
    using that by (cases t) (auto simp: slot_ok_def)
  have fr: "hm_get (by_session (ap_sessions app)) sid = None" "\<And>r. sid \<notin> set (ids_of (ap_sessions app) r)"
    using f by (auto simp: new_id_def)
  show "slot_ok ?app (ts[i := PEstablish ?n port] ! j)" if "j < length (ts[i := PEstablish ?n port])" for j
    using that other [OF d(7)] fr by (cases "j = i") (simp_all add: slot_ok_def [of _ "PEstablish _ _"] new)
  show "distinct_claims (ap_store ?app) (ts[i := PEstablish ?n port])"
  proof (rule distinct_claims_update)
    show "distinct_claims (ap_store ?app) ts"
      using d(8) slot_below [OF d(7)] unfolding distinct_claims_def by (auto simp: less_imp_neq)
    fix j a b
    assume j: "j < length ts" "j \<noteq> i" and c: "claims (PEstablish ?n port) = Some a" "claims (ts ! j) = Some b"
    have b: "b < ?n" using slot_below [OF d(7) c(2)] j by simp
    have "s_id (ap_store app b) \<noteq> sid"
    proof (cases "creating (ts ! j)")
      case None
      then have "ts ! j = DRoom b" using c(2) by (cases "ts ! j") auto
      then have "s_id (ap_store app b) \<in> set (ids_of (ap_sessions app) (s_room (ap_store app b)))"
        using d(7) [OF j(1)] by (simp add: slot_ok_def)
      then show ?thesis using fr(2) by metis
    next
      case (Some b')
      then have "b' = b" using c(2) by (cases "ts ! j") auto
      then show ?thesis using f Some j(1) unfolding new_id_def by auto
    qed
    then show "s_id (ap_store ?app a) \<noteq> s_id (ap_store ?app b)" using c(1) b by (auto simp: new)
  qed (use i in simp)
  have keep: "busy (ts[i := PEstablish ?n port]) a \<and> a < ?n" if "busy ts a" for a
    using busy_keep [OF that i(1)] busy_slot(1) [OF that d(7)] i(2) by simp
  show "accounted (?app, ts[i := PEstablish ?n port]) r s" if "s \<in> set (ids_of (ap_sessions ?app) r)" for r s
  proof -
    from d(6) that have "accounted (app, ts) r s" by simp
    then consider a where "hm_get (by_session (ap_sessions app)) s = Some a" "s_room (ap_store app a) = r" "a < ?n"
      | a where "busy ts a" "s_id (ap_store app a) = s" "s_room (ap_store app a) = r"
      unfolding accounted_def using d(5) by auto
    then show ?thesis
    proof cases
      case 1
      then show ?thesis by (auto simp: accounted_def)
    next
      case 2
      then show ?thesis using keep [OF 2(1)] by (auto simp: accounted_def intro!: exI [of _ a])
    qed
  qed
  show "a < ap_next ?app \<and> s_id (ap_store ?app a) = s \<and> s \<in> set (ids_of (ap_sessions ?app) (s_room (ap_store ?app a)))"
    if "hm_get (by_session (ap_sessions ?app)) s = Some a" for s a
    using d(5) [of s a] that by auto
qed (use minvD [OF m] in auto)

lemma ids_of_insert_room:
  "ids_of (insert_room st a reg) r = (if r = s_room (st a) then ids_of reg r @ [s_id (st a)] else ids_of reg r)"
  by (simp add: ids_of_def insert_room_def Let_def hm_simps)

lemma by_session_insert_room [simp]: "by_session (insert_room st a reg) = by_session reg"
  by (simp add: insert_room_def Let_def)

lemma ids_of_insert_session [simp]: "ids_of (insert_session st a reg) r = ids_of reg r"
  by (simp add: insert_session_def ids_of_def)

lemma by_room_insert_session [simp]: "by_room (insert_session st a reg) = by_room reg"
  by (simp add: insert_session_def)

lemma get_insert_session:
  "hm_get (by_session (insert_session st a reg)) sid = (if sid = s_id (st a) then Some a else hm_get (by_session reg) sid)"
  by (simp add: insert_session_def hm_simps)

lemma minv_room:
  assumes m: "minv (app, ts)" and i: "i < length ts" "ts ! i = PRoom a"
  shows "minv (app\<lparr>ap_sessions := insert_room (ap_store app) a (ap_sessions app)\<rparr>, ts[i := PSession a])"
proof (rule minvI)
  let ?reg = "insert_room (ap_store app) a (ap_sessions app)" and ?sid = "s_id (ap_store app a)"
  let ?app = "app\<lparr>ap_sessions := ?reg\<rparr>" and ?ts = "ts[i := PSession a]"
  note d = minvD [OF m]
  have own: "a < ap_next app" "hm_get (by_session (ap_sessions app)) ?sid = None" "\<And>r. ?sid \<notin> set (ids_of (ap_sessions app) r)"
    using d(7) [OF i(1)] by (simp_all add: i(2) slot_ok_def)
  have grow: "set (ids_of (ap_sessions app) r) \<subseteq> set (ids_of ?reg r)" for r by (auto simp: ids_of_insert_room)
  show "slot_ok ?app (?ts ! j)" if "j < length ?ts" for j
  proof (cases "j = i")
    case True
    then show ?thesis using own i by (simp add: slot_ok_def ids_of_insert_room)
  next
    case False
    then have j: "slot_ok app (ts ! j)" "j < length ts" using d(7) that by simp_all
    have ne: "s_id (ap_store app b) \<noteq> ?sid" if "creating (ts ! j) = Some b" for b
    proof -
      have "claims (ts ! j) = Some b" using that by (cases "ts ! j") simp_all
      then show ?thesis using other_claim [OF m j(2) i(1) False] i(2) by simp
    qed
    show ?thesis using False j(1) ne grow by (cases "ts ! j") (auto simp: slot_ok_def ids_of_insert_room)
  qed
  show "distinct_claims (ap_store ?app) ?ts" using distinct_claims_keep [OF d(8) i(1), of "PSession a"] i(2) by simp
  show "accounted (?app, ?ts) r s" if "s \<in> set (ids_of (ap_sessions ?app) r)" for r s
  proof (cases "s \<in> set (ids_of (ap_sessions app) r)")
    case True
    have "busy ?ts b" if "busy ts b" for b using busy_keep [OF that i(1)] i(2) by simp
    then show ?thesis using d(6) [OF True] by (fastforce simp: accounted_def)
  next
    case False
    then have "s = ?sid" "r = s_room (ap_store app a)" using that by (auto simp: ids_of_insert_room split: if_splits)
    moreover have "busy ?ts a" using i(1) by (simp add: busy_update)
    ultimately show ?thesis by (auto simp: accounted_def)
  qed
  show "distinct (ids_of (ap_sessions ?app) r)" for r using d(4) own(3) by (simp add: ids_of_insert_room)
  show "hm_get (by_room (ap_sessions ?app)) r \<noteq> Some []" for r using d(3) by (simp add: insert_room_def Let_def hm_simps)
  show "hm_ok (by_room (ap_sessions ?app))" using d(2) by (simp add: insert_room_def Let_def hm_oks)
  show "b < ap_next ?app \<and> s_id (ap_store ?app b) = s \<and> s \<in> set (ids_of (ap_sessions ?app) (s_room (ap_store ?app b)))"
    if "hm_get (by_session (ap_sessions ?app)) s = Some b" for s b
    using d(5) [of s b] that grow by auto
qed (use minvD(1) [OF m] in simp)

lemma minv_session:
  assumes m: "minv (app, ts)" and i: "i < length ts" "ts ! i = PSession a"
  shows "minv (app\<lparr>ap_sessions := insert_session (ap_store app) a (ap_sessions app)\<rparr>, ts[i := Idle])"
proof (rule minvI)
  let ?reg = "insert_session (ap_store app) a (ap_sessions app)" and ?sid = "s_id (ap_store app a)"
  let ?app = "app\<lparr>ap_sessions := ?reg\<rparr>" and ?ts = "ts[i := Idle]"
  note d = minvD [OF m]
  have own: "a < ap_next app" "hm_get (by_session (ap_sessions app)) ?sid = None"
    "?sid \<in> set (ids_of (ap_sessions app) (s_room (ap_store app a)))"
    using d(7) [OF i(1)] by (simp_all add: i(2) slot_ok_def)
  show "slot_ok ?app (?ts ! j)" if "j < length ?ts" for j
  proof (cases "j = i")
    case True
    then show ?thesis using i by (simp add: slot_ok_def)
  next
    case False
    then have j: "slot_ok app (ts ! j)" "j < length ts" using d(7) that by simp_all
    have ne: "s_id (ap_store app b) \<noteq> ?sid" if "claims (ts ! j) = Some b" for b
      using other_claim [OF m j(2) i(1) False that] i(2) by simp
    show ?thesis using False j(1) ne by (cases "ts ! j") (auto simp: slot_ok_def get_insert_session)
  qed
  show "distinct_claims (ap_store ?app) ?ts" using distinct_claims_keep [OF d(8) i(1), of Idle] by simp
  show "accounted (?app, ?ts) r s" if "s \<in> set (ids_of (ap_sessions ?app) r)" for r s
  proof -
    from d(6) that have "accounted (app, ts) r s" by simp
    then consider b where "hm_get (by_session (ap_sessions app)) s = Some b" "s_room (ap_store app b) = r"
      | b where "busy ts b" "s_id (ap_store app b) = s" "s_room (ap_store app b) = r"
      unfolding accounted_def by auto
    then show ?thesis
    proof cases
      case 1
      then have "s \<noteq> ?sid" using own(2) by auto
      then show ?thesis using 1 by (auto simp: accounted_def get_insert_session)
    next
      case 2
      show ?thesis
      proof (cases "s = ?sid")
        case True
        have "r = s_room (ap_store app a)"
        proof -
          obtain j where j: "j < length ts" "ts ! j = PSession b \<or> ts ! j = DRoom b" using 2(1) by (auto simp: busy_nth)
          have "j = i"
          proof (rule ccontr)
            assume "j \<noteq> i"
            then show False using other_claim [OF m j(1) i(1), of b a] j(2) i(2) 2(2) True by auto
          qed
          then show ?thesis using j(2) i(2) 2(3) by simp
        qed
        then show ?thesis using True by (auto simp: accounted_def get_insert_session)
      next
        case False
        then have "b \<noteq> a" using 2(2) by auto
        then have "busy ?ts b" using busy_keep [OF 2(1) i(1)] i(2) by simp
        then show ?thesis using 2 by (auto simp: accounted_def)
      qed
    qed
  qed
  show "hm_ok (by_session (ap_sessions ?app))" using d(1) by (simp add: insert_session_def hm_oks)
  show "b < ap_next ?app \<and> s_id (ap_store ?app b) = s \<and> s \<in> set (ids_of (ap_sessions ?app) (s_room (ap_store ?app b)))"
    if "hm_get (by_session (ap_sessions ?app)) s = Some b" for s b
    using d(5) [of s b] that own by (auto simp: get_insert_session split: if_splits)
qed (use minvD(2,3,4) [OF m] in simp_all)

lemma minv_drop_session:
  assumes m: "minv (app, ts)" and i: "i < length ts" "ts ! i = DSession sid"
    and g: "hm_get (by_session (ap_sessions app)) sid = Some a"
  shows "minv (app\<lparr>ap_sessions := (ap_sessions app)\<lparr>by_session := hm_remove sid (by_session (ap_sessions app))\<rparr>\<rparr>, ts[i := DRoom a])"
proof (rule minvI)
  let ?reg = "(ap_sessions app)\<lparr>by_session := hm_remove sid (by_session (ap_sessions app))\<rparr>"
  let ?app = "app\<lparr>ap_sessions := ?reg\<rparr>" and ?ts = "ts[i := DRoom a]"
  note d = minvD [OF m]
  have a: "a < ap_next app" "s_id (ap_store app a) = sid" "sid \<in> set (ids_of (ap_sessions app) (s_room (ap_store app a)))"
    using d(5) [OF g] by auto
  have ids: "ids_of ?reg r = ids_of (ap_sessions app) r" for r by (simp add: ids_of_def)
  show "slot_ok ?app (?ts ! j)" if "j < length ?ts" for j
  proof (cases "j = i")
    case True
    then show ?thesis using i a by (simp add: slot_ok_def ids hm_simps)
  next
    case False
    then have "slot_ok app (ts ! j)" using d(7) that by simp
    then show ?thesis using False by (cases "ts ! j") (auto simp: slot_ok_def ids hm_simps)
  qed
  show "distinct_claims (ap_store ?app) ?ts"
  proof (rule distinct_claims_update)
    show "distinct_claims (ap_store ?app) ts" using d(8) by simp
    fix j x b
    assume j: "j < length ts" and c: "claims (DRoom a) = Some x" "claims (ts ! j) = Some b"
    have "hm_get (by_session (ap_sessions app)) (s_id (ap_store app b)) = None"
      using d(7) [OF j] c(2) by (cases "ts ! j") (simp_all add: slot_ok_def)
    then show "s_id (ap_store ?app x) \<noteq> s_id (ap_store ?app b)" using g a(2) c(1) by auto
  qed (use i in simp)
  show "accounted (?app, ?ts) r s" if "s \<in> set (ids_of (ap_sessions ?app) r)" for r s
  proof -
    have kb: "busy ?ts b" if "busy ts b" for b using busy_keep [OF that i(1)] i(2) by simp
    have own: "busy ?ts a" using i(1) by (simp add: busy_update)
    from d(6) that have "accounted (app, ts) r s" by (simp add: ids)
    then consider b where "hm_get (by_session (ap_sessions app)) s = Some b" "s_room (ap_store app b) = r"
      | b where "busy ts b" "s_id (ap_store app b) = s" "s_room (ap_store app b) = r"
      unfolding accounted_def by auto
    then show ?thesis
    proof cases
      case 1
      show ?thesis
      proof (cases "s = sid")
        case True
        then have "b = a" using 1 g by simp
        then show ?thesis using own a True 1 by (auto simp: accounted_def)
      qed (use 1 in \<open>auto simp: accounted_def hm_simps\<close>)
    next
      case 2
      then show ?thesis using kb by (auto simp: accounted_def)
    qed
  qed
  show "b < ap_next ?app \<and> s_id (ap_store ?app b) = s \<and> s \<in> set (ids_of (ap_sessions ?app) (s_room (ap_store ?app b)))"
    if "hm_get (by_session (ap_sessions ?app)) s = Some b" for s b
    using d(5) [of s b] that by (auto simp: hm_simps ids split: if_splits)
  show "hm_ok (by_session (ap_sessions ?app))" using d(1) by (simp add: hm_oks)
  show "distinct (ids_of (ap_sessions ?app) r)" for r using d(4) by (simp add: ids)
qed (use minvD(2,3) [OF m] in simp_all)

lemma minv_drop_room:
  assumes m: "minv (app, ts)" and i: "i < length ts" "ts ! i = DRoom a"
  shows "minv (app\<lparr>ap_sessions := remove_room (s_room (ap_store app a)) (s_id (ap_store app a)) (ap_sessions app)\<rparr>, ts[i := DForget a])"
proof (rule minvI)
  let ?sid = "s_id (ap_store app a)"
  let ?reg = "remove_room (s_room (ap_store app a)) ?sid (ap_sessions app)"
  let ?app = "app\<lparr>ap_sessions := ?reg\<rparr>" and ?ts = "ts[i := DForget a]"
  note d = minvD [OF m]
  have own: "a < ap_next app" "hm_get (by_session (ap_sessions app)) ?sid = None"
    using d(7) [OF i(1)] by (simp_all add: i(2) slot_ok_def)
  have sub: "set (ids_of ?reg r) \<subseteq> set (ids_of (ap_sessions app) r)" for r by (auto simp: ids_of_remove)
  have keep: "s \<in> set (ids_of ?reg r)" if "s \<in> set (ids_of (ap_sessions app) r)" "s \<noteq> ?sid" for s r
    using that by (auto simp: ids_of_remove)
  show "slot_ok ?app (?ts ! j)" if "j < length ?ts" for j
  proof (cases "j = i")
    case True
    then show ?thesis using own i by (simp add: slot_ok_def)
  next
    case False
    then have j: "slot_ok app (ts ! j)" "j < length ts" using d(7) that by simp_all
    have ne: "s_id (ap_store app b) \<noteq> ?sid" if "claims (ts ! j) = Some b" for b
      using other_claim [OF m j(2) i(1) False that] i(2) by simp
    show ?thesis using False j(1) ne by (cases "ts ! j") (auto simp: slot_ok_def ids_of_remove)
  qed
  show "distinct_claims (ap_store ?app) ?ts" using distinct_claims_keep [OF d(8) i(1), of "DForget a"] by simp
  show "accounted (?app, ?ts) r s" if s: "s \<in> set (ids_of (ap_sessions ?app) r)" for r s
  proof -
    have "s \<in> set (ids_of (ap_sessions app) r)" using s sub by auto
    then have "accounted (app, ts) r s" by (rule d(6))
    then consider b where "hm_get (by_session (ap_sessions app)) s = Some b" "s_room (ap_store app b) = r"
      | b where "busy ts b" "s_id (ap_store app b) = s" "s_room (ap_store app b) = r"
      unfolding accounted_def by auto
    then show ?thesis
    proof cases
      case 2
      have "b \<noteq> a" using s 2 by (auto simp: ids_of_remove)
      then have "busy ?ts b" using busy_keep [OF 2(1) i(1)] i(2) by simp
      then show ?thesis using 2 by (auto simp: accounted_def)
    qed (auto simp: accounted_def)
  qed
  show "b < ap_next ?app \<and> s_id (ap_store ?app b) = s \<and> s \<in> set (ids_of (ap_sessions ?app) (s_room (ap_store ?app b)))"
    if g: "hm_get (by_session (ap_sessions ?app)) s = Some b" for s b
  proof -
    have "s \<noteq> ?sid" using g own(2) by auto
    then show ?thesis using d(5) [of s b] g keep by simp
  qed
  show "distinct (ids_of (ap_sessions ?app) r)" for r using d(4) by (simp add: ids_of_remove)
  show "hm_get (by_room (ap_sessions ?app)) r \<noteq> Some []" for r
    using d(3) [of r] by (auto simp: remove_room_def Let_def hm_simps split: option.split)
  show "hm_ok (by_room (ap_sessions ?app))" using d(2) by (auto simp: remove_room_def Let_def hm_oks split: option.split)
qed (use minvD(1) [OF m] in simp)

lemma forget_all_ids: "same_ids st (forget_all agent arcs st)"
  by (simp add: same_ids_def forget_all_apply forget_announced_def)

lemma minv_store_slot:
  assumes m: "minv (app, ts)" and i: "i < length ts" and s: "same_ids (ap_store app) st"
    and t: "slot_ok app t" "claims t = None" "\<And>a. ts ! i \<noteq> PSession a \<and> ts ! i \<noteq> DRoom a"
  shows "minv (app\<lparr>ap_store := st\<rparr>, ts[i := t])"
  using minv_contents [OF minv_slot [OF m i t(1) _ t(3)] s] t(2) by simp

lemma minv_step: "mstep s s' \<Longrightarrow> minv s \<Longrightarrow> minv s'"
proof (induction rule: mstep.induct)
  case (check i ts sid agent room spatial app port pool)
  then show ?case by (intro minv_check)
next
  case (room i ts a app)
  then show ?case by (intro minv_room)
next
  case (session i ts a app)
  then show ?case by (intro minv_session)
next
  case (drop_session i ts sid app a)
  then show ?case by (intro minv_drop_session)
next
  case (drop_room i ts a app)
  then show ?case by (intro minv_drop_room)
next
  case (contents app st ts)
  then show ?case by (intro minv_contents)
next
  case (drop_forget i ts a app)
  have "slot_ok app (DClose a)" using minvD(7) [OF drop_forget(3,1)] drop_forget(2) by (simp add: slot_ok_def)
  then show ?case using minv_store_slot [OF drop_forget(3,1) forget_all_ids] drop_forget(2) by simp
next
  case (drop_close i ts a app)
  have "same_ids (ap_store app) ((ap_store app)(a := (ap_store app a)\<lparr>s_closed := True\<rparr>))" by (simp add: same_ids_def)
  moreover have "slot_ok app Idle" by (simp add: slot_ok_def)
  ultimately show ?case using minv_store_slot [OF drop_close(3,1)] drop_close(2) by simp
next
  case (endpoint i ts a ep app)
  have "slot_ok app (PRoom a)" using minvD(7) [OF endpoint(3,1)] endpoint(2) by (simp add: slot_ok_def)
  then have "minv (app, ts[i := PRoom a])" using minv_slot [OF endpoint(3,1)] endpoint(2) by simp
  then show ?case by (simp add: minv_def slot_ok_def accounted_def cong: pc.case_cong)
next
  case (drop_endpoint i ts sid app)
  have "minv (app, ts[i := DSession sid])" using minv_slot [OF drop_endpoint(3,1)] drop_endpoint(2) by (simp add: slot_ok_def)
  then show ?case by (simp add: minv_def slot_ok_def accounted_def cong: pc.case_cong)
next
  case (established i ts a port ep app)
  have "slot_ok app (PEndpoint a ep)" using minvD(7) [OF established(6,1)] established(2) by (simp add: slot_ok_def)
  then show ?case using minv_slot [OF established(6,1)] established(2) by simp
next
  case (no_user i ts sid room spatial app)
  then show ?case using minv_slot [OF no_user(4,1)] by (simp add: slot_ok_def)
next
  case (no_channel i ts sid agent spatial app)
  then show ?case using minv_slot [OF no_channel(4,1)] by (simp add: slot_ok_def)
next
  case (request i ts app sid agent room)
  then show ?case using minv_slot [OF request(3,1)] by (simp add: slot_ok_def)
next
  case (full i ts sid agent room spatial app)
  then show ?case using minv_slot [OF full(4,1)] by (simp add: slot_ok_def)
next
  case (failed i ts a port app)
  then show ?case using minv_slot [OF failed(3,1)] by (simp add: slot_ok_def)
next
  case (drop i ts app sid)
  then show ?case using minv_slot [OF drop(3,1)] by (simp add: slot_ok_def)
next
  case (drop_unknown i ts sid app)
  then show ?case using minv_slot [OF drop_unknown(4,1)] by (simp add: slot_ok_def)
qed

lemma minv_start: "minv (app_new ip, replicate k Idle)"
  by (rule minvI) (auto simp: app_new_def registry_default_def ids_of_def hm_simps slot_ok_def distinct_claims_def)

lemma mreach_minv: "mreach k s \<Longrightarrow> minv s"
  by (induction rule: mreach.induct) (auto intro: minv_start minv_step)

lemma members_busy:
  assumes "minv (app, ts)" "a \<in> set (reg_members (ap_sessions app) r)"
  shows "live (ap_sessions app) a" "s_room (ap_store app a) = r"
proof -
  note d = minvD [OF assms(1)]
  obtain sid where s: "sid \<in> set (ids_of (ap_sessions app) r)" "hm_get (by_session (ap_sessions app)) sid = Some a"
    using assms(2) by (auto simp: members_ids set_map_filter)
  then show "live (ap_sessions app) a" by (auto simp: live_def)
  have "\<not> (busy ts b \<and> s_id (ap_store app b) = sid)" for b using busy_slot(3) [OF _ d(7), of b] s(2) by auto
  then show "s_room (ap_store app a) = r" using d(6) [OF s(1)] s(2) by (auto simp: accounted_def)
qed

lemma map_filter_distinct:
  "distinct xs \<Longrightarrow> (\<And>x x' y. f x = Some y \<Longrightarrow> f x' = Some y \<Longrightarrow> x = x') \<Longrightarrow> distinct (List.map_filter f xs)"
  by (induction xs) (auto simp: List.map_filter_simps set_map_filter split: option.split)

text \<open>C2. No interleaving corrupts the registry: with any number of requests and teardowns in progress,
  stopped between any two of their locked sections, every registered session is a member of its room,
  every member of a room is a registered session of that room, and none is listed twice; and whenever
  no request is in progress the two indices agree exactly. So \<open>insert\<close> and \<open>remove\<close>, which take their
  two locks in opposite orders, never show the mixer a session of another room nor hide a registered one.\<close>

theorem indices_at_every_step:
  assumes "mreach k (app, ts)"
  shows "(\<forall>sid a. hm_get (by_session (ap_sessions app)) sid = Some a \<longrightarrow>
      s_id (ap_store app a) = sid \<and> a \<in> set (reg_members (ap_sessions app) (s_room (ap_store app a)))) \<and>
    (\<forall>r. distinct (reg_members (ap_sessions app) r) \<and>
       set (reg_members (ap_sessions app) r) = {a. live (ap_sessions app) a \<and> s_room (ap_store app a) = r}) \<and>
    (set ts \<subseteq> {Idle} \<longrightarrow> reg_ok (ap_store app) (ap_sessions app))"
proof -
  have m: "minv (app, ts)" using assms by (rule mreach_minv)
  note d = minvD [OF m]
  have reg: "s_id (ap_store app a) = sid \<and> a \<in> set (reg_members (ap_sessions app) (s_room (ap_store app a)))"
    if "hm_get (by_session (ap_sessions app)) sid = Some a" for sid a
    using d(5) [OF that] that by (auto simp: members_ids set_map_filter)
  moreover have "distinct (reg_members (ap_sessions app) r)" for r
    unfolding members_ids using d(4) d(5) by (intro map_filter_distinct) metis+
  moreover have "set (reg_members (ap_sessions app) r) = {a. live (ap_sessions app) a \<and> s_room (ap_store app a) = r}" for r
    using members_busy [OF m] reg by (auto simp: live_def)
  moreover have "reg_ok (ap_store app) (ap_sessions app)" if "set ts \<subseteq> {Idle}"
  proof -
    have "\<not> busy ts a" for a using that by (auto simp: busy_def)
    then have "\<exists>a. hm_get (by_session (ap_sessions app)) sid = Some a \<and> s_room (ap_store app a) = r"
      if "sid \<in> set (ids_of (ap_sessions app) r)" for sid r
      using d(6) [OF that] by (simp add: accounted_def)
    then show ?thesis unfolding reg_ok_def using d(1-5) by blast
  qed
  ultimately show ?thesis by blast
qed

lemma indices_at_every_step_witness:
  "reg_ok (ap_store (app_new ''203.0.113.10'' :: unit app)) (ap_sessions (app_new ''203.0.113.10'' :: unit app))"
  using indices_at_every_step [OF mreach.start [of 2 "''203.0.113.10''"]] by auto

section \<open>The session ceiling\<close>

definition in_flight :: "'e pc list \<Rightarrow> nat" where
  "in_flight ts = length (filter (\<lambda>t. creating t \<noteq> None) ts)"

lemma in_flight_update:
  assumes "i < length ts"
  shows "in_flight (ts[i := t]) + (if creating (ts ! i) = None then 0 else 1) =
    in_flight ts + (if creating t = None then 0 else 1)"
  using assms
proof (induction ts arbitrary: i)
  case (Cons x ts)
  show ?case
  proof (cases i)
    case (Suc n)
    then show ?thesis using Cons.prems Cons.IH [of n] by (simp add: in_flight_def split: if_splits)
  qed (auto simp: in_flight_def)
qed simp

lemma in_flight_le: "in_flight ts \<le> length ts"
  by (simp add: in_flight_def)

lemma step_length: "mstep s s' \<Longrightarrow> length (snd s') = length (snd s)"
  by (induction rule: mstep.induct) simp_all

lemma mreach_length: "mreach k s \<Longrightarrow> length (snd s) = k"
  by (induction rule: mreach.induct) (simp_all add: step_length)

lemma ceiling_step:
  assumes "mstep s s'" "minv s" "session_count (ap_sessions (fst s)) + in_flight (snd s) \<le> 899 + length (snd s)"
  shows "session_count (ap_sessions (fst s')) + in_flight (snd s') \<le> 899 + length (snd s')"
  using assms
proof (induction rule: mstep.induct)
  case (check i ts sid agent room spatial app port pool)
  then show ?case using in_flight_le [of "ts[i := PEstablish (ap_next app) port]"] by (simp add: MAX_SESSIONS_def)
next
  case (session i ts a app)
  have "hm_get (by_session (ap_sessions app)) (s_id (ap_store app a)) = None"
    using minvD(7) [OF session(3,1)] session(2) by (simp add: slot_ok_def)
  then have "session_count (insert_session (ap_store app) a (ap_sessions app)) = Suc (session_count (ap_sessions app))"
    using hm.len_put [OF minvD(1) [OF session(3)]] by (simp add: session_count_def insert_session_def)
  then show ?case using session in_flight_update [OF session(1), of Idle] by simp
next
  case (drop_session i ts sid app a)
  have "hm_len (hm_remove sid (by_session (ap_sessions app))) \<le> session_count (ap_sessions app)"
    using hm.len_del [OF minvD(1) [OF drop_session(4)]] by (simp add: session_count_def)
  then show ?case using drop_session in_flight_update [OF drop_session(1), of "DRoom a"] by (simp add: session_count_def)
next
  case (room i ts a app)
  then show ?case using in_flight_update [OF room(1), of "PSession a"] by (simp add: session_count_def)
next
  case (drop_room i ts a app)
  then show ?case using in_flight_update [OF drop_room(1), of "DForget a"] by (simp add: session_count_def)
next
  case (request i ts app sid agent room)
  then show ?case using in_flight_update [OF request(1), of "PCheck sid agent room (is_spatial room)"] by simp
next
  case (no_user i ts sid room spatial app)
  then show ?case using in_flight_update [OF no_user(1), of Idle] by simp
next
  case (no_channel i ts sid agent spatial app)
  then show ?case using in_flight_update [OF no_channel(1), of Idle] by simp
next
  case (full i ts sid agent room spatial app)
  then show ?case using in_flight_update [OF full(1), of Idle] by simp
next
  case (failed i ts a port app)
  then show ?case using in_flight_update [OF failed(1), of Idle] by simp
next
  case (established i ts a port ep app)
  then show ?case using in_flight_update [OF established(1), of "PEndpoint a ep"] by simp
next
  case (endpoint i ts a ep app)
  then show ?case using in_flight_update [OF endpoint(1), of "PRoom a"] by simp
next
  case (drop i ts app sid)
  then show ?case using in_flight_update [OF drop(1), of "DEndpoint sid"] by simp
next
  case (drop_endpoint i ts sid app)
  then show ?case using in_flight_update [OF drop_endpoint(1), of "DSession sid"] by simp
next
  case (drop_unknown i ts sid app)
  then show ?case using in_flight_update [OF drop_unknown(1), of Idle] by simp
next
  case (drop_forget i ts a app)
  then show ?case using in_flight_update [OF drop_forget(1), of "DClose a"] by simp
next
  case (drop_close i ts a app)
  then show ?case using in_flight_update [OF drop_close(1), of Idle] by simp
qed simp

lemma ceiling_bound:
  assumes "mreach k s" shows "session_count (ap_sessions (fst s)) + in_flight (snd s) \<le> 899 + k"
proof -
  have "session_count (ap_sessions (fst s)) + in_flight (snd s) \<le> 899 + length (snd s)" using assms
  proof (induction rule: mreach.induct)
    case (start ip)
    show ?case by (simp add: app_new_def registry_default_def session_count_def in_flight_def hm_len_0_iff [THEN iffD2])
  next
    case (step s s')
    then show ?case using ceiling_step mreach_minv by blast
  qed
  then show ?thesis using mreach_length [OF assms] by simp
qed

text \<open>The bound is reached: a slot can always get past the check below the ceiling, and a slot past the
  check adds a session when its port is free. The run below takes the ports of the range in order, each once:
  \<open>packed n m\<close> says that \<open>n\<close> of them have been taken and that the endpoints are on the first \<open>m\<close>.\<close>

definition packed :: "nat \<Rightarrow> nat \<Rightarrow> 'e mstate \<Rightarrow> bool" where
  "packed n m s \<longleftrightarrow> ap_ports (fst s) = \<lparr>pp_next = 40000 + of_nat n, pp_lo = 40000, pp_hi = 40999\<rparr> \<and>
     (\<forall>q. in_use q s \<longrightarrow> unat q < 40000 + m)"

lemma take_in_order:
  assumes "n < 1000"
  shows "\<exists>port. port_take \<lparr>pp_next = 40000 + of_nat n, pp_lo = 40000, pp_hi = 40999\<rparr> =
      Some (port, \<lparr>pp_next = 40000 + of_nat (Suc n), pp_lo = 40000, pp_hi = 40999\<rparr>) \<and> unat port = 40000 + n"
proof -
  have u: "unat (40000 :: u16) = 40000" "unat (40999 :: u16) = 40999" by simp_all
  have "port_at 40000 40999 n = 40000 + n" using assms by (simp add: port_at_def span_of_def u)
  then show ?thesis using port_take_at [of 40000 40999 n] by (simp add: u)
qed

lemma in_use_update:
  assumes "i < length ts" "in_use q (app, ts[i := t])"
  shows "in_use q (app, ts) \<or> (\<exists>a ep. t = PEndpoint a ep \<and> ep_port ep = q)"
proof -
  have "x \<in> set ts \<or> x = t" if "x \<in> set (ts[i := t])" for x using set_update_subset_insert [of ts i t] that by auto
  then show ?thesis using assms(2) unfolding in_use_def prod.case by metis
qed

lemma new_id_exists:
  assumes "minv (app, ts)" shows "\<exists>sid. new_id sid (app, ts)"
proof -
  let ?used = "dom (hm_get (by_session (ap_sessions app))) \<union> (\<lambda>a. s_id (ap_store app a)) ` (\<Union>t \<in> set ts. {a. claims t = Some a})"
  have f: "finite {a. claims t = Some a}" for t :: "'a pc" by (cases "claims t") auto
  have "finite ?used" using hm.fin_dom f by auto
  then obtain sid where s: "sid \<notin> ?used" using ex_new_if_finite infinite_UNIV_listI by blast
  have "sid \<notin> set (ids_of (ap_sessions app) r)" for r
  proof
    assume "sid \<in> set (ids_of (ap_sessions app) r)"
    then have "accounted (app, ts) r sid" by (rule minvD(6) [OF assms])
    then show False using s by (fastforce simp: accounted_def busy_def)
  qed
  moreover have "s_id (ap_store app a) \<noteq> sid" if "t \<in> set ts" "creating t = Some a" for t a
  proof -
    have "claims t = Some a" using that(2) by (cases t) simp_all
    then show ?thesis using s that(1) by auto
  qed
  ultimately show ?thesis using s unfolding new_id_def by (intro exI [of _ sid]) auto
qed

lemma pass_check:
  assumes "mreach k (app, ts)" "i < length ts" "ts ! i = Idle" "session_count (ap_sessions app) < MAX_SESSIONS"
    "packed n m (app, ts)" "n < 1000"
  shows "\<exists>app' a port. mreach k (app', ts[i := PEstablish a port]) \<and> session_count (ap_sessions app') = session_count (ap_sessions app) \<and>
    packed (Suc n) m (app', ts[i := PEstablish a port]) \<and> unat port = 40000 + n"
proof -
  obtain sid where new: "new_id sid (app, ts)" using new_id_exists [OF mreach_minv [OF assms(1)]] by blast
  obtain port where p: "port_take (ap_ports app) = Some (port, \<lparr>pp_next = 40000 + of_nat (Suc n), pp_lo = 40000, pp_hi = 40999\<rparr>)"
    "unat port = 40000 + n" using take_in_order [OF assms(6)] assms(5) by (auto simp: packed_def)
  let ?room = "Channel ''c''" and ?pool = "\<lparr>pp_next = 40000 + of_nat (Suc n), pp_lo = 40000, pp_hi = 40999\<rparr>"
  let ?t = "PCheck sid ''u'' (Some ?room) False"
  let ?app = "app\<lparr>ap_store := (ap_store app)(ap_next app := Session_new sid ''u'' ?room False), ap_next := ap_next app + 1, ap_ports := ?pool\<rparr>"
  let ?ts = "ts[i := PEstablish (ap_next app) port]"
  have r: "mreach k (app, ts[i := ?t])"
    using mreach.step [OF assms(1) mstep.request [OF assms(2,3), of app sid "''u''" "Some ?room"]] by (simp add: is_spatial_def)
  have "new_id sid (app, ts[i := ?t])" using new assms(2) by (fastforce simp: new_id_def set_update)
  from mreach.step [OF r mstep.check [OF _ _ assms(4) _ this p(1), of i "''u''" ?room False]] assms(2)
  have m: "mreach k (?app, ?ts)" by simp
  have "in_use q (app, ts)" if "in_use q (?app, ?ts)" for q
  proof -
    have "in_use q (app, ?ts)" using that by (simp add: in_use_def app_endpoint_def)
    then show ?thesis using in_use_update [OF assms(2)] by blast
  qed
  then have "packed (Suc n) m (?app, ?ts)" using assms(5) by (auto simp: packed_def)
  moreover have "session_count (ap_sessions ?app) = session_count (ap_sessions app)" by simp
  ultimately show ?thesis using m p(2) by blast
qed

lemma add_session:
  assumes "mreach k (app, ts)" "i < length ts" "ts ! i = PEstablish a port" "packed n m (app, ts)" "unat port = 40000 + m"
  shows "\<exists>app'. mreach k (app', ts[i := Idle]) \<and> session_count (ap_sessions app') = Suc (session_count (ap_sessions app)) \<and>
    packed n (Suc m) (app', ts[i := Idle])"
proof -
  define ep :: "'a endpoint" where "ep = \<lparr>ep_session = a, ep_out_ssrc = 1, ep_out_pt = 111, ep_dc = None, ep_encoder = undefined,
    ep_packet_timestamp = 0, ep_port = port\<rparr>"
  have ep: "ep_session ep = a" "ep_port ep = port" by (simp_all add: ep_def)
  have free: "\<not> in_use port (app, ts)" using assms(4,5) by (auto simp: packed_def)
  let ?app1 = "app\<lparr>ap_endpoints := hm_insert (s_id (ap_store app a)) ep (ap_endpoints app)\<rparr>"
  let ?app2 = "?app1\<lparr>ap_sessions := insert_room (ap_store app) a (ap_sessions app)\<rparr>"
  let ?app3 = "?app2\<lparr>ap_sessions := insert_session (ap_store app) a (insert_room (ap_store app) a (ap_sessions app))\<rparr>"
  note st = mreach.step
  have "mreach k (app, ts[i := PEndpoint a ep])" using assms(1) mstep.established [OF assms(2,3) ep free] by (rule st)
  from st [OF this mstep.endpoint [of i _ a ep]] assms(2) have "mreach k (?app1, ts[i := PRoom a])" by simp
  from st [OF this mstep.room [of i _ a]] assms(2) have m: "mreach k (?app2, ts[i := PSession a])" by simp
  from st [OF m mstep.session [of i _ a]] assms(2) have r: "mreach k (?app3, ts[i := Idle])" by simp
  note d = minvD [OF mreach_minv [OF m]]
  have "hm_get (by_session (ap_sessions ?app2)) (s_id (ap_store app a)) = None"
    using d(7) [of i] assms(2) by (simp add: slot_ok_def)
  then have "session_count (ap_sessions ?app3) = Suc (session_count (ap_sessions app))"
    using hm.len_put [OF d(1)] by (simp add: session_count_def insert_session_def)
  moreover have "in_use q (app, ts) \<or> q = port" if "in_use q (?app3, ts[i := Idle])" for q
  proof -
    have sub: "PEndpoint b e \<in> set ts" if "PEndpoint b e \<in> set (ts[i := Idle])" for b e
      using set_update_subset_insert [of ts i Idle] that by auto
    have e: "app_endpoint sid ?app3 = (if sid = s_id (ap_store app a) then Some ep else app_endpoint sid app)" for sid
      by (simp add: app_endpoint_def hm_simps)
    have "(\<exists>sid e. (if sid = s_id (ap_store app a) then Some ep else app_endpoint sid app) = Some e \<and> ep_port e = q) \<or>
        (\<exists>b e. PEndpoint b e \<in> set (ts[i := Idle]) \<and> ep_port e = q)"
      using that unfolding in_use_def prod.case e .
    then show ?thesis using ep(2) sub by (auto simp: in_use_def split: if_splits)
  qed
  then have "packed n (Suc m) (?app3, ts[i := Idle])" using assms(4,5) by (fastforce simp: packed_def)
  ultimately show ?thesis using r by blast
qed

lemma fill_to:
  assumes "0 < k" "n \<le> 899"
  shows "\<exists>app :: 'e app. mreach k (app, replicate k Idle) \<and> session_count (ap_sessions app) = n \<and> packed n n (app, replicate k Idle)"
  using assms(2)
proof (induction n)
  case 0
  have "packed 0 0 (app_new '''' :: 'e app, replicate k Idle)"
    by (auto simp: packed_def in_use_def app_new_def app_endpoint_def hm_simps PortPool_new_def MEDIA_PORT_LO_def MEDIA_PORT_HI_def)
  then show ?case using mreach.start [of k "''''"]
    by (intro exI [of _ "app_new ''''"]) (simp add: app_new_def registry_default_def session_count_def hm_len_0_iff [THEN iffD2])
next
  case (Suc n)
  then obtain app :: "'e app" where a: "mreach k (app, replicate k Idle)" "session_count (ap_sessions app) = n"
    "packed n n (app, replicate k Idle)" by auto
  obtain app1 :: "'e app" and x port where b: "mreach k (app1, (replicate k Idle)[0 := PEstablish x port])" "session_count (ap_sessions app1) = n"
    "packed (Suc n) n (app1, (replicate k Idle)[0 := PEstablish x port])" "unat port = 40000 + n"
    using pass_check [OF a(1) _ _ _ a(3), of 0] a(2) assms(1) Suc.prems by (auto simp: MAX_SESSIONS_def)
  obtain app2 :: "'e app" where "mreach k (app2, (replicate k Idle)[0 := PEstablish x port, 0 := Idle])"
    "session_count (ap_sessions app2) = Suc n" "packed (Suc n) (Suc n) (app2, (replicate k Idle)[0 := PEstablish x port, 0 := Idle])"
    using add_session [OF b(1) _ _ b(3,4), of 0 x] b(2) assms(1) by auto
  moreover have "(replicate k Idle :: 'e pc list)[0 := PEstablish x port, 0 := Idle] = replicate k Idle"
    using assms(1) by (simp add: list_eq_iff_nth_eq nth_list_update)
  ultimately show ?case by (intro exI [of _ app2]) simp
qed

lemma all_past_check:
  assumes "0 < k" "m \<le> k" "k \<le> 101"
  shows "\<exists>app :: 'e app. \<exists>ts. mreach k (app, ts) \<and> session_count (ap_sessions app) = 899 \<and> packed (899 + m) 899 (app, ts) \<and>
    (\<forall>i < m. \<exists>a port. ts ! i = PEstablish a port \<and> unat port = 40899 + i) \<and> (\<forall>i < k. m \<le> i \<longrightarrow> ts ! i = Idle)"
  using assms(2)
proof (induction m)
  case 0
  obtain app :: "'e app" where "mreach k (app, replicate k Idle)" "session_count (ap_sessions app) = 899" "packed 899 899 (app, replicate k Idle)"
    using fill_to [OF assms(1), of 899] by auto
  then show ?case by (intro exI [of _ app] exI [of _ "replicate k Idle"]) simp
next
  case (Suc m)
  then obtain app :: "'e app" and ts where a: "mreach k (app, ts)" "session_count (ap_sessions app) = 899" "packed (899 + m) 899 (app, ts)"
    "\<forall>i < m. \<exists>a port. ts ! i = PEstablish a port \<and> unat port = 40899 + i" "\<forall>i < k. m \<le> i \<longrightarrow> ts ! i = Idle" by auto
  have l: "length ts = k" using mreach_length [OF a(1)] by simp
  have m: "m < length ts" "ts ! m = Idle" "session_count (ap_sessions app) < MAX_SESSIONS" "899 + m < 1000"
    using a(2,5) Suc.prems l assms(3) by (auto simp: MAX_SESSIONS_def)
  obtain app' :: "'e app" and x port where b: "mreach k (app', ts[m := PEstablish x port])" "session_count (ap_sessions app') = 899"
    "packed (899 + Suc m) 899 (app', ts[m := PEstablish x port])" "unat port = 40899 + m"
    using pass_check [OF a(1) m(1-3) a(3) m(4)] a(2) by auto
  show ?case using b a(4,5) l Suc.prems
    by (intro exI [of _ app'] exI [of _ "ts[m := PEstablish x port]"]) (auto simp: nth_list_update less_Suc_eq)
qed

lemma all_registered:
  assumes "0 < k" "m \<le> k" "k \<le> 101"
  shows "\<exists>app :: 'e app. \<exists>ts. mreach k (app, ts) \<and> session_count (ap_sessions app) = 899 + m \<and> packed (899 + k) (899 + m) (app, ts) \<and>
    (\<forall>i < k. m \<le> i \<longrightarrow> (\<exists>a port. ts ! i = PEstablish a port \<and> unat port = 40899 + i))"
  using assms(2)
proof (induction m)
  case 0
  then show ?case using all_past_check [OF assms(1) order_refl assms(3)] by auto
next
  case (Suc m)
  then obtain app :: "'e app" and ts where a: "mreach k (app, ts)" "session_count (ap_sessions app) = 899 + m"
    "packed (899 + k) (899 + m) (app, ts)"
    "\<forall>i < k. m \<le> i \<longrightarrow> (\<exists>a port. ts ! i = PEstablish a port \<and> unat port = 40899 + i)" by auto
  have l: "length ts = k" using mreach_length [OF a(1)] by simp
  obtain x port where x: "ts ! m = PEstablish x port" "unat port = 40000 + (899 + m)" using a(4) [rule_format, of m] Suc.prems by auto
  have m: "m < length ts" using l Suc.prems by simp
  obtain app' :: "'e app" where b: "mreach k (app', ts[m := Idle])" "session_count (ap_sessions app') = 899 + Suc m"
    "packed (899 + k) (899 + Suc m) (app', ts[m := Idle])"
    using add_session [OF a(1) m x(1) a(3) x(2)] a(2) by auto
  show ?case using b a(4) l by (intro exI [of _ app'] exI [of _ "ts[m := Idle]"]) auto
qed

text \<open>C34. The session ceiling is soft: the check and the insertion are separate, so with \<open>k + 1\<close>
  requests in progress at once up to \<open>900 + k\<close> sessions can be registered, never more. For \<open>k\<close> up to 100, as
  far as the 1000 media ports go, that many are reached, each on a port of its own, by requests with a user
  and a room that all pass the check before any of them registers.\<close>

theorem ceiling_overrun:
  assumes "mreach (Suc k) (app :: 'e app, ts)"
  shows "session_count (ap_sessions app) \<le> 900 + k \<and>
    (k \<le> 100 \<longrightarrow> (\<exists>app' ts'. mreach (Suc k) (app' :: 'e app, ts') \<and> session_count (ap_sessions app') = 900 + k))"
proof
  show "session_count (ap_sessions app) \<le> 900 + k" using ceiling_bound [OF assms] by simp
  show "k \<le> 100 \<longrightarrow> (\<exists>app' ts'. mreach (Suc k) (app' :: 'e app, ts') \<and> session_count (ap_sessions app') = 900 + k)"
    using all_registered [of "Suc k" "Suc k"] by auto
qed

lemma ceiling_overrun_witness:
  "\<exists>app' :: unit app. \<exists>ts'. mreach 2 (app', ts') \<and> session_count (ap_sessions app') = 901"
proof -
  have "mreach (Suc 1) (app_new ''203.0.113.10'' :: unit app, replicate 2 Idle)"
    using mreach.start [of 2 "''203.0.113.10''"] by (simp only: numeral_2_eq_2 One_nat_def)
  from ceiling_overrun [OF this] show ?thesis by (simp add: numeral_2_eq_2)
qed

section \<open>A session without an endpoint\<close>

text \<open>C35. A teardown that overtakes a registration leaves a ghost: when \<open>drop_session\<close> runs between
  \<open>endpoints.insert\<close> and \<open>sessions.insert\<close> of the provision it tears down (the mixer loop does so
  when the connection fails that early), the session ends up registered without an endpoint, no request
  is in progress, and no reaping removes it: it counts against the ceiling and is listed in its room.\<close>

theorem ghost_session:
  "\<exists>(app :: 'e app) sid a. mreach 2 (app, [Idle, Idle]) \<and> hm_get (by_session (ap_sessions app)) sid = Some a \<and>
     app_endpoint sid app = None \<and> a \<in> set (reg_members (ap_sessions app) (s_room (ap_store app a))) \<and> (\<forall>ser. reap ser app = app)"
proof -
  define app0 where "app0 = (app_new '''' :: 'e app)"
  define app1 where "app1 = app0\<lparr>ap_store := (ap_store app0)(0 := Session_new ''s'' ''u'' (Channel ''c'') False), ap_next := 1,
    ap_ports := \<lparr>pp_next = 40000 + of_nat 1, pp_lo = 40000, pp_hi = 40999\<rparr>\<rparr>"
  obtain port where port: "port_take \<lparr>pp_next = 40000 + of_nat 0, pp_lo = 40000, pp_hi = 40999\<rparr> =
      Some (port, \<lparr>pp_next = 40000 + of_nat 1, pp_lo = 40000, pp_hi = 40999\<rparr>)" using take_in_order [of 0] by auto
  define ep :: "'e endpoint" where "ep = \<lparr>ep_session = 0, ep_out_ssrc = 1, ep_out_pt = 111, ep_dc = None, ep_encoder = undefined,
    ep_packet_timestamp = 0, ep_port = port\<rparr>"
  have ep: "ep_session ep = 0" "ep_port ep = port" by (simp_all add: ep_def)
  define app2 where "app2 = app1\<lparr>ap_endpoints := hm_insert ''s'' ep (ap_endpoints app1)\<rparr>"
  define app3 where "app3 = app2\<lparr>ap_endpoints := hm_remove ''s'' (ap_endpoints app2)\<rparr>"
  define app4 where "app4 = app3\<lparr>ap_sessions := insert_room (ap_store app3) 0 (ap_sessions app3)\<rparr>"
  define app5 where "app5 = app4\<lparr>ap_sessions := insert_session (ap_store app4) 0 (ap_sessions app4)\<rparr>"
  have n0: "ap_next app0 = 0" "ap_sessions app0 = registry_default" "ap_endpoints app0 = hm_empty"
    "ap_ports app0 = \<lparr>pp_next = 40000 + of_nat 0, pp_lo = 40000, pp_hi = 40999\<rparr>"
    by (simp_all add: app0_def app_new_def PortPool_new_def MEDIA_PORT_LO_def MEDIA_PORT_HI_def)
  have sid: "s_id (ap_store app1 0) = ''s''" by (simp add: app1_def Session_new_def)
  note st = mreach.step
  have "mreach 2 (app0, [Idle, Idle])" using mreach.start [of 2 "''''"] by (simp add: app0_def numeral_2_eq_2)
  from st [OF this mstep.request [of 0 _ app0 "''s''" "''u''" "Some (Channel ''c'')"]]
  have r: "mreach 2 (app0, [PCheck ''s'' ''u'' (Some (Channel ''c'')) False, Idle])" by (simp add: is_spatial_def)
  have "new_id ''s'' (app0, [PCheck ''s'' ''u'' (Some (Channel ''c'')) False, Idle])"
    by (simp add: new_id_def n0 registry_default_def ids_of_def hm_simps)
  from st [OF r mstep.check [OF _ _ _ _ this port [folded n0(4)], of 0 "''u''" "Channel ''c''" False]]
  have "mreach 2 (app1, [PEstablish 0 port, Idle])"
    by (simp add: app1_def n0 session_count_def registry_default_def hm_len_0_iff [THEN iffD2] MAX_SESSIONS_def)
  moreover have "\<not> in_use port (app1, [PEstablish 0 port, Idle])"
    by (simp add: in_use_def app1_def n0 app_endpoint_def hm_simps)
  ultimately have "mreach 2 (app1, [PEndpoint 0 ep, Idle])" using st [OF _ mstep.established [of 0 _ 0 port ep]] ep by fastforce
  from st [OF this mstep.endpoint [of 0 _ 0 ep]] have "mreach 2 (app2, [PRoom 0, Idle])" by (simp add: app2_def sid)
  from st [OF this mstep.drop [of 1 _ _ "''s''"]] have "mreach 2 (app2, [PRoom 0, DEndpoint ''s''])" by simp
  from st [OF this mstep.drop_endpoint [of 1 _ "''s''"]] have "mreach 2 (app3, [PRoom 0, DSession ''s''])" by (simp add: app3_def)
  moreover have "hm_get (by_session (ap_sessions app3)) ''s'' = None"
    by (simp add: app3_def app2_def app1_def n0 registry_default_def hm_simps)
  ultimately have "mreach 2 (app3, [PRoom 0, Idle])"
    using st [OF _ mstep.drop_unknown [of 1 "[PRoom 0, DSession ''s'']" "''s''" app3]] by simp
  from st [OF this mstep.room [of 0 _ 0]] have "mreach 2 (app4, [PSession 0, Idle])" by (simp add: app4_def)
  from st [OF this mstep.session [of 0 _ 0]] have m: "mreach 2 (app5, [Idle, Idle])" by (simp add: app5_def)
  have s5: "s_id (ap_store app4 0) = ''s''" "s_id (ap_store app5 0) = ''s''"
    using sid by (simp_all add: app5_def app4_def app3_def app2_def)
  have g: "hm_get (by_session (ap_sessions app5)) ''s'' = Some 0" by (simp add: app5_def get_insert_session s5)
  have e: "ap_endpoints app5 = hm_remove ''s'' (hm_insert ''s'' ep hm_empty)"
    by (simp add: app5_def app4_def app3_def app2_def app1_def n0)
  then have none: "app_endpoint sid app5 = None" for sid by (simp add: app_endpoint_def hm_simps)
  have "ap_endpoints app5 = []" unfolding e by (simp add: hm_remove_def hm_insert_def hm_empty_def)
  then have "reap ser app5 = app5" for ser by (simp add: reap_def dead_sessions_def hm_values_def)
  moreover have "0 \<in> set (reg_members (ap_sessions app5) (s_room (ap_store app5 0)))"
    using minvD(5) [OF mreach_minv [OF m] g] g by (auto simp: members_ids set_map_filter)
  ultimately show ?thesis using m g none by blast
qed

section \<open>Outstanding tasks\<close>

text \<open>The mixer loop and the tasks it has spawned: a run interleaves ticks, the completion of any
  outstanding task, and anything else that changes the application. The third component is the list of
  outstanding tasks.\<close>

inductive env_step :: "'e app \<Rightarrow> 'e app \<Rightarrow> bool" where
  rpc: "fresh uuid app \<Longrightarrow> rpc_response dbg ser from_slice X uuid body app = Some (r, app') \<Longrightarrow> env_step app app'"
| control: "json_finite v \<Longrightarrow>
    env_step app (app\<lparr>ap_store := (ap_store app)(a := apply_data (viewer_data_of_value v) (ap_store app a))\<rparr>)"
| audio: "env_step app (app\<lparr>ap_store := (ap_store app)(a := push_frame f (ap_store app a))\<rparr>)"
| connection: "env_step app (app\<lparr>ap_store := (ap_store app)(a := on_connection_state_change cs (ap_store app a))\<rparr>)"
| channel: "app_endpoint sid app = Some ep \<Longrightarrow>
    env_step app (app\<lparr>ap_endpoints := hm_insert sid (ep\<lparr>ep_dc := slot\<rparr>) (ap_endpoints app)\<rparr>)"

inductive sched :: "'e app \<Rightarrow> mixer_state \<Rightarrow> arc list list \<Rightarrow> bool" where
  start: "sched (app_new ip) \<lparr>mx_inflight = 0, mx_skipped = 0, mx_last_warned = t\<rparr> []"
| tick: "sched app mx out \<Longrightarrow> mixer_tick c ser now (app, mx) = ((app', mx'), jobs, w) \<Longrightarrow> sched app' mx' (out @ jobs)"
| task: "sched app mx (xs @ members # ys) \<Longrightarrow> room_task L c ser enc wr members (app, mx) = Some (app', mx') \<Longrightarrow>
    sched app' mx' (xs @ ys)"
| env: "sched app mx out \<Longrightarrow> env_step app app' \<Longrightarrow> sched app' mx out"


lemma env_reachable: "env_step app app' \<Longrightarrow> reachable app \<Longrightarrow> reachable app'"
  by (induction rule: env_step.induct) (auto intro: reachable.rpc reachable.control reachable.audio reachable.connection reachable.channel [simplified])

lemma tick_jobs:
  assumes "app_ok app" "mixer_tick c ser now (app, mx) = ((app', mx'), jobs, w)"
  shows "if mx_inflight mx \<noteq> 0 then jobs = [] \<and> mx_inflight mx' = mx_inflight mx
    else mx_inflight mx' = length jobs \<and> distinct (concat jobs)"
proof (cases "mx_inflight mx = 0")
  case True
  note ok = reap_ok [OF assms(1), of ser]
  have ro: "reg_ok (ap_store (reap ser app)) (ap_sessions (reap ser app))" using ok by (simp add: app_ok_def)
  have dk: "distinct (reg_rooms (ap_sessions (reap ser app)))"
    using reg_okD(2) [OF ro] by (simp add: reg_rooms_def hm_keys_def hm_ok_def)
  have "jobs = filter (\<lambda>ms. 2 \<le> length ms) (map (reg_members (ap_sessions (reap ser app))) (reg_rooms (ap_sessions (reap ser app))))"
    "mx_inflight mx' = length jobs"
    using assms(2) True serve_rooms_ok [OF ok, of c "reg_rooms (ap_sessions (reap ser app))"]
    unfolding mixer_tick_def by (auto simp: Let_def split_beta)
  then show ?thesis using True jobs_disjoint [OF ro dk] by simp
qed (use assms(2) in \<open>auto simp: mixer_tick_def Let_def split: if_splits\<close>)

lemma sched_inv: "sched app mx out \<Longrightarrow> reachable app \<and> mx_inflight mx = length out \<and> distinct (concat out)"
proof (induction rule: sched.induct)
  case (start ip t)
  show ?case by (simp add: reachable.start)
next
  case (tick app mx out c ser now app' mx' jobs w)
  have r: "reachable app'" using tick(3,2) by (auto intro: reachable.tick)
  have a: "app_ok app" using tick(3) reachable_ok by blast
  show ?case
  proof (cases "out = []")
    case True
    then show ?thesis using r tick_jobs [OF a tick(2)] tick(3) by simp
  next
    case False
    then show ?thesis using r tick_jobs [OF a tick(2)] tick(3) by simp
  qed
next
  case (task app mx xs members ys L c ser enc wr app' mx')
  have d: "distinct members" using task(3) by simp
  have "mx_inflight mx' = mx_inflight mx - 1" using task(2) by (auto simp: room_task_def)
  then show ?case using task(3) reachable.task [OF _ d task(2)] by auto
next
  case (env app mx out app')
  then show ?case using env_reachable by blast
qed

text \<open>C7. Work on one session never overlaps itself: in every run of the mixer loop, its tasks and
  everything else, no session is in two outstanding tasks (nor twice in one), and the in-flight counter
  is the number of outstanding tasks; so a tick that finds the counter zero finds no task at work, and
  a tick that finds it non-zero spawns none.\<close>

theorem tasks_never_overlap:
  assumes "sched app mx out"
  shows "mx_inflight mx = length out \<and> distinct (concat out) \<and>
    (\<forall>c ser now. out \<noteq> [] \<longrightarrow> fst (snd (mixer_tick c ser now (app, mx))) = [])"
proof -
  have i: "reachable app" "mx_inflight mx = length out" "distinct (concat out)" using sched_inv [OF assms] by auto
  have "fst (snd (mixer_tick c ser now (app, mx))) = []" if "out \<noteq> []" for c ser now
    using that i(2) by (simp add: mixer_tick_def Let_def)
  then show ?thesis using i by blast
qed

lemma tasks_never_overlap_witness:
  "mx_inflight \<lparr>mx_inflight = 0, mx_skipped = 0, mx_last_warned = 7\<rparr> = length ([] :: arc list list)"
  using tasks_never_overlap [OF sched.start [of "''203.0.113.10''" 7]] by blast

end
