(* ===== verification/Connections.thy ===== *)
theory Connections
  imports App
begin

text \<open>
  One connection of \<open>src/src/session.rs\<close> with the tasks its handler spawns: one per inbound track, each with its
  own decoder, and one per data channel. They share the session and the slot of the channel that texts are
  sent to; any interleaving of them, of changes of the connection's state and of the mixer's packets is a run.
\<close>

section \<open>A connection and its tasks\<close>

text \<open>The slot is the endpoint's \<open>ep_dc\<close>. \<open>cn_reading\<close> are the channels whose task still runs, in the order in which
  they were opened.\<close>

record ('e, 'd) connection =
  cn_session :: session
  cn_endpoint :: "'e endpoint"
  cn_reading :: "nat list"
  cn_tracks :: "('d \<times> fp list) list"

definition connection_new :: "session \<Rightarrow> 'e endpoint \<Rightarrow> ('e, 'd) connection" where
  "connection_new s ep =
     \<lparr>cn_session = s, cn_endpoint = ep, cn_reading = (case ep_dc ep of None \<Rightarrow> [] | Some dc \<Rightarrow> [dc]), cn_tracks = []\<rparr>"

definition set_slot :: "nat option \<Rightarrow> ('e, 'd) connection \<Rightarrow> ('e, 'd) connection" where
  "set_slot slot C = C\<lparr>cn_endpoint := (cn_endpoint C)\<lparr>ep_dc := slot\<rparr>\<rparr>"

text \<open>\<open>multi\<close>: a second channel may be opened while one is still read.\<close>

inductive connection_step ::
    "bool \<Rightarrow> (string \<Rightarrow> (string, json) result) \<Rightarrow> 'd decode \<Rightarrow> 'e encode \<Rightarrow> ('e, 'd) connection \<Rightarrow> ('e, 'd) connection \<Rightarrow> bool"
  for multi from_str decode_float encode_float where
  channel_opens: "dc \<notin> set (cn_reading C) \<Longrightarrow> multi \<or> cn_reading C = [] \<Longrightarrow>
    connection_step multi from_str decode_float encode_float C
      ((set_slot (on_data_channel_open dc (ep_dc (cn_endpoint C))) C)\<lparr>cn_reading := cn_reading C @ [dc]\<rparr>)"
| channel_event: "dc \<in> set (cn_reading C) \<Longrightarrow> evt \<noteq> OnClose \<Longrightarrow> evt \<noteq> OnError \<Longrightarrow>
    connection_step multi from_str decode_float encode_float C
      (C\<lparr>cn_session := channel_loop from_str [evt] (cn_session C)\<rparr>)"
| channel_ends: "dc \<in> set (cn_reading C) \<Longrightarrow>
    connection_step multi from_str decode_float encode_float C
      ((set_slot (on_data_channel_end dc (ep_dc (cn_endpoint C))) C)\<lparr>cn_reading := removeAll dc (cn_reading C)\<rparr>)"
| track_starts:
    "connection_step multi from_str decode_float encode_float C
      (C\<lparr>cn_tracks := cn_tracks C @ [(decoder, replicate MAX_DECODE_SAMPLES (Fin 0))]\<rparr>)"
| track_event: "k < length (cn_tracks C) \<Longrightarrow> cn_tracks C ! k = (decoder, pcm) \<Longrightarrow>
    on_packet decode_float evt (decoder, pcm, cn_session C) = (decoder', pcm', s) \<Longrightarrow>
    connection_step multi from_str decode_float encode_float C
      (C\<lparr>cn_session := s, cn_tracks := (cn_tracks C)[k := (decoder', pcm')]\<rparr>)"
| state_changes:
    "connection_step multi from_str decode_float encode_float C
      (C\<lparr>cn_session := on_connection_state_change st (cn_session C)\<rparr>)"
| mix_sent:
    "connection_step multi from_str decode_float encode_float C
      (C\<lparr>cn_endpoint := fst (send_mix encode_float write_sample stereo (cn_endpoint C))\<rparr>)"

section \<open>The slot\<close>

lemma send_mix_dc [simp]: "ep_dc (fst (send_mix enc wr stereo ep)) = ep_dc ep"
  by (auto simp: send_mix_def Let_def split: prod.split sum.split)

definition slot_ok :: "bool \<Rightarrow> ('e, 'd) connection \<Rightarrow> bool" where
  "slot_ok multi C \<longleftrightarrow>
     (case ep_dc (cn_endpoint C) of
        None \<Rightarrow> \<not> multi \<longrightarrow> cn_reading C = []
      | Some dc \<Rightarrow> cn_reading C \<noteq> [] \<and> dc = last (cn_reading C)) \<and>
     (\<not> multi \<longrightarrow> length (cn_reading C) \<le> 1)"

lemma slot_step: "connection_step multi from_str dcd enc C C' \<Longrightarrow> slot_ok multi C \<Longrightarrow> slot_ok multi C'"
proof (induction rule: connection_step.induct)
  case (channel_ends dc C)
  have "removeAll dc xs = []" if "dc \<in> set xs" "length xs \<le> 1" for xs :: "nat list"
    using that by (cases xs) auto
  then show ?case using channel_ends by (auto simp: slot_ok_def set_slot_def on_data_channel_end_def)
qed (auto simp: slot_ok_def set_slot_def on_data_channel_open_def simp del: channel_loop.simps split: option.splits)

lemma slot_run: "(connection_step multi from_str dcd enc)\<^sup>*\<^sup>* C C' \<Longrightarrow> slot_ok multi C \<Longrightarrow> slot_ok multi C'"
  by (induction rule: rtranclp_induct) (auto intro: slot_step)

lemma connection_new_ok: "slot_ok multi (connection_new s ep)"
  by (simp add: slot_ok_def connection_new_def split: option.split)

text \<open>The session's invariant survives every task.\<close>

lemma push_frames_inv: "sess_inv s \<Longrightarrow> sess_inv (fold push_frame fs s)"
proof (induction fs arbitrary: s)
  case (Cons f fs)
  then show ?case using jitter.push_bounded by (simp add: sess_inv_def)
qed simp

lemma on_packet_inv:
  "on_packet dcd evt (d, pcm, s) = (d', pcm', s') \<Longrightarrow> sess_inv s \<Longrightarrow> sess_inv s'"
  by (auto simp: on_packet_def push_frames_inv split: track_event.splits if_splits prod.splits sum.splits)

lemma event_inv:
  assumes "\<And>t v. from_str t = Inr v \<Longrightarrow> json_finite v" "sess_inv s"
  shows "sess_inv (channel_loop from_str [evt] s)"
proof -
  have "sess_inv (apply_data (viewer_data_of_value v) s)" if "from_str t = Inr v" for t v
    using apply_data_ok [OF parsed_data_ok [OF assms(1) [OF that]]] assms(2) by (simp add: sess_inv_def)
  then show ?thesis
    using assms(2) by (auto simp: viewer_data_parse_def res_bind_def split: channel_event.split option.split sum.split)
qed

lemma session_run:
  assumes "(connection_step multi from_str dcd enc)\<^sup>*\<^sup>* C C'" "\<And>t v. from_str t = Inr v \<Longrightarrow> json_finite v" "sess_inv (cn_session C)"
  shows "sess_inv (cn_session C')"
  using assms(1)
proof (induction rule: rtranclp_induct)
  case (step C1 C2)
  from step(2,3) show ?case
  proof (induction rule: connection_step.induct)
    case (track_event k C d pcm evt d' pcm' s)
    then show ?case by (simp add: on_packet_inv)
  qed (simp_all add: set_slot_def event_inv [OF assms(2)] del: channel_loop.simps)
qed (rule assms(3))

text \<open>From every state two more channels, the first of which ends, leave an open channel without a slot.\<close>

lemma slot_loss:
  "\<exists>C' dc. (connection_step True from_str dcd enc)\<^sup>*\<^sup>* C C' \<and> dc \<in> set (cn_reading C') \<and> ep_dc (cn_endpoint C') = None"
proof -
  let ?step = "connection_step True from_str dcd enc"
  obtain a where a: "a \<notin> set (cn_reading C)" using ex_new_if_finite [OF infinite_UNIV_nat, of "set (cn_reading C)"] by auto
  define C1 where "C1 = (set_slot (on_data_channel_open a (ep_dc (cn_endpoint C))) C)\<lparr>cn_reading := cn_reading C @ [a]\<rparr>"
  have 1: "?step C C1" unfolding C1_def by (rule channel_opens) (use a in simp_all)
  obtain b where b: "b \<notin> set (cn_reading C1)" using ex_new_if_finite [OF infinite_UNIV_nat, of "set (cn_reading C1)"] by auto
  define C2 where "C2 = (set_slot (on_data_channel_open b (ep_dc (cn_endpoint C1))) C1)\<lparr>cn_reading := cn_reading C1 @ [b]\<rparr>"
  have 2: "?step C1 C2" unfolding C2_def by (rule channel_opens) (use b in simp_all)
  define C3 where "C3 = (set_slot (on_data_channel_end a (ep_dc (cn_endpoint C2))) C2)\<lparr>cn_reading := removeAll a (cn_reading C2)\<rparr>"
  have 3: "?step C2 C3" unfolding C3_def by (rule channel_ends) (simp add: C2_def C1_def set_slot_def)
  have "b \<noteq> a" using b by (simp add: C1_def)
  then have "b \<in> set (cn_reading C3)" by (simp add: C3_def C2_def)
  moreover have "ep_dc (cn_endpoint C3) = None" by (simp add: C3_def set_slot_def on_data_channel_end_def)
  moreover have "?step\<^sup>*\<^sup>* C C3" using 1 2 3 by (meson converse_rtranclp_into_rtranclp rtranclp.rtrancl_refl)
  ultimately show ?thesis by blast
qed

text \<open>C40. What the tasks of a connection make of the session and the slot, under every interleaving of data
  channels, tracks, state changes and packets: the session keeps its invariant (bounded, finite, at most ten
  frames); a text is only ever sent to the channel opened last, and only while that is still read; when
  channels do not overlap a channel is there to send to exactly while one is read. When they do, the end of an
  earlier channel empties the slot: whatever has happened before, the connection can come to a state in which
  a channel is open and read while its viewer is sent neither roster nor notice.\<close>

theorem slot_tracks_channel:
  assumes "(connection_step multi from_str decode_float encode_float)\<^sup>*\<^sup>* (connection_new (Session_new sid agent room sp) ep) C"
    and "\<And>t v. from_str t = Inr v \<Longrightarrow> json_finite v"
  shows "sess_inv (cn_session C) \<and>
    (\<forall>dc text json. send_roster json (cn_endpoint C) = Some (dc, text) \<longrightarrow> cn_reading C \<noteq> [] \<and> dc = last (cn_reading C)) \<and>
    (\<not> multi \<longrightarrow> (data_channel_open (cn_endpoint C) \<longleftrightarrow> cn_reading C \<noteq> [])) \<and>
    (multi \<longrightarrow> (\<exists>C' dc. (connection_step multi from_str decode_float encode_float)\<^sup>*\<^sup>* C C' \<and>
       dc \<in> set (cn_reading C') \<and> \<not> data_channel_open (cn_endpoint C') \<and> (\<forall>json. send_roster json (cn_endpoint C') = None)))"
proof (intro conjI)
  have "sess_inv (Session_new sid agent room sp)" by (simp add: sess_inv_def Session_new_ok) (simp add: Session_new_def)
  then show "sess_inv (cn_session C)" using session_run [OF assms(1,2)] by (simp add: connection_new_def)
  have s: "slot_ok multi C" by (rule slot_run [OF assms(1) connection_new_ok])
  then show "\<forall>dc text json. send_roster json (cn_endpoint C) = Some (dc, text) \<longrightarrow> cn_reading C \<noteq> [] \<and> dc = last (cn_reading C)"
    "\<not> multi \<longrightarrow> (data_channel_open (cn_endpoint C) \<longleftrightarrow> cn_reading C \<noteq> [])"
    by (auto simp: slot_ok_def send_roster_def data_channel_open_def split: option.splits)
  show "multi \<longrightarrow> (\<exists>C' dc. (connection_step multi from_str decode_float encode_float)\<^sup>*\<^sup>* C C' \<and>
       dc \<in> set (cn_reading C') \<and> \<not> data_channel_open (cn_endpoint C') \<and> (\<forall>json. send_roster json (cn_endpoint C') = None))"
    using slot_loss [of from_str decode_float encode_float C] by (auto simp: send_roster_def data_channel_open_def)
qed

lemma slot_tracks_channel_witness:
  "\<exists>C' dc. (connection_step True (\<lambda>_. Inl ''eof'') (\<lambda>d _ pcm. (d, pcm, Inl ''corrupt'')) (\<lambda>st _. (st, Inr [])))\<^sup>*\<^sup>*
       (connection_new (Session_new ''wv-1'' ''alice'' (Spatial ''region'' 0) True)
          \<lparr>ep_session = 0, ep_out_ssrc = 7, ep_out_pt = 111, ep_dc = None, ep_encoder = (), ep_packet_timestamp = 0, ep_port = 40000\<rparr> ::
          (unit, unit) connection) C' \<and>
     dc \<in> set (cn_reading C') \<and> (\<forall>json. send_roster json (cn_endpoint C') = None)"
proof -
  let ?fs = "\<lambda>_ :: string. Inl ''eof'' :: (string, json) result"
  let ?d = "\<lambda>(d :: unit) _ pcm. (d, pcm, Inl ''corrupt'')" and ?e = "\<lambda>(st :: unit) _. (st, Inr [])"
  let ?C = "connection_new (Session_new ''wv-1'' ''alice'' (Spatial ''region'' 0) True)
     \<lparr>ep_session = 0, ep_out_ssrc = 7, ep_out_pt = 111, ep_dc = None, ep_encoder = (), ep_packet_timestamp = 0, ep_port = 40000\<rparr> :: (unit, unit) connection"
  have "(connection_step True ?fs ?d ?e)\<^sup>*\<^sup>* ?C ?C" "\<And>t v. ?fs t = Inr v \<Longrightarrow> json_finite v" by simp_all
  from slot_tracks_channel [OF this] show ?thesis by blast
qed

end
