(* ===== verification/Delivery.thy ===== *)
theory Delivery
  imports App
begin

text \<open>
  From the room tick to the wire (\<open>mixer_loop\<close> in \<open>src/src/main.rs\<close>, \<open>Endpoint::send_mix\<close> and
  \<open>send_roster\<close> in \<open>src/src/session.rs\<close>). The first part says what each listener of a room is sent, the
  listeners served one after the other (\<open>room_task\<close>); that every other schedule of their tasks has the same
  outcome is shown in Listener_Tasks. The second
  follows one frame of a speaker's voice through a tick to the packet of a listener.
\<close>

section \<open>What a listener is sent\<close>

fun target :: "effect \<Rightarrow> string" where
  "target (ClosePc sid) = sid"
| "target (SendText sid dc text) = sid"
| "target (SendPacket sid pk) = sid"
| "target (AddIce sid c) = sid"

text \<open>The roster, if there is one, and then the packet of the encoded mix, if it could be encoded; nothing
  before the data channel is open.\<close>

definition sent :: "'e encode \<Rightarrow> 'e app \<Rightarrow> listener_output \<Rightarrow> effect list" where
  "sent enc app out =
     (let sid = s_id (ap_store app (o_session out))
      in case app_endpoint sid app of
           None \<Rightarrow> []
         | Some ep \<Rightarrow>
             (case ep_dc ep of
                None \<Rightarrow> []
              | Some dc \<Rightarrow>
                  (case o_roster out of None \<Rightarrow> [] | Some text \<Rightarrow> [SendText sid dc text]) @
                  (case snd (enc (ep_encoder ep) (o_stereo out)) of
                     Inl _ \<Rightarrow> []
                   | Inr buf \<Rightarrow> [SendPacket sid \<lparr>pk_ssrc = ep_out_ssrc ep, pk_pt = ep_out_pt ep,
                                   pk_timestamp = ep_packet_timestamp ep, pk_duration_ms = 20, pk_data = buf\<rparr>])))"

definition after_sending :: "'e encode \<Rightarrow> fp list \<Rightarrow> 'e endpoint \<Rightarrow> 'e endpoint" where
  "after_sending enc stereo ep =
     (if ep_dc ep = None then ep
      else (case enc (ep_encoder ep) stereo of
              (e, Inl _) \<Rightarrow> ep\<lparr>ep_encoder := e\<rparr>
            | (e, Inr _) \<Rightarrow> ep\<lparr>ep_encoder := e, ep_packet_timestamp := ep_packet_timestamp ep + 960\<rparr>))"

lemma sent_target: "e \<in> set (sent enc app out) \<Longrightarrow> target e = s_id (ap_store app (o_session out))"
  by (auto simp: sent_def Let_def split: option.splits sum.splits)

lemma send_mix_parts:
  "send_mix enc wr stereo ep = (ep', pk, r) \<Longrightarrow> ep_dc ep = Some dc \<Longrightarrow>
     ep' = after_sending enc stereo ep \<and>
     (case pk of None \<Rightarrow> [] | Some p \<Rightarrow> [SendPacket sid p]) =
       (case snd (enc (ep_encoder ep) stereo) of
          Inl _ \<Rightarrow> []
        | Inr buf \<Rightarrow> [SendPacket sid \<lparr>pk_ssrc = ep_out_ssrc ep, pk_pt = ep_out_pt ep,
                        pk_timestamp = ep_packet_timestamp ep, pk_duration_ms = 20, pk_data = buf\<rparr>])"
  by (auto simp: send_mix_def after_sending_def Let_def FRAME_SAMPLES_def split: prod.splits sum.splits)

lemma deliver_parts:
  assumes "sid = s_id (ap_store app (o_session out))"
  shows "ap_trace (deliver enc wr out app) = ap_trace app @ sent enc app out"
    "app_endpoint k (deliver enc wr out app) =
       (if k = sid then map_option (after_sending enc (o_stereo out)) (app_endpoint k app) else app_endpoint k app)"
    "ap_store (deliver enc wr out app) = ap_store app" "ap_sessions (deliver enc wr out app) = ap_sessions app"
proof -
  have "ap_trace (deliver enc wr out app) = ap_trace app @ sent enc app out \<and>
    app_endpoint k (deliver enc wr out app) =
       (if k = sid then map_option (after_sending enc (o_stereo out)) (app_endpoint k app) else app_endpoint k app) \<and>
    ap_store (deliver enc wr out app) = ap_store app \<and> ap_sessions (deliver enc wr out app) = ap_sessions app"
  proof (cases "app_endpoint sid app")
    case None
    then show ?thesis using assms by (simp add: deliver_def sent_def)
  next
    case (Some ep)
    obtain ep' pk r where m: "send_mix enc wr (o_stereo out) ep = (ep', pk, r)" by (metis surj_pair)
    show ?thesis
    proof (cases "ep_dc ep")
      case None
      then have "\<not> data_channel_open ep" by (simp add: data_channel_open_def)
      then have "deliver enc wr out app = app" using Some by (simp add: deliver_def assms [symmetric])
      then show ?thesis using Some None by (simp add: sent_def assms [symmetric] after_sending_def)
    next
      case open_dc: (Some dc)
      note p = send_mix_parts [OF m open_dc, of sid]
      show ?thesis
        using Some open_dc m p
        by (simp add: deliver_def sent_def assms [symmetric] data_channel_open_def send_roster_def Let_def app_endpoint_def hm_simps
          split: option.split)
    qed
  qed
  then show "ap_trace (deliver enc wr out app) = ap_trace app @ sent enc app out"
    "app_endpoint k (deliver enc wr out app) =
       (if k = sid then map_option (after_sending enc (o_stereo out)) (app_endpoint k app) else app_endpoint k app)"
    "ap_store (deliver enc wr out app) = ap_store app" "ap_sessions (deliver enc wr out app) = ap_sessions app"
    by blast+
qed

lemma sent_cong:
  assumes "ap_store app' = ap_store app"
    "app_endpoint (s_id (ap_store app (o_session out))) app' = app_endpoint (s_id (ap_store app (o_session out))) app"
  shows "sent enc app' out = sent enc app out"
  using assms by (simp add: sent_def)

lemma fold_deliver:
  assumes "distinct (map (\<lambda>out. s_id (ap_store app (o_session out))) outs)"
  shows "ap_trace (fold (deliver enc wr) outs app) = ap_trace app @ concat (map (sent enc app) outs) \<and>
    (\<forall>out \<in> set outs. app_endpoint (s_id (ap_store app (o_session out))) (fold (deliver enc wr) outs app) =
       map_option (after_sending enc (o_stereo out)) (app_endpoint (s_id (ap_store app (o_session out))) app)) \<and>
    (\<forall>k. k \<notin> (\<lambda>out. s_id (ap_store app (o_session out))) ` set outs \<longrightarrow>
       app_endpoint k (fold (deliver enc wr) outs app) = app_endpoint k app) \<and>
    ap_store (fold (deliver enc wr) outs app) = ap_store app \<and> ap_sessions (fold (deliver enc wr) outs app) = ap_sessions app"
  using assms
proof (induction outs arbitrary: app)
  case (Cons out outs)
  let ?sid = "\<lambda>o'. s_id (ap_store app (o_session o'))" and ?app = "deliver enc wr out app"
  note d = deliver_parts [OF refl, where app = app and out = out and enc = enc and wr = wr]
  have nin: "?sid out \<notin> ?sid ` set outs" and dt: "distinct (map ?sid outs)" using Cons.prems by simp_all
  then have ne: "?sid o' \<noteq> ?sid out" if "o' \<in> set outs" for o' using that by (metis image_eqI)
  have s: "sent enc ?app o' = sent enc app o'" if "o' \<in> set outs" for o'
    using ne [OF that] by (intro sent_cong) (simp_all add: d)
  have m: "concat (map (sent enc ?app) outs) = concat (map (sent enc app) outs)"
    by (intro arg_cong [where f = concat] map_cong refl s)
  let ?fin = "fold (deliver enc wr) outs ?app"
  have "distinct (map (\<lambda>o'. s_id (ap_store ?app (o_session o'))) outs)" using dt by (simp only: d)
  from Cons.IH [OF this, unfolded d m]
  have ih: "ap_trace ?fin = (ap_trace app @ sent enc app out) @ concat (map (sent enc app) outs)"
    "\<And>o'. o' \<in> set outs \<Longrightarrow> app_endpoint (?sid o') ?fin =
       map_option (after_sending enc (o_stereo o')) (app_endpoint (?sid o') app)"
    "\<And>k. k \<notin> ?sid ` set outs \<Longrightarrow> app_endpoint k ?fin =
       (if k = ?sid out then map_option (after_sending enc (o_stereo out)) (app_endpoint k app) else app_endpoint k app)"
    "ap_store ?fin = ap_store app" "ap_sessions ?fin = ap_sessions app"
    using ne by simp_all
  show ?case using ih nin by (simp only: fold_Cons_rev fold.simps comp_apply) simp
qed simp

lemma concat_none: "k \<notin> h ` set xs \<Longrightarrow> concat (map (\<lambda>y. if h y = k then g y else []) xs) = []"
  by (induction xs) auto

lemma concat_pick:
  "distinct (map h xs) \<Longrightarrow> x \<in> set xs \<Longrightarrow> concat (map (\<lambda>y. if h y = h x then g y else []) xs) = g x"
proof (induction xs)
  case (Cons a xs)
  show ?case
  proof (cases "x = a")
    case True
    then have "concat (map (\<lambda>y. if h y = h x then g y else []) xs) = []" using Cons.prems(1) by (intro concat_none) simp
    then show ?thesis using True by simp
  next
    case False
    then have "x \<in> set xs" "h a \<noteq> h x" using Cons.prems by (auto simp: image_iff)
    then show ?thesis using Cons by simp
  qed
qed simp

lemma independent_spec:
  assumes "reachable app" "distinct members" "\<forall>m \<in> set members. live (ap_sessions app) m"
    "room_task L c ser enc wr members (app, mx) = Some (app', mx')"
  shows "\<exists>st outs logs new. mix_room L c ser members (ap_store app) = Some (st, outs, logs) \<and> map o_session outs = members \<and>
    ap_store app' = st \<and> ap_trace app' = ap_trace app @ new \<and>
    (\<forall>out \<in> set outs. filter (\<lambda>e. target e = s_id (ap_store app (o_session out))) new = sent enc app out \<and>
       app_endpoint (s_id (ap_store app (o_session out))) app' =
         map_option (after_sending enc (o_stereo out)) (app_endpoint (s_id (ap_store app (o_session out))) app)) \<and>
    (\<forall>sid. sid \<notin> (\<lambda>m. s_id (ap_store app m)) ` set members \<longrightarrow>
       filter (\<lambda>e. target e = sid) new = [] \<and> app_endpoint sid app' = app_endpoint sid app)"
proof -
  have ok: "app_ok app" using assms(1) by (rule reachable_ok)
  then have ro: "reg_ok (ap_store app) (ap_sessions app)" by (simp add: app_ok_def)
  obtain st outs logs where m: "mix_room L c ser members (ap_store app) = Some (st, outs, logs)"
    and app': "app' = fold (deliver enc wr) outs (app\<lparr>ap_store := st\<rparr>)"
    using assms(4) by (auto simp: room_task_def)
  have os: "map o_session outs = members" and sv: "same_view (ap_store app) st"
    using mix_room_spec [OF assms(2), of L c ser "ap_store app"] m by auto
  have ids: "s_id (st a) = s_id (ap_store app a)" for a using sv by (simp add: same_view_def same_ids_def)
  have inj: "inj_on (\<lambda>m. s_id (ap_store app m)) (set members)"
  proof (rule inj_onI)
    fix x y assume "x \<in> set members" "y \<in> set members" and e: "s_id (ap_store app x) = s_id (ap_store app y)"
    then obtain k where k: "hm_get (by_session (ap_sessions app)) k = Some x" using assms(3) unfolding live_def by blast
    obtain k' where k': "hm_get (by_session (ap_sessions app)) k' = Some y" using assms(3) \<open>y \<in> set members\<close> unfolding live_def by blast
    then show "x = y" using e k reg_okD(3) [OF ro k] reg_okD(3) [OF ro k'] by simp
  qed
  let ?sid = "\<lambda>out. s_id (ap_store app (o_session out))"
  have "map ?sid outs = map (\<lambda>m. s_id (ap_store app m)) members" by (simp flip: os)
  then have d: "distinct (map ?sid outs)" using inj assms(2) by (simp add: distinct_map)
  have sent: "sent enc (app\<lparr>ap_store := st\<rparr>) out = sent enc app out" for out
    by (simp add: sent_def ids app_endpoint_def)
  let ?new = "concat (map (sent enc app) outs)"
  have f: "ap_trace app' = ap_trace app @ ?new \<and>
    (\<forall>out \<in> set outs. app_endpoint (?sid out) app' = map_option (after_sending enc (o_stereo out)) (app_endpoint (?sid out) app)) \<and>
    (\<forall>k. k \<notin> ?sid ` set outs \<longrightarrow> app_endpoint k app' = app_endpoint k app) \<and> ap_store app' = st"
    using fold_deliver [of "app\<lparr>ap_store := st\<rparr>" outs enc wr] d
    by (simp add: ids app' sent [abs_def] app_endpoint_def cong: map_cong)
  have im: "?sid ` set outs = (\<lambda>m. s_id (ap_store app m)) ` set members" by (auto simp flip: os)
  have one: "filter (\<lambda>e. target e = sid) (concat (map (sent enc app) xs)) =
      concat (map (\<lambda>out. if ?sid out = sid then sent enc app out else []) xs)" for sid xs
    by (induction xs) (auto simp: filter_empty_conv filter_id_conv dest: sent_target)
  have none: "concat (map (\<lambda>out. if ?sid out = sid then sent enc app out else []) outs) = []" if "sid \<notin> ?sid ` set outs" for sid
    using that by (rule concat_none)
  have each: "filter (\<lambda>e. target e = ?sid out) ?new = sent enc app out" if "out \<in> set outs" for out
    unfolding one by (rule concat_pick [OF d that])
  have rest: "filter (\<lambda>e. target e = sid) ?new = []" if "sid \<notin> ?sid ` set outs" for sid
    unfolding one by (rule none [OF that])
  show ?thesis
  proof (intro exI conjI)
    show "mix_room L c ser members (ap_store app) = Some (st, outs, logs)" by (rule m)
    show "map o_session outs = members" by (rule os)
    show "ap_trace app' = ap_trace app @ ?new" "ap_store app' = st" using f by simp_all
    show "\<forall>out \<in> set outs. filter (\<lambda>e. target e = ?sid out) ?new = sent enc app out \<and>
       app_endpoint (?sid out) app' = map_option (after_sending enc (o_stereo out)) (app_endpoint (?sid out) app)"
      using f each by blast
    show "\<forall>sid. sid \<notin> (\<lambda>m. s_id (ap_store app m)) ` set members \<longrightarrow>
       filter (\<lambda>e. target e = sid) ?new = [] \<and> app_endpoint sid app' = app_endpoint sid app"
      using f rest unfolding im [symmetric] by blast
  qed
qed

section \<open>One frame of voice\<close>

text \<open>What the mixer reads of the sessions that are not being removed.\<close>

definition same_voice :: "store \<Rightarrow> store \<Rightarrow> bool" where
  "same_voice st st' \<longleftrightarrow> same_ids st st' \<and> (\<forall>a. s_state (st' a) = s_state (st a) \<and> s_gains (st' a) = s_gains (st a) \<and>
     s_mutes (st' a) = s_mutes (st a))"

lemma same_voice_refl: "same_voice st st"
  by (simp add: same_voice_def)

lemma same_voice_trans: "same_voice st st1 \<Longrightarrow> same_voice st1 st2 \<Longrightarrow> same_voice st st2"
  using same_ids_trans by (auto simp: same_voice_def)

lemma forget_all_voice:
  "same_voice st (forget_all agent arcs st) \<and> s_inbound (forget_all agent arcs st a) = s_inbound (st a)"
  by (simp add: same_voice_def same_ids_def forget_all_apply forget_announced_def)

lemma reg_remove_voice:
  assumes "reg_remove sid (st, reg) = ((st', reg'), x)"
  shows "same_voice st st' \<and> s_inbound (st' a) = s_inbound (st a)"
proof (cases "hm_get (by_session reg) sid")
  case None
  then show ?thesis using assms by (simp add: reg_remove_def same_voice_refl)
next
  case (Some b)
  let ?f = "forget_all (s_agent_id (st b)) (hm_values (hm_remove sid (by_session reg))) st"
  have st': "st' = ?f(b := (?f b)\<lparr>s_closed := True\<rparr>)" using assms reg_remove_Some [OF Some, of st] by simp
  have "same_voice st ?f" "s_inbound (?f a) = s_inbound (st a)"
    using forget_all_voice [of st "s_agent_id (st b)" "hm_values (hm_remove sid (by_session reg))" a] by simp_all
  then show ?thesis by (auto simp: st' same_voice_def same_ids_def)
qed

lemma drop_session_voice:
  "same_voice (ap_store app) (ap_store (drop_session ser sid app)) \<and>
   s_inbound (ap_store (drop_session ser sid app) a) = s_inbound (ap_store app a)"
proof -
  obtain st reg gone where r: "reg_remove sid (ap_store app, ap_sessions app) = ((st, reg), gone)" by (metis surj_pair)
  show ?thesis using reg_remove_voice [OF r] by (simp add: drop_session_fields(1) [OF r])
qed

lemma reap_voice:
  "same_voice (ap_store app) (ap_store (reap ser app)) \<and> s_inbound (ap_store (reap ser app) a) = s_inbound (ap_store app a)"
proof -
  have "same_voice (ap_store app) (ap_store (fold (drop_session ser) ids app)) \<and>
      s_inbound (ap_store (fold (drop_session ser) ids app) a) = s_inbound (ap_store app a)" for ids
  proof (induction ids arbitrary: app)
    case (Cons i ids)
    have "same_voice (ap_store app) (ap_store (drop_session ser i app))" using drop_session_voice by blast
    then show ?case using Cons.IH [of "drop_session ser i app"] drop_session_voice [of app ser i a] same_voice_trans by fastforce
  qed (simp add: same_voice_refl)
  then show ?thesis by (simp add: reap_def)
qed

lemma drain_members_voice: "same_voice st (drain_members c ms st)"
proof (induction ms arbitrary: st)
  case (Cons m ms)
  have "same_voice st (st(m := fst (drain_member c (st m))))" by (simp add: same_voice_def same_ids_def drain_member_spec)
  then show ?case
    using Cons.IH [of "st(m := fst (drain_member c (st m)))"] unfolding drain_members_def foldl.simps by (rule same_voice_trans)
qed (simp add: drain_members_def same_voice_refl)

lemma serve_rooms_voice: "same_voice (ap_store app) (ap_store (fst (serve_rooms c keys app)))"
proof (induction keys arbitrary: app)
  case (Cons r keys)
  let ?app = "app\<lparr>ap_store := drain_members c (reg_members (ap_sessions app) r) (ap_store app)\<rparr>"
  have "same_voice (ap_store app) (ap_store ?app)" by (simp add: drain_members_voice)
  then show ?case using Cons.IH [of app] Cons.IH [of ?app] same_voice_trans by (simp add: Let_def split_beta)
qed (simp add: same_voice_refl)

lemma same_voice_contribution:
  assumes "same_voice st st'" shows "contribution_of L (st' l) (st' s) f = contribution_of L (st l) (st s) f"
  using assms by (simp add: same_voice_def same_ids_def contribution_of_def peer_gain_def Let_def split: option.split)

lemma drop_session_endpoint:
  "k \<noteq> sid \<Longrightarrow> app_endpoint k (drop_session ser sid app) = app_endpoint k app"
proof -
  obtain st reg gone where r: "reg_remove sid (ap_store app, ap_sessions app) = ((st, reg), gone)" by (metis surj_pair)
  show "k \<noteq> sid \<Longrightarrow> ?thesis" by (simp add: app_endpoint_def drop_session_fields(3) [OF r] hm_simps)
qed

lemma reap_endpoint: "k \<notin> set (dead_sessions app) \<Longrightarrow> app_endpoint k (reap ser app) = app_endpoint k app"
proof -
  have "k \<notin> set ids \<Longrightarrow> app_endpoint k (fold (drop_session ser) ids app) = app_endpoint k app" for ids
    by (induction ids arbitrary: app) (simp_all add: drop_session_endpoint)
  then show "k \<notin> set (dead_sessions app) \<Longrightarrow> ?thesis" by (simp add: reap_def)
qed

text \<open>What a tick leaves of a session that is not marked closed.\<close>

lemma tick_keeps:
  assumes "app_ok app" "mx_inflight mx = 0" "mixer_tick c ser now (app, mx) = ((app', mx'), jobs, w)"
  shows "same_voice (ap_store app) (ap_store app')" "ap_sessions app' = ap_sessions (reap ser app)"
    "k \<notin> set (dead_sessions app) \<Longrightarrow> app_endpoint k app' = app_endpoint k app"
proof -
  let ?r = "reap ser app" and ?keys = "reg_rooms (ap_sessions (reap ser app))"
  have app': "app' = fst (serve_rooms c ?keys ?r)"
    using assms(2,3) unfolding mixer_tick_def by (auto simp: Let_def split_beta)
  have v: "same_voice (ap_store app) (ap_store ?r)" using reap_voice by blast
  show "same_voice (ap_store app) (ap_store app')"
    unfolding app' using v serve_rooms_voice by (rule same_voice_trans)
  note sv = serve_rooms_ok [OF reap_ok [OF assms(1)], where c = c and keys = ?keys]
  show "ap_sessions app' = ap_sessions ?r" using sv by (simp add: app')
  show "k \<notin> set (dead_sessions app) \<Longrightarrow> app_endpoint k app' = app_endpoint k app"
    using sv reap_endpoint [of k app ser] by (simp add: app' app_endpoint_def)
qed

text \<open>What the tick leaves for the task of the two.\<close>

lemma tick_prepares:
  assumes r: "reachable app" and t: "mx_inflight mx = 0" "mixer_tick c ser now (app, mx) = ((app1, mx1), jobs, w)"
    and l: "hm_get (by_session (ap_sessions app)) lid = Some l" "\<not> s_closed (ap_store app l)"
    and s: "hm_get (by_session (ap_sessions app)) sid = Some s" "\<not> s_closed (ap_store app s)"
    and room: "s_room (ap_store app s) = s_room (ap_store app l)" "lid \<noteq> sid"
  shows "\<exists>ms. ms \<in> set jobs \<and> l \<in> set ms \<and> s \<in> set ms \<and> distinct ms \<and> (\<forall>m \<in> set ms. live (ap_sessions app1) m) \<and>
    reachable app1 \<and> s_id (ap_store app1 l) = lid \<and> same_voice (ap_store app) (ap_store app1) \<and>
    s_inbound (ap_store app1 s) = s_inbound (ap_store app s) \<and> app_endpoint lid app1 = app_endpoint lid app"
proof -
  have ok: "app_ok app" using r by (rule reachable_ok)
  have ro: "reg_ok (ap_store app) (ap_sessions app)" using ok by (simp add: app_ok_def)
  note tk = tick_keeps [OF ok t]
  have ids: "s_id (ap_store app1 a) = s_id (ap_store app a)" "s_room (ap_store app1 a) = s_room (ap_store app a)" for a
    using tk(1) by (simp_all add: same_voice_def same_ids_def)
  have lid: "s_id (ap_store app l) = lid" "s_id (ap_store app s) = sid" using reg_okD(3) [OF ro] l(1) s(1) by auto
  then have ls: "l \<noteq> s" using room(2) by auto
  have g1: "hm_get (by_session (ap_sessions app1)) lid = Some l" "hm_get (by_session (ap_sessions app1)) sid = Some s"
    using l s by (simp_all add: tk(2) reap_keeps [OF ok])
  have r1: "reachable app1" using r t(2) by (rule reachable.tick)
  have ok1: "app_ok app1" using r1 by (rule reachable_ok)
  then have ro1: "reg_ok (ap_store app1) (ap_sessions app1)" by (simp add: app_ok_def)
  let ?ms = "reg_members (ap_sessions app1) (s_room (ap_store app l))"
  have mem: "set ?ms = {a. live (ap_sessions app1) a \<and> s_room (ap_store app1 a) = s_room (ap_store app l)}" by (rule members_set [OF ro1])
  have lm: "l \<in> set ?ms" "s \<in> set ?ms" using g1 room by (auto simp: mem live_def ids)
  have d: "distinct ?ms" by (rule members_distinct [OF ro1])
  have "card {l, s} \<le> card (set ?ms)" using lm by (intro card_mono) auto
  then have two: "2 \<le> length ?ms" using ls d by (simp add: distinct_card)
  have ts: "set jobs = {ms. \<exists>r. ms = reg_members (ap_sessions app1) r \<and> 2 \<le> length ms}"
    "\<And>a. live (ap_sessions app1) a \<Longrightarrow> a \<in> set (concat jobs) \<Longrightarrow> s_inbound (ap_store app1 a) = s_inbound (ap_store (reap ser app) a)"
    using tick_spec [OF r t(2)] t(1) by simp_all
  have job: "?ms \<in> set jobs" using ts(1) two by blast
  have "live (ap_sessions app1) s" "s \<in> set (concat jobs)" using lm(2) mem job by auto
  then have "s_inbound (ap_store app1 s) = s_inbound (ap_store (reap ser app) s)" by (rule ts(2))
  then have inb: "s_inbound (ap_store app1 s) = s_inbound (ap_store app s)" using reap_voice [of app ser s] by simp
  have "lid \<notin> set (dead_sessions app)" using l by (simp add: dead_sessions_iff [OF ok])
  then have "app_endpoint lid app1 = app_endpoint lid app" using tk(3) by simp
  moreover have "s_id (ap_store app1 l) = lid" using ids lid by simp
  moreover have "\<forall>m \<in> set ?ms. live (ap_sessions app1) m" by (simp add: mem)
  ultimately show ?thesis by (intro exI [of _ ?ms] conjI job lm d r1 tk(1) inb)
qed

text \<open>The packets among the effects are those of the packets for a target.\<close>

lemma packets_of_target:
  "filter (\<lambda>x. (case x of SendPacket k _ \<Rightarrow> k = sid | _ \<Rightarrow> False)) new =
     filter (\<lambda>x. (case x of SendPacket k _ \<Rightarrow> k = sid | _ \<Rightarrow> False)) (filter (\<lambda>e. target e = sid) new)"
  unfolding filter_filter by (intro filter_cong) (auto split: effect.split)

text \<open>C8. A voice gets through. Let two sessions that are not closed be registered in one room, with the
  listener hearing the speaker (\<open>who_is_heard\<close>), a frame \<open>f\<close> at the head of the speaker's jitter buffer,
  the listener's data channel open and an encoder that does not fail. Then the next tick that is not
  skipped spawns a task with both, and that task completes by sending the listener one packet, at its
  RTP timestamp, which encodes a mix in which \<open>f\<close> is summed with the gain and the pan computed for the
  two, whoever else is in the room.\<close>

theorem voice_gets_through:
  assumes r: "reachable app" and t: "mx_inflight mx = 0" "mixer_tick c ser now (app, mx) = ((app1, mx1), jobs, w)"
    and l: "hm_get (by_session (ap_sessions app)) lid = Some l" "\<not> s_closed (ap_store app l)"
    and s: "hm_get (by_session (ap_sessions app)) sid = Some s" "\<not> s_closed (ap_store app s)"
    and room: "s_room (ap_store app s) = s_room (ap_store app l)" "lid \<noteq> sid"
    and f: "s_inbound (ap_store app s) = f # q"
    and h: "contribution_of L (ap_store app l) (ap_store app s) (Some f) = Some con"
    and e: "app_endpoint lid app = Some ep" "ep_dc ep = Some dc" "\<And>mix. \<exists>buf. snd (enc (ep_encoder ep) mix) = Inr buf"
  shows "\<exists>members app2 mx2 cs mix buf. members \<in> set jobs \<and> l \<in> set members \<and> s \<in> set members \<and>
    room_task L c ser enc wr members (app1, mx1) = Some (app2, mx2) \<and>
    mix_stereo L cs (replicate (FRAME_SAMPLES * 2) (Fin 0)) = Some mix \<and> con \<in> set cs \<and> c_frame con = f \<and>
    snd (enc (ep_encoder ep) mix) = Inr buf \<and>
    (\<exists>new. ap_trace app2 = ap_trace app1 @ new \<and>
       filter (\<lambda>x. (case x of SendPacket k _ \<Rightarrow> k = lid | _ \<Rightarrow> False)) new =
         [SendPacket lid \<lparr>pk_ssrc = ep_out_ssrc ep, pk_pt = ep_out_pt ep, pk_timestamp = ep_packet_timestamp ep,
            pk_duration_ms = 20, pk_data = buf\<rparr>])"
proof -
  obtain ms where ms: "ms \<in> set jobs" "l \<in> set ms" "s \<in> set ms" "distinct ms" "\<forall>m \<in> set ms. live (ap_sessions app1) m"
    and r1: "reachable app1" and lid: "s_id (ap_store app1 l) = lid" and sv: "same_voice (ap_store app) (ap_store app1)"
    and inb: "s_inbound (ap_store app1 s) = s_inbound (ap_store app s)" and ep1: "app_endpoint lid app1 = app_endpoint lid app"
    using tick_prepares [OF r t l s room] by blast
  have con1: "contribution_of L (ap_store app1 l) (ap_store app1 s) (Some f) = Some con" using same_voice_contribution [OF sv] h by simp
  note mr = mix_room_spec [OF ms(4), of L c ser "ap_store app1"]
  obtain app2 mx2 where task: "room_task L c ser enc wr ms (app1, mx1) = Some (app2, mx2)" using mr by (auto simp: room_task_def)
  obtain st outs logs new where o: "mix_room L c ser ms (ap_store app1) = Some (st, outs, logs)" "map o_session outs = ms"
    "ap_trace app2 = ap_trace app1 @ new"
    "\<forall>out \<in> set outs. filter (\<lambda>e. target e = s_id (ap_store app1 (o_session out))) new = sent enc app1 out"
    using independent_spec [OF r1 ms(4,5) task] by blast
  obtain out where out: "out \<in> set outs" "o_session out = l" using o(2) ms(2) by (metis imageE list.set_map)
  let ?cs = "contributions_for L (ap_store app1) l (pulled (ap_store app1) ms)"
  have mix: "mix_stereo L ?cs (replicate (FRAME_SAMPLES * 2) (Fin 0)) = Some (o_stereo out)"
    using mr o(1) out by (auto simp: stereo_of_def)
  have cin: "con \<in> set ?cs"
    using ms(3) con1 inb f by (auto simp: contributions_for_def set_map_filter pulled_def take_frame_def intro!: bexI [of _ s])
  have cf: "c_frame con = f" using con1 by (auto simp: contribution_of_def Let_def split: if_splits)
  obtain buf where buf: "snd (enc (ep_encoder ep) (o_stereo out)) = Inr buf" using e(3) by blast
  have sent: "sent enc app1 out = (case o_roster out of None \<Rightarrow> [] | Some text \<Rightarrow> [SendText lid dc text]) @
      [SendPacket lid \<lparr>pk_ssrc = ep_out_ssrc ep, pk_pt = ep_out_pt ep, pk_timestamp = ep_packet_timestamp ep,
            pk_duration_ms = 20, pk_data = buf\<rparr>]"
    by (simp add: sent_def out(2) lid ep1 e(1,2) buf)
  have "filter (\<lambda>e. target e = lid) new = sent enc app1 out" using o(4) [rule_format, OF out(1)] by (simp add: out(2) lid)
  then have "filter (\<lambda>x. (case x of SendPacket k _ \<Rightarrow> k = lid | _ \<Rightarrow> False)) new =
     [SendPacket lid \<lparr>pk_ssrc = ep_out_ssrc ep, pk_pt = ep_out_pt ep, pk_timestamp = ep_packet_timestamp ep,
            pk_duration_ms = 20, pk_data = buf\<rparr>]"
    unfolding packets_of_target [of lid new] by (simp add: sent split: option.split)
  with o(3) have "\<exists>new. ap_trace app2 = ap_trace app1 @ new \<and> filter (\<lambda>x. (case x of SendPacket k _ \<Rightarrow> k = lid | _ \<Rightarrow> False)) new =
     [SendPacket lid \<lparr>pk_ssrc = ep_out_ssrc ep, pk_pt = ep_out_pt ep, pk_timestamp = ep_packet_timestamp ep,
            pk_duration_ms = 20, pk_data = buf\<rparr>]" by (intro exI [of _ new] conjI)
  then show ?thesis
    by (intro exI [of _ ms] exI [of _ app2] exI [of _ mx2] exI [of _ ?cs] exI [of _ "o_stereo out"] exI [of _ buf] conjI
      ms(1-3) task mix cin cf buf)
qed

text \<open>A group call of two, from start-up, as a run of the model.\<close>

definition group_params :: "string \<Rightarrow> rpc_params" where
  "group_params user =
     \<lparr>rp_request = JObj [(''channel'', JStr ''c''), (''channel_type'', JStr ''multiagent''),
        (''jsep'', JObj [(''sdp'', JStr ''v=0''), (''type'', JStr ''offer'')])], rp_user_id = user, rp_scene = ''region''\<rparr>"

lemma group_join:
  assumes "reachable (app :: unit app)" "fresh uuid app" "session_count (ap_sessions app) < 900" "user \<noteq> ''''"
  shows "\<exists>(app' :: unit app) ep. reachable app' \<and>
    ap_store app' = (ap_store app)(ap_next app := Session_new (''wv-'' @ uuid) user (Channel ''c'') False) \<and> ap_next app' = ap_next app + 1 \<and>
    (\<forall>k. hm_get (by_session (ap_sessions app')) k = (if k = ''wv-'' @ uuid then Some (ap_next app) else hm_get (by_session (ap_sessions app)) k)) \<and>
    app_endpoint (''wv-'' @ uuid) app' = Some ep \<and> session_count (ap_sessions app') = Suc (session_count (ap_sessions app))"
proof -
  have ok: "app_ok app" using assms(1) by (rule reachable_ok)
  then have po: "ports_ok (ap_ports app)" by (simp add: app_ok_def)
  let ?params = "group_params user" and ?room = "Channel ''c''"
  obtain v app' where c: "connect working_rtc uuid ?params ?room False ''v=0'' app = Some (Inr v, app')"
    using working_connects [OF po] by blast
  have p: "provision_parse (\<lambda>s. s) (rp_request ?params) =
      Inr \<lparr>pr_logout = False, pr_viewer_session = None, pr_offer_sdp = Some ''v=0'', pr_channel_type = Some MultiAgent,
           pr_parcel_local_id = 0, pr_channel = Some ''c''\<rparr>"
    by (simp add: group_params_def provision_parse_def jget_str_def channel_type_parse_def)
  have u: "rp_user_id ?params = user" by (simp add: group_params_def)
  have "provision (\<lambda>s. s) (\<lambda>_. ''{}'') working_rtc uuid ?params app = Some (Inr v, app')"
    unfolding provision_def p using c assms(3,4) by (simp add: Let_def MAX_SESSIONS_def room_for_def u)
  then have "rpc_response (\<lambda>s. s) (\<lambda>_. ''{}'') (\<lambda>_. Inr \<lparr>rq_id = JNull, rq_method = METHOD_PROVISION, rq_params = ?params\<rparr>)
      working_rtc uuid ''x'' app = Some (json_200 (rpc_ok JNull v), app')"
    by (simp add: rpc_response_def rpc_dispatch_def)
  then have r: "reachable app'" by (rule reachable.rpc [OF assms(1,2)])
  from c show ?thesis
  proof (cases rule: connect_cases)
    case (ok ep sdp port pool k)
    have sid: "s_id (Session_new i user (Channel ''c'') False) = i" for i by (simp add: Session_new_def)
    have "hm_ok (by_session (ap_sessions app))" using \<open>app_ok app\<close> by (simp add: app_ok_def reg_ok_def)
    then have "session_count (ap_sessions app') = Suc (session_count (ap_sessions app))"
      using assms(2) hm.len_put [of "by_session (ap_sessions app)" "''wv-'' @ uuid" "ap_next app"]
      by (simp add: ok(5) u sid session_count_def reg_insert_def insert_session_def insert_room_def Let_def fresh_def)
    moreover have "hm_get (by_session (ap_sessions app')) k = (if k = ''wv-'' @ uuid then Some (ap_next app) else hm_get (by_session (ap_sessions app)) k)" for k
      by (simp add: ok(5) by_session_insert u sid)
    moreover have "app_endpoint (''wv-'' @ uuid) app' = Some ep" by (simp add: ok(5) app_endpoint_def hm_simps)
    moreover have "ap_store app' = (ap_store app)(ap_next app := Session_new (''wv-'' @ uuid) user (Channel ''c'') False)"
      "ap_next app' = ap_next app + 1" by (simp_all add: ok(5) u)
    ultimately show ?thesis using r by blast
  qed simp
qed

text \<open>The call itself: alice has opened her data channel, bob has a frame waiting.\<close>

lemma call_of_two:
  "\<exists>(app :: unit app) ep con. reachable app \<and> hm_get (by_session (ap_sessions app)) ''wv-1'' = Some 0 \<and>
     hm_get (by_session (ap_sessions app)) ''wv-2'' = Some 1 \<and> (\<forall>c. live (ap_sessions app) c \<longrightarrow> c = 0 \<or> c = 1) \<and> fresh ''3'' app \<and>
     s_agent_id (ap_store app 0) = ''alice'' \<and> s_agent_id (ap_store app 1) = ''bob'' \<and>
     \<not> s_closed (ap_store app 0) \<and> \<not> s_closed (ap_store app 1) \<and>
     s_room (ap_store app 1) = s_room (ap_store app 0) \<and> s_inbound (ap_store app 1) = [[Fin 0]] \<and>
     contribution_of exact_libm (ap_store app 0) (ap_store app 1) (Some [Fin 0]) = Some con \<and>
     app_endpoint ''wv-1'' app = Some ep \<and> ep_dc ep = Some 7 \<and> s_announced (ap_store app 0) = {}"
proof -
  let ?app0 = "app_new ''203.0.113.10'' :: unit app" and ?f = "[Fin 0]"
  have z: "session_count (ap_sessions ?app0) = 0" "ap_next ?app0 = 0" "\<And>k. hm_get (by_session (ap_sessions ?app0)) k = None"
    by (simp_all add: session_count_def app_new_def registry_default_def hm_len_0_iff [THEN iffD2] hm_simps)
  have "fresh ''1'' ?app0" by (simp add: fresh_def z)
  from group_join [OF reachable.start this, of "''alice''"] z obtain app1 :: "unit app" and ep where a1: "reachable app1"
    "ap_store app1 = (ap_store ?app0)(0 := Session_new ''wv-1'' ''alice'' (Channel ''c'') False)" "ap_next app1 = 1"
    "\<And>k. hm_get (by_session (ap_sessions app1)) k = (if k = ''wv-1'' then Some 0 else None)"
    "app_endpoint ''wv-1'' app1 = Some ep" "session_count (ap_sessions app1) = 1" by (auto simp: z)
  have "fresh ''2'' app1" by (simp add: fresh_def a1(4))
  from group_join [OF a1(1) this, of "''bob''"] a1 obtain app2 :: "unit app" where a2: "reachable app2"
    "ap_store app2 = (ap_store app1)(1 := Session_new ''wv-2'' ''bob'' (Channel ''c'') False)"
    "\<And>k. hm_get (by_session (ap_sessions app2)) k = (if k = ''wv-2'' then Some 1 else if k = ''wv-1'' then Some 0 else None)" by auto
  have ok2: "app_ok app2" using a2(1) by (rule reachable_ok)
  then have "map_option ep_session (app_endpoint ''wv-1'' app2) = Some 0" by (simp add: app_ok_def a2(3))
  then obtain ep2 where e2: "app_endpoint ''wv-1'' app2 = Some ep2" by auto
  define app3 where "app3 = app2\<lparr>ap_endpoints := hm_insert ''wv-1'' (ep2\<lparr>ep_dc := Some 7\<rparr>) (ap_endpoints app2), ap_trace := ap_trace app2\<rparr>"
  have a3: "reachable app3" unfolding app3_def using a2(1) e2 by (rule reachable.channel)
  define app4 where "app4 = app3\<lparr>ap_store := (ap_store app3)(1 := push_frame ?f (ap_store app3 1))\<rparr>"
  have a4: "reachable app4" unfolding app4_def using a3 by (rule reachable.audio)
  have st: "ap_store app4 0 = Session_new ''wv-1'' ''alice'' (Channel ''c'') False"
    "ap_store app4 1 = push_frame ?f (Session_new ''wv-2'' ''bob'' (Channel ''c'') False)"
    "ap_sessions app4 = ap_sessions app2"
    by (simp_all add: app4_def app3_def a2(2) a1(2))
  have fields: "hm_get (by_session (ap_sessions app4)) ''wv-1'' = Some 0" "hm_get (by_session (ap_sessions app4)) ''wv-2'' = Some 1"
    "\<not> s_closed (ap_store app4 0)" "\<not> s_closed (ap_store app4 1)" "s_room (ap_store app4 1) = s_room (ap_store app4 0)"
    "s_inbound (ap_store app4 1) = [[Fin 0]]"
    by (simp_all add: st(1,3) st(2) [unfolded One_nat_def] a2(3) push_frame_def Session_new_def JITTER_MAX_FRAMES_def)
  have con: "\<exists>con. contribution_of exact_libm (ap_store app4 0) (ap_store app4 1) (Some ?f) = Some con"
    by (simp add: st(1,3) st(2) [unfolded One_nat_def] push_frame_def Session_new_def contribution_of_def peer_gain_def hm_simps JITTER_MAX_FRAMES_def)
  then obtain con where con: "contribution_of exact_libm (ap_store app4 0) (ap_store app4 1) (Some ?f) = Some con" by blast
  have e4: "app_endpoint ''wv-1'' app4 = Some (ep2\<lparr>ep_dc := Some 7\<rparr>)"
    by (simp add: app4_def app3_def app_endpoint_def hm_simps)
  have lv: "live (ap_sessions app4) c \<Longrightarrow> c = 0 \<or> c = 1" for c by (auto simp: live_def st(3) a2(3) split: if_splits)
  have fr: "fresh ''3'' app4" by (simp add: fresh_def st(3) a2(3))
  have ag: "s_agent_id (ap_store app4 0) = ''alice''" "s_agent_id (ap_store app4 1) = ''bob''" "s_announced (ap_store app4 0) = {}"
    by (simp_all add: st(1) st(2) [unfolded One_nat_def] push_frame_def Session_new_def)
  have lv: "\<forall>c. live (ap_sessions app4) c \<longrightarrow> c = 0 \<or> c = 1" using lv by blast
  have e7: "ep_dc (ep2\<lparr>ep_dc := Some 7\<rparr>) = Some 7" by simp
  show ?thesis by (rule exI [of _ app4], rule exI [of _ "ep2\<lparr>ep_dc := Some 7\<rparr>"], rule exI [of _ con])
    (use lv in \<open>simp only: a4 fields con e4 e7 fr ag simp_thms\<close>)
qed

lemma voice_gets_through_witness:
  "\<exists>(app :: unit app) app1 mx1 jobs w members (app2 :: unit app) mx2 pk. reachable app \<and>
     mixer_tick logctl_init (\<lambda>_. ''{}'') 0 (app, \<lparr>mx_inflight = 0, mx_skipped = 0, mx_last_warned = 0\<rparr>) = ((app1, mx1), jobs, w) \<and>
     members \<in> set jobs \<and>
     room_task exact_libm logctl_init (\<lambda>_. ''{}'') (\<lambda>e _. (e, Inr [42])) (\<lambda>_. Inr ()) members (app1, mx1) = Some (app2, mx2) \<and>
     SendPacket ''wv-1'' pk \<in> set (ap_trace app2) \<and> pk_data pk = [42]"
proof -
  obtain app4 :: "unit app" and ep con where a4: "reachable app4"
    and fields: "hm_get (by_session (ap_sessions app4)) ''wv-1'' = Some 0" "hm_get (by_session (ap_sessions app4)) ''wv-2'' = Some 1"
      "\<not> s_closed (ap_store app4 0)" "\<not> s_closed (ap_store app4 1)" "s_room (ap_store app4 1) = s_room (ap_store app4 0)"
      "s_inbound (ap_store app4 1) = [[Fin 0]]"
    and con: "contribution_of exact_libm (ap_store app4 0) (ap_store app4 1) (Some [Fin 0]) = Some con"
    and e4: "app_endpoint ''wv-1'' app4 = Some ep" "ep_dc ep = Some 7" using call_of_two by blast
  obtain app5 mx5 jobs w where t: "mixer_tick logctl_init (\<lambda>_. ''{}'') 0 (app4, \<lparr>mx_inflight = 0, mx_skipped = 0, mx_last_warned = 0\<rparr>) =
      ((app5, mx5), jobs, w)" by (metis surj_pair)
  have "\<exists>members app6 mx2 cs mix buf. members \<in> set jobs \<and> 0 \<in> set members \<and> 1 \<in> set members \<and>
    room_task exact_libm logctl_init (\<lambda>_. ''{}'') (\<lambda>e _. (e, Inr [42])) (\<lambda>_. Inr ()) members (app5, mx5) = Some (app6, mx2) \<and>
    mix_stereo exact_libm cs (replicate (FRAME_SAMPLES * 2) (Fin 0)) = Some mix \<and> con \<in> set cs \<and> c_frame con = [Fin 0] \<and>
    snd ((\<lambda>e _. (e, Inr [42])) (ep_encoder ep) mix) = (Inr buf :: (string, u8 list) result) \<and>
    (\<exists>new. ap_trace app6 = ap_trace app5 @ new \<and>
       filter (\<lambda>x. (case x of SendPacket k _ \<Rightarrow> k = ''wv-1'' | _ \<Rightarrow> False)) new =
         [SendPacket ''wv-1'' \<lparr>pk_ssrc = ep_out_ssrc ep, pk_pt = ep_out_pt ep,
            pk_timestamp = ep_packet_timestamp ep, pk_duration_ms = 20, pk_data = buf\<rparr>])"
    by (rule voice_gets_through [OF a4 _ t, where lid = "''wv-1''" and sid = "''wv-2''" and l = 0 and s = 1 and q = "[]" and f = "[Fin 0]"
          and con = con and ep = ep and dc = 7])
      (use con e4 fields in simp_all)
  then obtain members and app6 :: "unit app" and mx2 new buf pk where m: "members \<in> set jobs" "ap_trace app6 = ap_trace app5 @ new"
      "room_task exact_libm logctl_init (\<lambda>_. ''{}'') (\<lambda>e _. (e, Inr [42])) (\<lambda>_. Inr ()) members (app5, mx5) = Some (app6, mx2)"
    and b: "buf = [42]" and f: "filter (\<lambda>x. (case x of SendPacket k _ \<Rightarrow> k = ''wv-1'' | _ \<Rightarrow> False)) new = [SendPacket ''wv-1'' pk]"
      "pk_data pk = buf" by fastforce
  have "SendPacket ''wv-1'' pk \<in> set (filter (\<lambda>x. (case x of SendPacket k _ \<Rightarrow> k = ''wv-1'' | _ \<Rightarrow> False)) new)" unfolding f(1) by simp
  then have "SendPacket ''wv-1'' pk \<in> set (ap_trace app6)" using m(2) by simp
  then show ?thesis using a4 t m(1,3) f(2) b by blast
qed

text \<open>The bookkeeping of the call: two registered sessions, each with its endpoint.\<close>

lemma service_invariant_witness:
  "\<exists>app :: unit app. \<exists>ep. hm_get (by_session (ap_sessions app)) ''wv-1'' = Some 0 \<and> hm_get (by_session (ap_sessions app)) ''wv-2'' = Some 1 \<and>
     app_endpoint ''wv-2'' app = Some ep \<and> ep_session ep = 1 \<and>
     {0, 1} \<subseteq> set (reg_members (ap_sessions app) (s_room (ap_store app 0))) \<and> session_count (ap_sessions app) \<le> 900"
proof -
  obtain app :: "unit app" where a: "reachable app" "hm_get (by_session (ap_sessions app)) ''wv-1'' = Some 0"
    "hm_get (by_session (ap_sessions app)) ''wv-2'' = Some 1" "s_room (ap_store app 1) = s_room (ap_store app 0)"
    using call_of_two by blast
  from service_invariant [OF a(1)] have i: "\<And>sid. map_option ep_session (app_endpoint sid app) = hm_get (by_session (ap_sessions app)) sid"
    "\<And>r. set (reg_members (ap_sessions app) r) = {a. live (ap_sessions app) a \<and> s_room (ap_store app a) = r}"
    "session_count (ap_sessions app) \<le> 900" by blast+
  obtain ep where "app_endpoint ''wv-2'' app = Some ep" "ep_session ep = 1" using i(1) [of "''wv-2''"] a(3) by auto
  moreover have "{0, 1} \<subseteq> set (reg_members (ap_sessions app) (s_room (ap_store app 0)))"
    using a(2-4) by (auto simp: i(2) live_def)
  ultimately show ?thesis using a(2,3) i(3) by blast
qed

end
