(* ===== verification/Wire.thy ===== *)
theory Wire
  imports Delivery
begin

text \<open>
  The types of what the service puts on the wire. A shape describes a JSON value; \<open>conforms\<close> is the typing
  judgement. The replies of the JSON-RPC front (\<open>src/src/main.rs\<close>, \<open>src/src/proto.rs\<close>) and the texts of the
  data channel (\<open>build_roster\<close> in \<open>src/src/room.rs\<close>, \<open>leave_json\<close>) have the shapes that the region and the
  viewers read.
\<close>

section \<open>Shapes\<close>

datatype shape =
    AnyShape
  | StrShape
  | SomeStr
  | ExactStr string
  | BoolShape
  | NatShape nat
  | Fields "(string \<times> bool \<times> shape) list"
  | Keyed shape

text \<open>A string, a non-empty one, or one in particular; a number up to a bound; an object. A field is required when
  its flag is set; a value has no other fields. \<open>Keyed\<close> is an object whose keys are data.\<close>

inductive conforms :: "json \<Rightarrow> shape \<Rightarrow> bool" where
  any: "conforms v AnyShape"
| str: "conforms (JStr s) StrShape"
| some_str: "s \<noteq> '''' \<Longrightarrow> conforms (JStr s) SomeStr"
| exact_str: "conforms (JStr s) (ExactStr s)"
| bool: "conforms (JBool b) BoolShape"
| nat: "unat n \<le> k \<Longrightarrow> conforms (JNum (PosInt n)) (NatShape k)"
| fields: "distinct (map fst m) \<Longrightarrow> (\<And>k v. (k, v) \<in> set m \<Longrightarrow> \<exists>req sh. (k, req, sh) \<in> set fs \<and> conforms v sh) \<Longrightarrow>
    (\<And>k sh. (k, True, sh) \<in> set fs \<Longrightarrow> k \<in> fst ` set m) \<Longrightarrow> conforms (JObj m) (Fields fs)"
| keyed: "distinct (map fst m) \<Longrightarrow> (\<And>k v. (k, v) \<in> set m \<Longrightarrow> conforms v sh) \<Longrightarrow> conforms (JObj m) (Keyed sh)"



inductive_cases conforms_strE [elim!]: "conforms v StrShape"
inductive_cases conforms_someE [elim!]: "conforms v SomeStr"
inductive_cases conforms_exactE [elim!]: "conforms v (ExactStr s)"
inductive_cases conforms_boolE [elim!]: "conforms v BoolShape"
inductive_cases conforms_natE [elim!]: "conforms v (NatShape k)"
inductive_cases conforms_fieldsE: "conforms v (Fields fs)"
inductive_cases conforms_keyedE: "conforms v (Keyed sh)"

definition roster_entry_shape :: shape where
  "roster_entry_shape = Fields [(''j'', False, Fields [(''p'', True, BoolShape)]), (''p'', True, NatShape 127),
     (''v'', True, BoolShape), (''m'', True, BoolShape)]"

definition roster_shape :: shape where
  "roster_shape = Keyed roster_entry_shape"

definition leave_shape :: shape where
  "leave_shape = Keyed (Fields [(''l'', True, BoolShape)])"

text \<open>The reply to a connection request: the viewer discards one without the session, or without a \<open>jsep\<close> of
  type "answer" with an SDP that is not empty. The other replies name the session only.\<close>

definition answer_shape :: shape where
  "answer_shape = Fields [(''viewer_session'', True, SomeStr),
     (''jsep'', True, Fields [(''type'', True, ExactStr ''answer''), (''sdp'', True, SomeStr)])]"

definition session_shape :: shape where
  "session_shape = Fields [(''viewer_session'', True, StrShape)]"

definition ok_shape :: "shape \<Rightarrow> shape" where
  "ok_shape sh = Fields [(''jsonrpc'', True, ExactStr ''2.0''), (''id'', True, AnyShape), (''result'', True, sh)]"

definition err_shape :: shape where
  "err_shape = Fields [(''jsonrpc'', True, ExactStr ''2.0''), (''id'', True, AnyShape), (''error'', True, StrShape)]"

definition wants_answer :: "(string \<Rightarrow> string) \<Rightarrow> rpc_request \<Rightarrow> bool" where
  "wants_answer dbg rq \<longleftrightarrow> rq_method rq = METHOD_PROVISION \<and>
     (\<exists>req. provision_parse dbg (rp_request (rq_params rq)) = Inr req \<and> \<not> pr_logout req)"

definition reply_shape :: "(string \<Rightarrow> string) \<Rightarrow> rpc_request \<Rightarrow> shape" where
  "reply_shape dbg rq = (if wants_answer dbg rq then answer_shape else session_shape)"

section \<open>Objects\<close>

lemma keys_bt_of_list: "fst ` set (bt_of_list kvs) = fst ` set kvs"
proof -
  have "fst ` set (foldl (\<lambda>m (k, v). bt_insert k v m) m kvs) = fst ` set m \<union> fst ` set kvs" for m
  proof (induction kvs arbitrary: m)
    case (Cons kv kvs)
    then show ?case by (cases kv) (simp add: set_bt_insert)
  qed simp
  then show ?thesis by (simp add: bt_of_list_def)
qed

lemma distinct_bt_of_list: "distinct (map fst (bt_of_list kvs))"
  using sorted_bt_of_list [of kvs] by (simp add: strict_sorted_iff)

lemma set_bt_of_list: "(k, v) \<in> set (bt_of_list kvs) \<Longrightarrow> (k, v) \<in> set kvs"
proof -
  assume "(k, v) \<in> set (bt_of_list kvs)"
  then have "map_of (bt_of_list kvs) k = Some v" using distinct_bt_of_list by (intro map_of_is_SomeI)
  then have "map_of (rev kvs) k = Some v" by (simp add: bt_of_list_def bt.get_put_all)
  then show ?thesis by (auto dest: map_of_SomeD)
qed

text \<open>Checking an object literal against its fields is a computation.\<close>

definition field_ok :: "(string \<times> bool \<times> shape) list \<Rightarrow> string \<times> json \<Rightarrow> bool" where
  "field_ok fs kv = (case map_of fs (fst kv) of None \<Rightarrow> False | Some f \<Rightarrow> conforms (snd kv) (snd f))"

lemma conforms_obj:
  assumes "list_all (field_ok fs) kvs" "list_all (\<lambda>f. fst (snd f) \<longrightarrow> fst f \<in> set (map fst kvs)) fs"
  shows "conforms (json_obj kvs) (Fields fs)"
  unfolding json_obj_def
proof (rule conforms.fields [OF distinct_bt_of_list])
  fix k v assume "(k, v) \<in> set (bt_of_list kvs)"
  then have "field_ok fs (k, v)" using assms(1) set_bt_of_list by (auto simp: list_all_iff)
  then obtain f where "map_of fs k = Some f" "conforms v (snd f)" by (auto simp: field_ok_def split: option.splits)
  then show "\<exists>req sh. (k, req, sh) \<in> set fs \<and> conforms v sh" by (cases f) (auto dest: map_of_SomeD)
next
  fix k sh assume "(k, True, sh) \<in> set fs"
  then show "k \<in> fst ` set (bt_of_list kvs)"     using bspec [OF assms(2) [unfolded list_all_iff], of "(k, True, sh)"] by (simp add: keys_bt_of_list)
qed

lemmas conforms_base [simp] = conforms.any conforms.str conforms.some_str conforms.exact_str conforms.bool conforms.nat

lemma conforms_map:
  assumes "\<And>k v. (k, v) \<in> set kvs \<Longrightarrow> conforms v sh"
  shows "conforms (json_obj kvs) (Keyed sh)"
  unfolding json_obj_def by (intro conforms.keyed distinct_bt_of_list assms) (rule set_bt_of_list)

section \<open>Replies\<close>

lemma conforms_ok: "conforms v sh \<Longrightarrow> conforms (rpc_ok i v) (ok_shape sh)"
  unfolding rpc_ok_def ok_shape_def by (rule conforms_obj) (simp_all add: field_ok_def)

lemma conforms_err: "conforms (rpc_err i e) err_shape"
  unfolding rpc_err_def err_shape_def by (rule conforms_obj) (simp_all add: field_ok_def)

lemma conforms_session: "conforms (json_obj [(''viewer_session'', JStr sid)]) session_shape"
  unfolding session_shape_def by (rule conforms_obj) (simp_all add: field_ok_def)

lemma conforms_answer:
  assumes "sdp \<noteq> ''''" shows "conforms (provision_answer (''wv-'' @ uuid) sdp) answer_shape"
proof -
  have "conforms (json_obj [(''type'', JStr ''answer''), (''sdp'', JStr sdp)]) (Fields [(''type'', True, ExactStr ''answer''), (''sdp'', True, SomeStr)])"
    using assms by (intro conforms_obj) (simp_all add: field_ok_def)
  then show ?thesis unfolding provision_answer_def answer_shape_def by (intro conforms_obj) (simp_all add: field_ok_def)
qed

lemma dispatch_conforms:
  assumes "rpc_dispatch dbg ser X uuid rq app = Some (Inr v, app')" "x_answer_sdp X \<noteq> Some ''''"
  shows "conforms v (reply_shape dbg rq)"
proof (cases "rq_method rq = METHOD_PROVISION")
  case True
  then have "provision dbg ser X uuid (rq_params rq) app = Some (Inr v, app')" using assms(1) by (simp add: rpc_dispatch_def)
  then show ?thesis
  proof (cases rule: provision_cases)
    case (connected req offer room spatial)
    then have "wants_answer dbg rq" using True by (simp add: wants_answer_def)
    moreover from connected(7) have "conforms v answer_shape"
    proof (cases rule: connect_cases)
      case (ok ep sdp port pool k)
      then have "sdp \<noteq> ''''" using assms(2) by (auto simp: answer_sdp_def)
      then show ?thesis using ok(1) conforms_answer [of sdp uuid] by simp
    qed simp
    ultimately show ?thesis by (simp add: reply_shape_def)
  next
    case (logout req sid)
    then have "\<not> wants_answer dbg rq" by (simp add: wants_answer_def)
    then show ?thesis using logout(4) by (simp add: reply_shape_def conforms_session)
  qed simp_all
next
  case False
  then have "\<not> wants_answer dbg rq" by (simp add: wants_answer_def)
  then show ?thesis
    using assms(1) False
    by (auto simp: reply_shape_def rpc_dispatch_def signaling_def Let_def conforms_session split: if_splits option.splits)
qed

lemma response_conforms:
  assumes "rpc_response dbg ser from_slice X uuid body app = Some (resp, app')" "x_answer_sdp X \<noteq> Some ''''"
  shows "\<exists>v. rs_body resp = Some v \<and>
    (conforms v err_shape \<or> (\<exists>rq. from_slice body = Inr rq \<and> conforms v (ok_shape (reply_shape dbg rq))))"
proof (cases "from_slice body")
  case (Inr rq)
  with assms(1) obtain r b where d: "rpc_dispatch dbg ser X uuid rq app = Some (r, b)"
    by (cases "rpc_dispatch dbg ser X uuid rq app") (auto simp: rpc_response_def)
  show ?thesis
  proof (cases r)
    case (Inr v)
    have "conforms v (reply_shape dbg rq)" using dispatch_conforms [of dbg ser X uuid rq app v b] d Inr assms(2) by simp
    then show ?thesis using assms(1) d Inr \<open>from_slice body = Inr rq\<close>
      by (auto simp: rpc_response_def json_200_def json_body_def conforms_ok)
  qed (use assms d Inr in \<open>auto simp: rpc_response_def json_200_def json_body_def conforms_err\<close>)
qed (use assms in \<open>auto simp: rpc_response_def json_200_def json_body_def conforms_err\<close>)

section \<open>Texts of the data channel\<close>

lemma conforms_leave: "conforms (leave_value agent) leave_shape"
proof -
  have "conforms (json_obj [(''l'', JBool True)]) (Fields [(''l'', True, BoolShape)])"
    by (rule conforms_obj) (simp_all add: field_ok_def)
  then show ?thesis unfolding leave_value_def leave_shape_def by (intro conforms_map) simp
qed

lemma conforms_entry: "unat (re_power e) \<le> 127 \<Longrightarrow> conforms (roster_entry_value e) roster_entry_shape"
proof -
  assume "unat (re_power e) \<le> 127"
  then have "unat (ucast (re_power e) :: u64) = unat (re_power e)" "unat (re_power e) \<le> 127" by (simp_all add: unat_ucast_mod)
  moreover have "conforms (json_obj [(''p'', JBool b)]) (Fields [(''p'', True, BoolShape)])" for b
    by (rule conforms_obj) (simp_all add: field_ok_def)
  ultimately show ?thesis
    unfolding roster_entry_value_def roster_entry_shape_def by (intro conforms_obj) (simp_all add: field_ok_def)
qed

lemma conforms_roster: "(\<And>k e. (k, e) \<in> set es \<Longrightarrow> unat (re_power e) \<le> 127) \<Longrightarrow> conforms (roster_value es) roster_shape"
  unfolding roster_value_def roster_shape_def by (rule conforms_map) (auto intro!: conforms_entry)

lemma entries_power:
  "(k, e) \<in> set (entries_spec told ss) \<Longrightarrow> re_power e \<in> (\<lambda>s. fst (snd s)) ` set ss"
  by (induction told ss rule: entries_spec.induct) (auto split: if_splits)

lemma frame_level_le: "unat (frame_level s) \<le> 127"
proof -
  have "unat (level_to_wire f) \<le> 127" for f
    by (cases "f = []") (simp add: level_to_wire_def, simp add: level_to_wire_meter meter_top)
  then show ?thesis by (simp add: frame_level_def split: list.split)
qed

text \<open>C11. Every text and every reply the service emits has the type its reader expects: each text a room task
  sends is a rendered roster (an object from agent ids to entries with exactly the fields \<open>p\<close> up to 127, \<open>v\<close>
  and \<open>m\<close>, and \<open>j\<close> on a join); each text a teardown sends is a leave notice; and each reply to a JSON-RPC
  request is an error with a message, or a success, never both, whose result for a connection request is a
  non-empty session and a \<open>jsep\<close> of type "answer" with a non-empty SDP, and for any other request the session.
  The last rests on the stack never returning an empty description (an SDP begins with its version line).\<close>

theorem wire_well_typed:
  assumes "reachable app" "x_answer_sdp X \<noteq> Some ''''"
  shows "(\<forall>members app' mx'. distinct members \<and> (\<forall>m \<in> set members. live (ap_sessions app) m) \<and>
       room_task L c ser enc wr members (app, mx) = Some (app', mx') \<longrightarrow>
       (\<exists>new. ap_trace app' = ap_trace app @ new \<and>
          (\<forall>k dc t. SendText k dc t \<in> set new \<longrightarrow> (\<exists>v. t = ser v \<and> conforms v roster_shape)))) \<and>
    (\<forall>sid. \<exists>new. ap_trace (drop_session ser sid app) = ap_trace app @ new \<and>
       (\<forall>k dc t. SendText k dc t \<in> set new \<longrightarrow> (\<exists>v. t = ser v \<and> conforms v leave_shape))) \<and>
    (\<forall>body resp app'. rpc_response dbg ser from_slice X uuid body app = Some (resp, app') \<longrightarrow>
       (\<exists>v. rs_body resp = Some v \<and>
          (conforms v err_shape \<or> (\<exists>rq. from_slice body = Inr rq \<and> conforms v (ok_shape (reply_shape dbg rq))))))"
proof (intro conjI allI impI)
  have ok: "app_ok app" using assms(1) by (rule reachable_ok)
  note spec = mix_room_spec [where L = L and c = c and ser = ser and st = "ap_store app"]
  fix members app' mx'
  assume h: "distinct members \<and> (\<forall>m \<in> set members. live (ap_sessions app) m) \<and>
       room_task L c ser enc wr members (app, mx) = Some (app', mx')"
  then obtain st outs logs new where o: "mix_room L c ser members (ap_store app) = Some (st, outs, logs)"
      "map o_session outs = members" "ap_trace app' = ap_trace app @ new"
    and each: "\<And>out. out \<in> set outs \<Longrightarrow> filter (\<lambda>e. target e = s_id (ap_store app (o_session out))) new = sent enc app out"
    and rest: "\<And>sid. sid \<notin> (\<lambda>m. s_id (ap_store app m)) ` set members \<Longrightarrow> filter (\<lambda>e. target e = sid) new = []"
    using independent_spec [OF assms(1), of members L c ser enc wr mx app' mx'] by (elim conjE) blast
  have "\<exists>v. t = ser v \<and> conforms v roster_shape" if s: "SendText k dc t \<in> set new" for k dc t
  proof -
    have f: "SendText k dc t \<in> set (filter (\<lambda>e. target e = k) new)" using s by simp
    then have "k \<in> (\<lambda>m. s_id (ap_store app m)) ` set members" using rest [of k] by (metis empty_iff empty_set)
    then obtain out where out: "out \<in> set outs" "k = s_id (ap_store app (o_session out))" using o(2) by auto
    have "SendText k dc t \<in> set (sent enc app out)" using f each [OF out(1)] out(2) by simp
    then have r: "o_roster out = Some t"
      by (auto simp: sent_def Let_def split: option.splits sum.splits)
    let ?es = "entries_spec (s_announced (ap_store app (o_session out)))
        (map (\<lambda>a. (s_agent_id (ap_store app a), frame_level (ap_store app a), s_primary (ap_store app a))) members)"
    have "o_roster out = (if ?es = [] then None else Some (roster_json ser ?es))"
      using spec [of members] h o(1) out(1) by (auto simp: roster_text_def)
    then have "t = ser (roster_value ?es)" using r by (simp add: roster_json_def split: if_splits)
    moreover have "unat (re_power e) \<le> 127" if "(k, e) \<in> set ?es" for k e
      using entries_power [OF that] frame_level_le by auto
    ultimately show ?thesis using conforms_roster by blast
  qed
  then show "\<exists>new. ap_trace app' = ap_trace app @ new \<and>
      (\<forall>k dc t. SendText k dc t \<in> set new \<longrightarrow> (\<exists>v. t = ser v \<and> conforms v roster_shape))" using o(3) by blast
next
  fix sid
  have ok: "app_ok app" using assms(1) by (rule reachable_ok)
  show "\<exists>new. ap_trace (drop_session ser sid app) = ap_trace app @ new \<and>
      (\<forall>k dc t. SendText k dc t \<in> set new \<longrightarrow> (\<exists>v. t = ser v \<and> conforms v leave_shape))"
  proof (cases "hm_get (by_session (ap_sessions app)) sid")
    case None
    then show ?thesis using drop_trace_spec [OF ok, of ser sid] by auto
  next
    case (Some a)
    show ?thesis unfolding drop_trace_spec [OF ok] Some option.case Let_def
      by (rule exI, rule conjI, rule refl) (auto simp: set_map_filter leave_json_def conforms_leave
        intro!: exI [of _ "leave_value (s_agent_id (ap_store app a))"] split: option.splits if_split_asm)
  qed
qed (rule response_conforms [OF _ assms(2)])

lemma wire_well_typed_witness:
  "\<exists>resp app' v. rpc_response (\<lambda>s. s) (\<lambda>_. ''{}'') (\<lambda>_. Inr \<lparr>rq_id = JNull, rq_method = METHOD_PROVISION, rq_params = offer_params\<rparr>)
       working_rtc ''1'' ''x'' (app_new ''203.0.113.10'') = Some (resp, app') \<and> rs_body resp = Some v \<and>
     (conforms v err_shape \<or> conforms v (ok_shape (reply_shape (\<lambda>s. s)
        \<lparr>rq_id = JNull, rq_method = METHOD_PROVISION, rq_params = offer_params\<rparr>)))"
proof -
  let ?app = "app_new ''203.0.113.10'' :: unit app" and ?ser = "\<lambda>_ :: json. ''{}''" and ?dbg = "\<lambda>s :: string. s"
  let ?fs = "\<lambda>_ :: string. Inr \<lparr>rq_id = JNull, rq_method = METHOD_PROVISION, rq_params = offer_params\<rparr> :: (string, rpc_request) result"
  have "20 * i \<le> x_elapsed working_rtc i" for i by (simp add: working_rtc_def)
  from provision_returns [OF app_new_ok this] obtain r app' where
    "provision ?dbg ?ser working_rtc ''1'' offer_params ?app = Some (r, app')" by blast
  then obtain resp where p: "rpc_response ?dbg ?ser ?fs working_rtc ''1'' ''x'' ?app = Some (resp, app')"
    by (cases r) (simp_all add: rpc_response_def rpc_dispatch_def)
  have sdp: "x_answer_sdp working_rtc \<noteq> Some ''''" by (simp add: working_rtc_def)
  note w = wire_well_typed [OF reachable.start sdp, THEN conjunct2, THEN conjunct2, rule_format, OF p]
  then obtain v where v: "rs_body resp = Some v"
    "conforms v err_shape \<or> (\<exists>rq. ?fs ''x'' = Inr rq \<and> conforms v (ok_shape (reply_shape ?dbg rq)))" by blast
  then show ?thesis using p by auto
qed

end
