(* ===== verification/Listener_Tasks.thy ===== *)
theory Listener_Tasks
  imports Delivery
begin

text \<open>
  The tasks \<open>mixer_loop\<close> (\<open>src/src/main.rs\<close>) spawns for the listeners of a room, as steps of a transition
  relation in which any unfinished task may move next. The theory shows that every run ends, in an outcome that
  does not depend on the schedule, and what becomes of a roster whose listener cannot receive it yet.
\<close>

section \<open>The spawned tasks\<close>

text \<open>
  The task of one listener, cut where it awaits and where \<open>send_mix\<close> releases a lock: looking up the endpoint
  and its channel, sending the roster, encoding, stamping, writing the packet. In the code the task keeps the
  endpoint it has looked up; here each step finds it in the map, where no step of these tasks removes it.
\<close>

datatype listener_task =
    TStart listener_output
  | TRoster listener_output
  | TEncode listener_output
  | TStamp listener_output "u8 list"
  | TWrite listener_output packet
  | TDone

fun task_step :: "'e encode \<Rightarrow> listener_task \<Rightarrow> 'e app \<Rightarrow> listener_task \<times> 'e app" where
  "task_step enc (TStart out) app =
     (case app_endpoint (s_id (ap_store app (o_session out))) app of
        None \<Rightarrow> (TDone, app)
      | Some ep \<Rightarrow> (if data_channel_open ep then TRoster out else TDone, app))"
| "task_step enc (TRoster out) app =
     (let sid = s_id (ap_store app (o_session out))
      in case Option.bind (app_endpoint sid app) (\<lambda>ep. Option.bind (o_roster out) (\<lambda>t. send_roster t ep)) of
           None \<Rightarrow> (TEncode out, app)
         | Some (dc, text) \<Rightarrow> (TEncode out, app\<lparr>ap_trace := ap_trace app @ [SendText sid dc text]\<rparr>))"
| "task_step enc (TEncode out) app =
     (let sid = s_id (ap_store app (o_session out))
      in case app_endpoint sid app of
           None \<Rightarrow> (TDone, app)
         | Some ep \<Rightarrow>
             (case enc (ep_encoder ep) (o_stereo out) of
                (e, r) \<Rightarrow> (case r of Inl _ \<Rightarrow> TDone | Inr buf \<Rightarrow> TStamp out buf,
                           app\<lparr>ap_endpoints := hm_insert sid (ep\<lparr>ep_encoder := e\<rparr>) (ap_endpoints app)\<rparr>)))"
| "task_step enc (TStamp out buf) app =
     (let sid = s_id (ap_store app (o_session out))
      in case app_endpoint sid app of
           None \<Rightarrow> (TDone, app)
         | Some ep \<Rightarrow>
             (TWrite out \<lparr>pk_ssrc = ep_out_ssrc ep, pk_pt = ep_out_pt ep, pk_timestamp = ep_packet_timestamp ep,
                         pk_duration_ms = 20, pk_data = buf\<rparr>,
              app\<lparr>ap_endpoints := hm_insert sid
                   (ep\<lparr>ep_packet_timestamp := ep_packet_timestamp ep + of_nat FRAME_SAMPLES\<rparr>) (ap_endpoints app)\<rparr>))"
| "task_step enc (TWrite out pk) app =
     (TDone, app\<lparr>ap_trace := ap_trace app @ [SendPacket (s_id (ap_store app (o_session out))) pk]\<rparr>)"
| "task_step enc TDone app = (TDone, app)"

inductive tasks_step :: "'e encode \<Rightarrow> listener_task list \<times> 'e app \<Rightarrow> listener_task list \<times> 'e app \<Rightarrow> bool"
  for enc :: "'e encode" where
  tasks_stepI: "i < length ts \<Longrightarrow> ts ! i \<noteq> TDone \<Longrightarrow> task_step enc (ts ! i) app = (t, app') \<Longrightarrow>
    tasks_step enc (ts, app) (ts[i := t], app')"

inductive_cases tasks_stepE: "tasks_step enc (ts, app) y"

text \<open>What a task has still to send, and what it has still to do to its endpoint.\<close>

definition pending_mix :: "'e encode \<Rightarrow> fp list \<Rightarrow> string \<Rightarrow> 'e endpoint option \<Rightarrow> effect list" where
  "pending_mix enc stereo sid eo = (case eo of None \<Rightarrow> [] | Some ep \<Rightarrow>
     (case snd (enc (ep_encoder ep) stereo) of
        Inl _ \<Rightarrow> []
      | Inr buf \<Rightarrow> [SendPacket sid \<lparr>pk_ssrc = ep_out_ssrc ep, pk_pt = ep_out_pt ep,
                      pk_timestamp = ep_packet_timestamp ep, pk_duration_ms = 20, pk_data = buf\<rparr>]))"

definition pending_roster :: "string option \<Rightarrow> string \<Rightarrow> 'e endpoint option \<Rightarrow> effect list" where
  "pending_roster roster sid eo =
     (case Option.bind eo ep_dc of None \<Rightarrow> [] | Some dc \<Rightarrow> (case roster of None \<Rightarrow> [] | Some text \<Rightarrow> [SendText sid dc text]))"

definition mixed :: "'e encode \<Rightarrow> fp list \<Rightarrow> 'e endpoint \<Rightarrow> 'e endpoint" where
  "mixed enc stereo ep =
     (case enc (ep_encoder ep) stereo of
        (e, Inl _) \<Rightarrow> ep\<lparr>ep_encoder := e\<rparr>
      | (e, Inr _) \<Rightarrow> ep\<lparr>ep_encoder := e, ep_packet_timestamp := ep_packet_timestamp ep + 960\<rparr>)"

fun pending :: "'e encode \<Rightarrow> string \<Rightarrow> listener_task \<Rightarrow> 'e endpoint option \<Rightarrow> effect list" where
  "pending enc sid (TStart out) eo =
     (if Option.bind eo ep_dc = None then [] else pending_roster (o_roster out) sid eo @ pending_mix enc (o_stereo out) sid eo)"
| "pending enc sid (TRoster out) eo = pending_roster (o_roster out) sid eo @ pending_mix enc (o_stereo out) sid eo"
| "pending enc sid (TEncode out) eo = pending_mix enc (o_stereo out) sid eo"
| "pending enc sid (TStamp out buf) eo = (case eo of None \<Rightarrow> [] | Some ep \<Rightarrow>
     [SendPacket sid \<lparr>pk_ssrc = ep_out_ssrc ep, pk_pt = ep_out_pt ep, pk_timestamp = ep_packet_timestamp ep,
        pk_duration_ms = 20, pk_data = buf\<rparr>])"
| "pending enc sid (TWrite out pk) eo = [SendPacket sid pk]"
| "pending enc sid TDone eo = []"

fun finish :: "'e encode \<Rightarrow> listener_task \<Rightarrow> 'e endpoint \<Rightarrow> 'e endpoint" where
  "finish enc (TStart out) ep = after_sending enc (o_stereo out) ep"
| "finish enc (TRoster out) ep = mixed enc (o_stereo out) ep"
| "finish enc (TEncode out) ep = mixed enc (o_stereo out) ep"
| "finish enc (TStamp out buf) ep = ep\<lparr>ep_packet_timestamp := ep_packet_timestamp ep + 960\<rparr>"
| "finish enc (TWrite out pk) ep = ep"
| "finish enc TDone ep = ep"

fun steps_left :: "listener_task \<Rightarrow> nat" where
  "steps_left (TStart out) = 5" | "steps_left (TRoster out) = 4" | "steps_left (TEncode out) = 3"
| "steps_left (TStamp out buf) = 2" | "steps_left (TWrite out pk) = 1" | "steps_left TDone = 0"

fun task_sid :: "'e app \<Rightarrow> listener_task \<Rightarrow> string option" where
  "task_sid app (TStart out) = Some (s_id (ap_store app (o_session out)))"
| "task_sid app (TRoster out) = Some (s_id (ap_store app (o_session out)))"
| "task_sid app (TEncode out) = Some (s_id (ap_store app (o_session out)))"
| "task_sid app (TStamp out buf) = Some (s_id (ap_store app (o_session out)))"
| "task_sid app (TWrite out pk) = Some (s_id (ap_store app (o_session out)))"
| "task_sid app TDone = None"

lemma app_endpoint_insert: "app_endpoint k (app\<lparr>ap_endpoints := hm_insert sid ep (ap_endpoints app)\<rparr>) =
    (if k = sid then Some ep else app_endpoint k app)"
  by (simp add: app_endpoint_def hm_simps)

lemma app_endpoint_trace: "app_endpoint k (app\<lparr>ap_trace := tr\<rparr>) = app_endpoint k app"
  by (simp add: app_endpoint_def)

text \<open>One step sends a beginning of what was pending, to its own listener, and touches its own endpoint only.\<close>

definition task_moves :: "'e encode \<Rightarrow> string \<Rightarrow> listener_task \<Rightarrow> 'e app \<Rightarrow> listener_task \<times> 'e app \<Rightarrow> bool" where
  "task_moves enc sid t app = (\<lambda>(t', app').
     ap_store app' = ap_store app \<and> ap_sessions app' = ap_sessions app \<and> task_sid app' t' \<in> {None, Some sid} \<and>
     (\<forall>k. k \<noteq> sid \<longrightarrow> app_endpoint k app' = app_endpoint k app) \<and>
     (\<exists>es. ap_trace app' = ap_trace app @ es \<and> (\<forall>e \<in> set es. target e = sid) \<and>
        es @ pending enc sid t' (app_endpoint sid app') = pending enc sid t (app_endpoint sid app)) \<and>
     map_option (finish enc t') (app_endpoint sid app') = map_option (finish enc t) (app_endpoint sid app) \<and>
     steps_left t' < steps_left t)"

lemma task_movesI:
  assumes "ap_store app' = ap_store app" "ap_sessions app' = ap_sessions app" "task_sid app' t' \<in> {None, Some sid}"
    "\<And>k. k \<noteq> sid \<Longrightarrow> app_endpoint k app' = app_endpoint k app"
    "ap_trace app' = ap_trace app @ es" "\<forall>e \<in> set es. target e = sid"
    "es @ pending enc sid t' (app_endpoint sid app') = pending enc sid t (app_endpoint sid app)"
    "map_option (finish enc t') (app_endpoint sid app') = map_option (finish enc t) (app_endpoint sid app)"
    "steps_left t' < steps_left t"
  shows "task_moves enc sid t app (t', app')"
  using assms by (auto simp: task_moves_def)

lemma finish_written: "finish enc (TWrite out pk) = (\<lambda>ep. ep)" "finish enc TDone = (\<lambda>ep. ep)"
  "finish enc (TRoster out) = mixed enc (o_stereo out)" "finish enc (TEncode out) = mixed enc (o_stereo out)"
  by (rule ext, simp)+

lemma start_moves:
  assumes "sid = s_id (ap_store app (o_session out))"
  shows "task_moves enc sid (TStart out) app (task_step enc (TStart out) app)"
proof (cases "app_endpoint sid app")
  case None
  then show ?thesis by (simp add: assms [symmetric]) (rule task_movesI [of _ _ _ _ "[]"], simp_all)
next
  case (Some ep)
  then show ?thesis
    by (cases "ep_dc ep"; simp add: assms [symmetric] data_channel_open_def)
      (rule task_movesI [of _ _ _ _ "[]"]; simp add: assms after_sending_def mixed_def)+
qed

lemma roster_moves:
  assumes "sid = s_id (ap_store app (o_session out))"
  shows "task_moves enc sid (TRoster out) app (task_step enc (TRoster out) app)"
proof (cases "Option.bind (app_endpoint sid app) (\<lambda>ep. Option.bind (o_roster out) (\<lambda>t. send_roster t ep))")
  case None
  then have "pending_roster (o_roster out) sid (app_endpoint sid app) = []"
    by (cases "app_endpoint sid app"; cases "o_roster out") (auto simp: pending_roster_def send_roster_def split: option.split)
  then show ?thesis using None by (simp add: Let_def assms [symmetric]) (rule task_movesI [of _ _ _ _ "[]"], simp_all add: assms finish_written)
next
  case (Some dt)
  obtain dc msg where dt: "dt = (dc, msg)" by (cases dt)
  have "pending_roster (o_roster out) sid (app_endpoint sid app) = [SendText sid dc msg]"
    using Some by (auto simp: pending_roster_def send_roster_def dt bind_eq_Some_conv)
  then show ?thesis using Some
    by (simp add: Let_def assms [symmetric] dt)
      (rule task_movesI [of _ _ _ _ "[SendText sid dc msg]"], simp_all add: assms app_endpoint_trace finish_written)
qed

lemma encode_moves:
  assumes "sid = s_id (ap_store app (o_session out))"
  shows "task_moves enc sid (TEncode out) app (task_step enc (TEncode out) app)"
proof (cases "app_endpoint sid app")
  case None
  then show ?thesis
    by (simp add: assms [symmetric] Let_def) (rule task_movesI [of _ _ _ _ "[]"], simp_all add: pending_mix_def)
next
  case (Some ep)
  obtain e r where r: "enc (ep_encoder ep) (o_stereo out) = (e, r)" by (metis surj_pair)
  show ?thesis using Some r
    by (cases r; simp add: assms [symmetric] Let_def)
      (rule task_movesI [of _ _ _ _ "[]"]; simp add: assms pending_mix_def mixed_def app_endpoint_insert)+
qed

lemma stamp_moves:
  assumes "sid = s_id (ap_store app (o_session out))"
  shows "task_moves enc sid (TStamp out buf) app (task_step enc (TStamp out buf) app)"
proof (cases "app_endpoint sid app")
  case None
  then show ?thesis by (simp add: assms [symmetric] Let_def) (rule task_movesI [of _ _ _ _ "[]"], simp_all)
next
  case (Some ep)
  then show ?thesis
    by (simp add: assms [symmetric] Let_def)
      (rule task_movesI [of _ _ _ _ "[]"]; simp add: assms app_endpoint_insert FRAME_SAMPLES_def)
qed

lemma write_moves:
  assumes "sid = s_id (ap_store app (o_session out))"
  shows "task_moves enc sid (TWrite out pk) app (task_step enc (TWrite out pk) app)"
  by (simp add: assms [symmetric]) (rule task_movesI [of _ _ _ _ "[SendPacket sid pk]"], simp_all add: app_endpoint_trace finish_written)

lemma task_step_moves:
  assumes "task_sid app t = Some sid" shows "task_moves enc sid t app (task_step enc t app)"
proof (cases t)
  case (TStart out) show ?thesis unfolding TStart by (rule start_moves) (use assms TStart in simp)
next
  case (TRoster out) show ?thesis unfolding TRoster by (rule roster_moves) (use assms TRoster in simp)
next
  case (TEncode out) show ?thesis unfolding TEncode by (rule encode_moves) (use assms TEncode in simp)
next
  case (TStamp out buf) show ?thesis unfolding TStamp by (rule stamp_moves) (use assms TStamp in simp)
next
  case (TWrite out pk) show ?thesis unfolding TWrite by (rule write_moves) (use assms TWrite in simp)
qed (use assms in simp)

lemma task_sid_store: "ap_store app' = ap_store app \<Longrightarrow> task_sid app' t = task_sid app t"
  by (cases t) simp_all

lemma task_sid_None: "task_sid app t = None \<longleftrightarrow> t = TDone"
  by (cases t) simp_all

text \<open>At every moment of every run: what each listener has been sent and what is pending for it make up what it
  is to be sent; its endpoint, once its task is finished, is the one that sending leaves; nobody else is touched.\<close>

definition tasks_inv :: "'e encode \<Rightarrow> (listener_output \<Rightarrow> string) \<Rightarrow> listener_output list \<Rightarrow> 'e app
    \<Rightarrow> listener_task list \<times> 'e app \<Rightarrow> bool" where
  "tasks_inv enc f outs app0 = (\<lambda>(ts, app). length ts = length outs \<and> ap_store app = ap_store app0 \<and>
     ap_sessions app = ap_sessions app0 \<and>
     (\<exists>new. ap_trace app = ap_trace app0 @ new \<and>
       (\<forall>i < length outs. task_sid app (ts ! i) \<in> {None, Some (f (outs ! i))} \<and>
          filter (\<lambda>e. target e = f (outs ! i)) new @ pending enc (f (outs ! i)) (ts ! i) (app_endpoint (f (outs ! i)) app)
            = sent enc app0 (outs ! i) \<and>
          map_option (finish enc (ts ! i)) (app_endpoint (f (outs ! i)) app) =
            map_option (after_sending enc (o_stereo (outs ! i))) (app_endpoint (f (outs ! i)) app0)) \<and>
       (\<forall>k. k \<notin> f ` set outs \<longrightarrow> filter (\<lambda>e. target e = k) new = [] \<and> app_endpoint k app = app_endpoint k app0)))"

lemma tasks_inv_start:
  assumes "\<And>out. f out = s_id (ap_store app (o_session out))"
  shows "tasks_inv enc f outs app (map TStart outs, app)"
proof -
  have "pending enc (f out) (TStart out) (app_endpoint (f out) app) = sent enc app out" for out
    by (auto simp: sent_def pending_roster_def pending_mix_def assms [symmetric] Let_def split: option.split)
  moreover have "finish enc (TStart out) = after_sending enc (o_stereo out)" for out by (rule ext) simp
  ultimately show ?thesis by (simp add: tasks_inv_def assms [symmetric] del: pending.simps)
qed

lemma tasks_inv_step:
  assumes "tasks_inv enc f outs app0 x" "tasks_step enc x y" "distinct (map f outs)"
  shows "tasks_inv enc f outs app0 y" "sum_list (map steps_left (fst y)) < sum_list (map steps_left (fst x))"
proof -
  obtain ts app where x: "x = (ts, app)" by (cases x)
  obtain i t app' where s: "i < length ts" "ts ! i \<noteq> TDone" "task_step enc (ts ! i) app = (t, app')" "y = (ts[i := t], app')"
    using assms(2) unfolding x by (elim tasks_stepE) blast
  let ?F = "\<lambda>i. f (outs ! i)"
  obtain new where new: "ap_trace app = ap_trace app0 @ new" and
    each: "\<And>j. j < length outs \<Longrightarrow> task_sid app (ts ! j) \<in> {None, Some (?F j)} \<and>
          filter (\<lambda>e. target e = ?F j) new @ pending enc (?F j) (ts ! j) (app_endpoint (?F j) app) = sent enc app0 (outs ! j) \<and>
          map_option (finish enc (ts ! j)) (app_endpoint (?F j) app) =
            map_option (after_sending enc (o_stereo (outs ! j))) (app_endpoint (?F j) app0)" and
    others: "\<And>k. k \<notin> f ` set outs \<Longrightarrow> filter (\<lambda>e. target e = k) new = [] \<and> app_endpoint k app = app_endpoint k app0"
    using assms(1) unfolding x tasks_inv_def by blast
  have len: "length ts = length outs" and st: "ap_store app = ap_store app0" "ap_sessions app = ap_sessions app0"
    using assms(1) by (simp_all add: x tasks_inv_def)
  have i: "i < length outs" using s(1) len by simp
  have "task_sid app (ts ! i) = Some (?F i)" using each [OF i] s(2) task_sid_None by auto
  note moves = task_step_moves [OF this, of enc, unfolded s(3) task_moves_def prod.case]
  obtain es where es: "ap_trace app' = ap_trace app @ es" "\<forall>e \<in> set es. target e = ?F i"
    "es @ pending enc (?F i) t (app_endpoint (?F i) app') = pending enc (?F i) (ts ! i) (app_endpoint (?F i) app)"
    using moves by blast
  have ne: "?F j \<noteq> ?F i" if "j < length outs" "j \<noteq> i" for j
    using assms(3) that i by (auto simp: distinct_conv_nth)
  have none: "filter (\<lambda>e. target e = k) es = []" if "k \<noteq> ?F i" for k using es(2) that by (auto simp: filter_empty_conv)
  have own: "filter (\<lambda>e. target e = ?F i) es = es" using es(2) by (simp add: filter_id_conv)
  have "task_sid app' (ts[i := t] ! j) \<in> {None, Some (?F j)} \<and>
      filter (\<lambda>e. target e = ?F j) (new @ es) @ pending enc (?F j) (ts[i := t] ! j) (app_endpoint (?F j) app') = sent enc app0 (outs ! j) \<and>
      map_option (finish enc (ts[i := t] ! j)) (app_endpoint (?F j) app') =
        map_option (after_sending enc (o_stereo (outs ! j))) (app_endpoint (?F j) app0)" if "j < length outs" for j
  proof (cases "j = i")
    case True
    then show ?thesis using moves es(3) own each [OF i] i len by simp
  next
    case False
    then have "app_endpoint (?F j) app' = app_endpoint (?F j) app" using moves ne that by blast
    moreover have "task_sid app' (ts ! j) = task_sid app (ts ! j)" using moves by (intro task_sid_store) blast
    ultimately show ?thesis using each [OF that] False none [OF ne [OF that False]] by simp
  qed
  moreover have "filter (\<lambda>e. target e = k) (new @ es) = [] \<and> app_endpoint k app' = app_endpoint k app0" if "k \<notin> f ` set outs" for k
  proof -
    have "k \<noteq> ?F i" using that i by auto
    then show ?thesis using others [OF that] none moves by simp
  qed
  ultimately show "tasks_inv enc f outs app0 y"
    using moves st len es(1) new by (simp add: tasks_inv_def s(4))
  have "steps_left t < steps_left (ts ! i)" using moves by blast
  moreover have "sum_list (map steps_left (ts[i := t])) + steps_left (ts ! i) = sum_list (map steps_left ts) + steps_left t"
    using s(1) elem_le_sum_list [of i "map steps_left ts"] by (simp add: map_update sum_list_update)
  ultimately show "sum_list (map steps_left (fst y)) < sum_list (map steps_left (fst x))" by (simp add: x s(4))
qed

lemma tasks_inv_runs:
  assumes "(tasks_step enc ^^ n) (map TStart outs, app) y" "\<And>out. f out = s_id (ap_store app (o_session out))" "distinct (map f outs)"
  shows "tasks_inv enc f outs app y \<and> n + sum_list (map steps_left (fst y)) \<le> 5 * length outs"
  using assms(1)
proof (induction n arbitrary: y)
  case 0
  have "sum_list (map steps_left (map TStart outs)) = 5 * length outs" by (induction outs) simp_all
  then show ?case using 0 tasks_inv_start [of f app enc outs, OF assms(2)] by auto
next
  case (Suc n)
  then obtain z where z: "(tasks_step enc ^^ n) (map TStart outs, app) z" "tasks_step enc z y" by auto
  then have i: "tasks_inv enc f outs app z" "n + sum_list (map steps_left (fst z)) \<le> 5 * length outs" using Suc.IH by blast+
  show ?case using tasks_inv_step [OF i(1) z(2) assms(3)] i(2) by simp
qed

lemma tasks_progress: "set ts \<subseteq> {TDone} \<or> (\<exists>y. tasks_step enc (ts, app) y)"
proof (rule disjCI)
  assume "\<nexists>y. tasks_step enc (ts, app) y"
  then have "ts ! i = TDone" if "i < length ts" for i using tasks_stepI [OF that _ prod.collapse [symmetric]] by blast
  then show "set ts \<subseteq> {TDone}" by (auto simp: in_set_conv_nth)
qed

text \<open>Two outcomes that no listener, and nothing in the service, can tell apart.\<close>

definition same_outcome :: "'e app \<Rightarrow> 'e app \<Rightarrow> bool" where
  "same_outcome a b \<longleftrightarrow> ap_store a = ap_store b \<and> ap_sessions a = ap_sessions b \<and>
     (\<forall>sid. app_endpoint sid a = app_endpoint sid b \<and>
       filter (\<lambda>e. target e = sid) (ap_trace a) = filter (\<lambda>e. target e = sid) (ap_trace b))"

lemma distinct_sids:
  assumes "reachable app" "distinct members" "\<forall>m \<in> set members. live (ap_sessions app) m"
  shows "distinct (map (\<lambda>m. s_id (ap_store app m)) members)"
proof -
  have ro: "reg_ok (ap_store app) (ap_sessions app)" using reachable_ok [OF assms(1)] by (simp add: app_ok_def)
  have "inj_on (\<lambda>m. s_id (ap_store app m)) (set members)"
  proof (rule inj_onI)
    fix x y assume "x \<in> set members" "y \<in> set members" and e: "s_id (ap_store app x) = s_id (ap_store app y)"
    then obtain k where k: "hm_get (by_session (ap_sessions app)) k = Some x" using assms(3) unfolding live_def by blast
    obtain k' where k': "hm_get (by_session (ap_sessions app)) k' = Some y" using assms(3) \<open>y \<in> set members\<close> unfolding live_def by blast
    then show "x = y" using e k reg_okD(3) [OF ro k] reg_okD(3) [OF ro k'] by simp
  qed
  then show ?thesis using assms(2) by (simp add: distinct_map)
qed

lemma fold_deliver_sessions: "ap_sessions (fold (deliver enc wr) outs app) = ap_sessions app"
  by (induction outs arbitrary: app) (simp_all add: deliver_parts(4) [OF refl])

lemma task_keeps_sessions:
  "room_task L c ser enc wr members (app, mx) = Some (app', mx') \<Longrightarrow> ap_sessions app' = ap_sessions app"
  by (auto simp: room_task_def fold_deliver_sessions)

lemma tasks_finished:
  assumes "tasks_inv enc f outs app (ts, app')" "set ts \<subseteq> {TDone}"
    "ap_store b = ap_store app" "ap_sessions b = ap_sessions app" "ap_trace b = ap_trace app @ newb"
    "\<And>out. out \<in> set outs \<Longrightarrow> filter (\<lambda>e. target e = f out) newb = sent enc app out \<and>
       app_endpoint (f out) b = map_option (after_sending enc (o_stereo out)) (app_endpoint (f out) app)"
    "\<And>k. k \<notin> f ` set outs \<Longrightarrow> filter (\<lambda>e. target e = k) newb = [] \<and> app_endpoint k b = app_endpoint k app"
  shows "same_outcome app' b"
proof -
  obtain new where new: "ap_trace app' = ap_trace app @ new" and
    each: "\<And>i. i < length outs \<Longrightarrow>
          filter (\<lambda>e. target e = f (outs ! i)) new @ pending enc (f (outs ! i)) (ts ! i) (app_endpoint (f (outs ! i)) app') = sent enc app (outs ! i) \<and>
          map_option (finish enc (ts ! i)) (app_endpoint (f (outs ! i)) app') =
            map_option (after_sending enc (o_stereo (outs ! i))) (app_endpoint (f (outs ! i)) app)" and
    others: "\<And>k. k \<notin> f ` set outs \<Longrightarrow> filter (\<lambda>e. target e = k) new = [] \<and> app_endpoint k app' = app_endpoint k app" and
    st: "ap_store app' = ap_store app" "ap_sessions app' = ap_sessions app" and len: "length ts = length outs"
    using assms(1) unfolding tasks_inv_def by blast
  have "app_endpoint k app' = app_endpoint k b \<and> filter (\<lambda>e. target e = k) new = filter (\<lambda>e. target e = k) newb" for k
  proof (cases "k \<in> f ` set outs")
    case True
    then obtain i where i: "i < length outs" "k = f (outs ! i)" by (auto simp: in_set_conv_nth)
    have "ts ! i = TDone" using assms(2) i(1) len by (metis nth_mem singletonD subsetD)
    moreover have "finish enc TDone = (\<lambda>ep. ep)" by (rule ext) simp
    ultimately show ?thesis using each [OF i(1)] assms(6) [of "outs ! i"] i by (simp add: option.map_ident)
  qed (use others assms(7) in simp)
  then show ?thesis using st assms(3-5) new by (simp add: same_outcome_def)
qed


text \<open>C9. The listeners of a room are served independently: for a task whose members are registered, each
  listener whose data channel is open is sent its own roster (when there is one to send) and then exactly
  one packet carrying the encoding of its own mix at its own RTP timestamp (none when the encoder fails);
  the others, and everyone outside the task, are sent nothing; and each endpoint ends as if it had been the
  only one served. This is the outcome of every schedule of the spawned tasks: however their steps interleave,
  a run has at most five steps a listener, can go on until all have ended, and then every session and endpoint
  is as after \<open>room_task\<close>, and every listener has been sent the same texts and packets in the same order.\<close>

theorem listeners_independent:
  assumes "reachable app" "distinct members" "\<forall>m \<in> set members. live (ap_sessions app) m"
    "room_task L c ser enc wr members (app, mx) = Some (app', mx')"
  shows "\<exists>st outs logs new. mix_room L c ser members (ap_store app) = Some (st, outs, logs) \<and> map o_session outs = members \<and>
    ap_store app' = st \<and> ap_trace app' = ap_trace app @ new \<and>
    (\<forall>out \<in> set outs. filter (\<lambda>e. target e = s_id (ap_store app (o_session out))) new = sent enc app out \<and>
       app_endpoint (s_id (ap_store app (o_session out))) app' =
         map_option (after_sending enc (o_stereo out)) (app_endpoint (s_id (ap_store app (o_session out))) app)) \<and>
    (\<forall>sid. sid \<notin> (\<lambda>m. s_id (ap_store app m)) ` set members \<longrightarrow>
       filter (\<lambda>e. target e = sid) new = [] \<and> app_endpoint sid app' = app_endpoint sid app) \<and>
    (\<forall>n ts app''. (tasks_step enc ^^ n) (map TStart outs, app\<lparr>ap_store := st\<rparr>) (ts, app'') \<longrightarrow>
       n \<le> 5 * length members \<and> (set ts \<subseteq> {TDone} \<or> (\<exists>y. tasks_step enc (ts, app'') y)) \<and>
       (set ts \<subseteq> {TDone} \<longrightarrow> same_outcome app'' app'))"
proof -
  let ?sid = "\<lambda>out. s_id (ap_store app (o_session out))"
  obtain st outs logs new where o: "mix_room L c ser members (ap_store app) = Some (st, outs, logs)" "map o_session outs = members"
    "ap_store app' = st" "ap_trace app' = ap_trace app @ new"
    "\<forall>out \<in> set outs. filter (\<lambda>e. target e = ?sid out) new = sent enc app out \<and>
       app_endpoint (?sid out) app' = map_option (after_sending enc (o_stereo out)) (app_endpoint (?sid out) app)"
    "\<forall>sid. sid \<notin> (\<lambda>m. s_id (ap_store app m)) ` set members \<longrightarrow>
       filter (\<lambda>e. target e = sid) new = [] \<and> app_endpoint sid app' = app_endpoint sid app"
    using independent_spec [OF assms] by blast
  let ?app = "app\<lparr>ap_store := st\<rparr>"
  have "same_view (ap_store app) st" using mix_room_spec [OF assms(2), of L c ser "ap_store app"] o(1) by auto
  then have ids: "s_id (st a) = s_id (ap_store app a)" for a by (simp add: same_view_def same_ids_def)
  have im: "?sid ` set outs = (\<lambda>m. s_id (ap_store app m)) ` set members" by (auto simp flip: o(2))
  have sent: "sent enc ?app out = sent enc app out" for out by (simp add: sent_def ids app_endpoint_def)
  have d: "distinct (map ?sid outs)" using distinct_sids [OF assms(1-3)] by (simp add: comp_def flip: o(2))
  have "ap_sessions app' = ap_sessions app" using task_keeps_sessions [OF assms(4)] .
  note fin = tasks_finished [of enc ?sid outs ?app, unfolded sent, where b = app' and newb = new]
  have "n \<le> 5 * length members \<and> (set ts \<subseteq> {TDone} \<or> (\<exists>y. tasks_step enc (ts, app'') y)) \<and>
       (set ts \<subseteq> {TDone} \<longrightarrow> same_outcome app'' app')"
    if "(tasks_step enc ^^ n) (map TStart outs, ?app) (ts, app'')" for n ts app''
  proof -
    have i: "tasks_inv enc ?sid outs ?app (ts, app'') \<and> n + sum_list (map steps_left ts) \<le> 5 * length outs"
      using tasks_inv_runs [OF that, of ?sid] d by (simp add: ids)
    have "length outs = length members" by (simp flip: o(2))
    moreover have "same_outcome app'' app'" if "set ts \<subseteq> {TDone}"
      using i that o(3-6) \<open>ap_sessions app' = ap_sessions app\<close>
      by (intro fin [of ts]) (auto simp: app_endpoint_def im)
    ultimately show ?thesis using i tasks_progress by auto
  qed
  then show ?thesis using o by blast
qed

lemma listeners_independent_witness:
  "\<exists>(app :: unit app) (app' :: unit app) mx' new out.
     room_task exact_libm logctl_init (\<lambda>_. ''{}'') (\<lambda>e _. (e, Inr [42])) (\<lambda>_. Inr ()) [0, 1]
       (app, \<lparr>mx_inflight = 1, mx_skipped = 0, mx_last_warned = 0\<rparr>) = Some (app', mx') \<and>
     ap_trace app' = ap_trace app @ new \<and> o_session out = 0 \<and>
     filter (\<lambda>e. target e = s_id (ap_store app 0)) new = sent (\<lambda>e _. (e, Inr [42] :: (string, u8 list) result)) app out"
proof -
  obtain app :: "unit app" where a: "reachable app" "hm_get (by_session (ap_sessions app)) ''wv-1'' = Some 0"
      "hm_get (by_session (ap_sessions app)) ''wv-2'' = Some 1" using call_of_two by blast
  let ?mx = "\<lparr>mx_inflight = 1, mx_skipped = 0, mx_last_warned = 0\<rparr>"
  have d: "distinct [0, 1 :: arc]" by simp
  have "live (ap_sessions app) 0" "live (ap_sessions app) 1" using a(2,3) by (auto simp: live_def)
  then have lv: "\<forall>m \<in> set [0, 1]. live (ap_sessions app) m" by simp
  obtain app' mx' where task: "room_task exact_libm logctl_init (\<lambda>_. ''{}'') (\<lambda>e _. (e, Inr [42])) (\<lambda>_. Inr ()) [0, 1] (app, ?mx) =
      Some (app', mx')"
    using mix_room_spec [OF d, of exact_libm logctl_init "\<lambda>_. ''{}''" "ap_store app"] by (auto simp: room_task_def)
  from listeners_independent [OF a(1) d lv task] obtain st outs new where o: "map o_session outs = [0, 1]" "ap_trace app' = ap_trace app @ new"
    and each: "\<forall>out \<in> set outs. filter (\<lambda>e. target e = s_id (ap_store app (o_session out))) new = sent (\<lambda>e _. (e, Inr [42])) app out \<and>
       app_endpoint (s_id (ap_store app (o_session out))) app' =
         map_option (after_sending (\<lambda>e _. (e, Inr [42])) (o_stereo out)) (app_endpoint (s_id (ap_store app (o_session out))) app)"
    by (elim exE conjE) (rule that)
  from o(1) obtain out rest where "outs = out # rest" "o_session out = 0" by auto
  then show ?thesis using task o(2) each by auto
qed

section \<open>A roster that cannot be sent\<close>

text \<open>C36. A join built before the listener can receive it is lost for good. The room task records a listener as
  told of every member while the roster is built, whether or not the roster can be sent: when the listener's
  data channel is not open yet, the task sends it nothing, and no later tick, with any members and whoever
  speaks, builds for it a roster that marks one of these members joined, as long as nothing recorded is
  forgotten (only a member's removal does that).\<close>

theorem join_before_channel_lost:
  assumes "reachable app" "distinct members" "\<forall>m \<in> set members. live (ap_sessions app) m" "l \<in> set members"
    "room_task L c ser enc wr members (app, mx) = Some (app', mx')"
    "\<forall>ep. app_endpoint (s_id (ap_store app l)) app = Some ep \<longrightarrow> \<not> data_channel_open ep"
  shows "(\<exists>st outs logs out. mix_room L c ser members (ap_store app) = Some (st, outs, logs) \<and> out \<in> set outs \<and> o_session out = l \<and>
      (o_roster out = None \<longleftrightarrow>
        (\<forall>a \<in> set members. s_agent_id (ap_store app a) \<in> s_announced (ap_store app l) \<and> frame_level (ap_store app a) = 0))) \<and>
    filter (\<lambda>e. target e = s_id (ap_store app l)) (ap_trace app') = filter (\<lambda>e. target e = s_id (ap_store app l)) (ap_trace app) \<and>
    (\<forall>a \<in> set members. s_agent_id (ap_store app a) \<in> s_announced (ap_store app' l)) \<and>
    (\<forall>L' c' members' st2 st2' outs' logs' out'. distinct members' \<longrightarrow>
       mix_room L' c' ser members' st2 = Some (st2', outs', logs') \<longrightarrow> out' \<in> set outs' \<longrightarrow> o_session out' = l \<longrightarrow>
       s_announced (ap_store app' l) \<subseteq> s_announced (st2 l) \<longrightarrow>
       (\<exists>w. o_roster out' \<in> {None, Some (ser w)} \<and>
          (\<forall>a \<in> set members. \<forall>e. jget w (s_agent_id (ap_store app a)) = Some e \<longrightarrow> jget e ''j'' = None)))"
proof -
  obtain st outs logs new where o: "mix_room L c ser members (ap_store app) = Some (st, outs, logs)" "map o_session outs = members"
    "ap_store app' = st" "ap_trace app' = ap_trace app @ new"
    "\<forall>out \<in> set outs. filter (\<lambda>e. target e = s_id (ap_store app (o_session out))) new = sent enc app out"
    using independent_spec [OF assms(1-3,5)] by blast
  obtain out where out: "out \<in> set outs" "o_session out = l" using o(2) assms(4) by (metis imageE list.set_map)
  have "sent enc app out = []"
    using assms(6) by (auto simp: sent_def out(2) data_channel_open_def Let_def split: option.split)
  then have "filter (\<lambda>e. target e = s_id (ap_store app l)) new = []" using o(5) out by fastforce
  moreover note t = tick_roster [OF assms(2) o(1) out(1)]
  have told: "(\<lambda>a. s_agent_id (ap_store app a)) ` set members \<subseteq> s_announced (ap_store app' l)" using t(3) assms(4) o(3) by auto
  moreover have "o_roster out = None \<longleftrightarrow>
      (\<forall>a \<in> set members. s_agent_id (ap_store app a) \<in> s_announced (ap_store app l) \<and> frame_level (ap_store app a) = 0)"
    using t(2) by (simp add: roster_text_def entries_spec_empty out(2))
  moreover have "\<exists>w. o_roster out' \<in> {None, Some (ser w)} \<and>
      (\<forall>a \<in> set members. \<forall>e. jget w (s_agent_id (ap_store app a)) = Some e \<longrightarrow> jget e ''j'' = None)"
    if "distinct members'" "mix_room L' c' ser members' st2 = Some (st2', outs', logs')" "out' \<in> set outs'"
      "o_session out' = l" "s_announced (ap_store app' l) \<subseteq> s_announced (st2 l)"
    for L' c' members' st2 st2' outs' logs' out'
  proof -
    have "(\<lambda>a. s_agent_id (ap_store app a)) ` set members \<subseteq> s_announced (st2 (o_session out'))" using that(4,5) told by auto
    from later_no_join [OF that(1-3) this] show ?thesis by blast
  qed
  ultimately show ?thesis using o(1,4) out by auto
qed

lemma join_before_channel_lost_witness:
  "\<exists>(app :: unit app) (app' :: unit app) mx'. reachable app \<and> ''bob'' \<notin> s_announced (ap_store app 0) \<and>
     room_task exact_libm logctl_init (\<lambda>_. ''{}'') (\<lambda>e _. (e, Inr [42])) (\<lambda>_. Inr ()) [0, 1]
       (app, \<lparr>mx_inflight = 1, mx_skipped = 0, mx_last_warned = 0\<rparr>) = Some (app', mx') \<and>
     filter (\<lambda>e. target e = s_id (ap_store app 0)) (ap_trace app') = filter (\<lambda>e. target e = s_id (ap_store app 0)) (ap_trace app) \<and>
     ''bob'' \<in> s_announced (ap_store app' 0)"
proof -
  obtain app :: "unit app" and ep where a: "reachable app" "hm_get (by_session (ap_sessions app)) ''wv-1'' = Some 0"
    "hm_get (by_session (ap_sessions app)) ''wv-2'' = Some 1" "s_agent_id (ap_store app 1) = ''bob''" 
    "app_endpoint ''wv-1'' app = Some ep" "s_announced (ap_store app 0) = {}" using call_of_two by blast
  let ?app = "app\<lparr>ap_endpoints := hm_insert ''wv-1'' (ep\<lparr>ep_dc := None\<rparr>) (ap_endpoints app), ap_trace := ap_trace app\<rparr>"
  let ?mx = "\<lparr>mx_inflight = 1, mx_skipped = 0, mx_last_warned = 0\<rparr>"
  have r: "reachable ?app" using a(1,5) by (rule reachable.channel)
  have d: "distinct [0, 1 :: arc]" by simp
  have lv: "\<forall>m \<in> set [0, 1]. live (ap_sessions ?app) m" using a(2,3) by (auto simp: live_def)
  have id: "s_id (ap_store ?app 0) = ''wv-1''"
    using reachable_ok [OF a(1)] a(2) by (auto simp: app_ok_def dest: reg_okD(3))
  have cl: "\<forall>e. app_endpoint (s_id (ap_store ?app 0)) ?app = Some e \<longrightarrow> \<not> data_channel_open e"
    unfolding id by (simp add: app_endpoint_def hm_simps data_channel_open_def)
  obtain app' mx' where task: "room_task exact_libm logctl_init (\<lambda>_. ''{}'') (\<lambda>e _. (e, Inr [42])) (\<lambda>_. Inr ()) [0, 1] (?app, ?mx) =
      Some (app', mx')"
    using mix_room_spec [OF d, of exact_libm logctl_init "\<lambda>_. ''{}''" "ap_store ?app"] by (auto simp: room_task_def)
  have l: "0 \<in> set [0, 1 :: arc]" by simp
  note lost = join_before_channel_lost [OF r d lv l task cl]
  have "filter (\<lambda>e. target e = s_id (ap_store ?app 0)) (ap_trace app') = filter (\<lambda>e. target e = s_id (ap_store ?app 0)) (ap_trace ?app)"
    using lost by (elim conjE)
  moreover have "\<forall>a \<in> set [0, 1]. s_agent_id (ap_store ?app a) \<in> s_announced (ap_store app' 0)" using lost by (elim conjE)
  ultimately show ?thesis using r task a(4,6) by (intro exI [of _ ?app] exI [of _ app'] exI [of _ mx']) simp
qed

end
