(* ===== verification/Stereo_Image.thy ===== *)
theory Stereo_Image
  imports Room
begin

text \<open>
  Where a listener hears a speaker (\<open>pan_weights\<close> in \<open>src/src/mixer.rs\<close>): the weights follow the side on which
  the speaker stands in the listener's own frame.
\<close>

section \<open>The constant for a quarter turn\<close>

abbreviation quarter :: real where "quarter \<equiv> 7074237752028440 / 9007199254740992"

lemma sum_ten: "(\<Sum>m<10 :: nat. f m) = f 0 + f 1 + f 2 + f 3 + f 4 + f 5 + f 6 + f 7 + f 8 + (f 9 :: real)"
  by (simp add: eval_nat_numeral)

lemma cos_series:
  fixes x :: real
  assumes "0 \<le> x" "x \<le> 1"
  shows "\<bar>cos x - (1 - x ^ 2 / 2 + x ^ 4 / 24 - x ^ 6 / 720 + x ^ 8 / 40320)\<bar> \<le> x ^ 10 / 3628800"
proof -
  obtain t where t: "cos x = (\<Sum>m<10. cos_coeff m * x ^ m) + cos (t + 1 / 2 * real (10 :: nat) * pi) / fact 10 * x ^ 10"
    using Maclaurin_cos_expansion [of x 10] by blast
  have s: "(\<Sum>m<10. cos_coeff m * x ^ m) = 1 - x ^ 2 / 2 + x ^ 4 / 24 - x ^ 6 / 720 + x ^ 8 / 40320"
    unfolding sum_ten by (simp add: cos_coeff_def fact_numeral)
  have f: "fact 10 = (3628800 :: real)" by (simp add: fact_numeral)
  have "\<bar>cos (t + 1 / 2 * real (10 :: nat) * pi) / 3628800 * x ^ 10\<bar> \<le> 1 / 3628800 * x ^ 10"
    unfolding abs_mult abs_divide using abs_cos_le_one [of "t + 1 / 2 * real (10 :: nat) * pi"] assms
    by (intro mult_mono divide_right_mono) auto
  then show ?thesis unfolding t s f by simp
qed

lemma sin_series:
  fixes x :: real
  assumes "0 \<le> x"
  shows "\<bar>sin x - (x - x ^ 3 / 6 + x ^ 5 / 120 - x ^ 7 / 5040 + x ^ 9 / 362880)\<bar> \<le> x ^ 10 / 3628800"
proof -
  have s: "(\<Sum>m<10. sin_coeff m * x ^ m) = x - x ^ 3 / 6 + x ^ 5 / 120 - x ^ 7 / 5040 + x ^ 9 / 362880"
    unfolding sum_ten by (simp add: sin_coeff_def fact_numeral)
  have f: "fact 10 = (3628800 :: real)" by (simp add: fact_numeral)
  show ?thesis using Maclaurin_sin_bound [of x 10] assms unfolding s f by (simp add: field_simps)
qed

lemma quarter_balanced: "\<bar>sin quarter - cos quarter\<bar> \<le> 1 / 10 ^ 6"
proof -
  have a: "\<bar>cos quarter - (1 - quarter ^ 2 / 2 + quarter ^ 4 / 24 - quarter ^ 6 / 720 + quarter ^ 8 / 40320)\<bar> \<le> quarter ^ 10 / 3628800"
    by (rule cos_series) simp_all
  have b: "\<bar>sin quarter - (quarter - quarter ^ 3 / 6 + quarter ^ 5 / 120 - quarter ^ 7 / 5040 + quarter ^ 9 / 362880)\<bar> \<le> quarter ^ 10 / 3628800"
    by (rule sin_series) simp
  have c: "quarter ^ 10 / 3628800 \<le> 1 / 10 ^ 7" by (simp add: power_divide)
  have d: "\<bar>(quarter - quarter ^ 3 / 6 + quarter ^ 5 / 120 - quarter ^ 7 / 5040 + quarter ^ 9 / 362880) -
      (1 - quarter ^ 2 / 2 + quarter ^ 4 / 24 - quarter ^ 6 / 720 + quarter ^ 8 / 40320)\<bar> \<le> 1 / 10 ^ 7"
    by (simp add: power_divide)
  have "\<bar>s - c\<bar> \<le> 3 / 10 ^ 7" if "\<bar>c - p\<bar> \<le> e" "\<bar>s - q\<bar> \<le> e" "e \<le> 1 / 10 ^ 7" "\<bar>q - p\<bar> \<le> 1 / 10 ^ 7" for s c p q e :: real
    using that by linarith
  from this [OF a b c d] show ?thesis by (rule order_trans) simp
qed

lemma sin_minus_cos: "sin x - cos x = sqrt 2 * sin (x - pi / 4)"
proof -
  have "sqrt 2 * (sqrt 2 / 2) = (1 :: real)" by simp
  then show ?thesis by (simp add: sin_diff sin_45 cos_45 algebra_simps)
qed

text \<open>The sine of a small angle is at least half the angle.\<close>

lemma sin_ge_half:
  fixes d :: real
  assumes "0 \<le> d" "d \<le> 1" shows "d / 2 \<le> sin d"
proof (cases "d = 0")
  case False
  then have "0 < d" using assms by simp
  then obtain z where z: "0 < z" "z < d" "sin d - sin 0 = (d - 0) * cos z"
    using MVT2 [of 0 d sin cos] DERIV_sin by blast
  have "cos 1 \<le> cos z" using z assms pi_ge_two by (intro cos_monotone_0_pi_le) auto
  moreover have "1 / 2 \<le> cos (1 :: real)" using abs_le_D2 [OF cos_series [of 1]] by simp
  ultimately have "1 / 2 \<le> cos z" by linarith
  then have "d * (1 / 2) \<le> d * cos z" using assms by (intro mult_left_mono)
  then show ?thesis using z by simp
qed simp

lemma sin_abs_le: "sin \<bar>d\<bar> \<le> \<bar>sin (d :: real)\<bar>"
  by (cases "0 \<le> d") (simp_all only: abs_of_nonneg abs_of_neg not_le sin_minus abs_ge_self abs_ge_minus_self)

lemma quarter_near: "\<bar>quarter - pi / 4\<bar> \<le> 2 / 10 ^ 6"
proof -
  let ?d = "quarter - pi / 4"
  have "\<bar>?d\<bar> \<le> 1" using pi_less_4 pi_ge_two by linarith
  then have "\<bar>?d\<bar> / 2 \<le> sin \<bar>?d\<bar>" by (intro sin_ge_half) simp_all
  also have "sin \<bar>?d\<bar> \<le> \<bar>sin ?d\<bar>" by (rule sin_abs_le)
  also have "\<bar>sin ?d\<bar> \<le> sqrt 2 * \<bar>sin ?d\<bar>" using mult_right_mono [of 1 "sqrt 2" "\<bar>sin ?d\<bar>"] by simp
  also have "\<dots> = \<bar>sin quarter - cos quarter\<bar>" unfolding sin_minus_cos abs_mult by simp
  also have "\<dots> \<le> 1 / 10 ^ 6" by (rule quarter_balanced)
  finally show ?thesis by simp
qed

text \<open>Angles clear of the quarter turn.\<close>

lemma sin_exceeds:
  fixes t :: real assumes "807 / 1024 \<le> t" "t \<le> 2" shows "cos t + 1 / 1000 \<le> sin t"
proof -
  let ?d = "t - pi / 4"
  have n: "quarter - pi / 4 \<ge> - (2 / 10 ^ 6)" using abs_le_D2 [OF quarter_near] by linarith
  have d: "1 / 500 \<le> ?d" using assms(1) n by simp
  have u: "?d \<le> pi / 2" using assms abs_le_D1 [OF quarter_near] by simp
  have "1 / 1000 \<le> sin (1 / 500 :: real)" using sin_ge_half [of "1 / 500"] by simp
  also have "\<dots> \<le> sin ?d" using d u by (intro sin_monotone_2pi_le) auto
  also have "\<dots> \<le> sqrt 2 * sin ?d"
    using mult_right_mono [of 1 "sqrt 2" "sin ?d"] sin_ge_zero [of ?d] d u by simp
  finally show ?thesis using sin_minus_cos [of t] by simp
qed

lemma cos_exceeds:
  fixes t :: real assumes "t \<le> 1603 / 2048" "0 \<le> t" shows "sin t + 1 / 1000 \<le> cos t"
proof -
  let ?d = "pi / 4 - t"
  have n: "quarter - pi / 4 \<le> 2 / 10 ^ 6" using abs_le_D1 [OF quarter_near] by linarith
  have d: "1 / 500 \<le> ?d" using assms(1) n by simp
  have u: "?d \<le> pi / 2" using assms(2) pi_ge_two by linarith
  have "1 / 1000 \<le> sin (1 / 500 :: real)" using sin_ge_half [of "1 / 500"] by simp
  also have "\<dots> \<le> sin ?d" using d u by (intro sin_monotone_2pi_le) auto
  also have "\<dots> \<le> sqrt 2 * sin ?d"
    using mult_right_mono [of 1 "sqrt 2" "sin ?d"] sin_ge_zero [of ?d] d u by simp
  also have "\<dots> = cos t - sin t" using sin_minus_cos [of t] by (simp add: sin_diff sin_45 cos_45 algebra_simps)
  finally show ?thesis by simp
qed

section \<open>The lateral component\<close>

lemma repr_parts:
  "repr F64 (1 / 256)" "repr F64 (255 / 256)" "repr F64 (257 / 256)" "repr F64 (807 / 1024)" "repr F64 (1603 / 2048)" "repr F64 (1 / 2)"
  using repr_scaled(1) [of 1 "- 8" F64] repr_scaled(1) [of 255 "- 8" F64] repr_scaled(1) [of 257 "- 8" F64]
    repr_scaled(1) [of 807 "- 10" F64] repr_scaled(1) [of 1603 "- 11" F64] repr_scaled(1) [of 1 "- 1" F64]
  by (simp_all add: pow2_minus pow2_nat [of 8, simplified] pow2_nat [of 10, simplified] pow2_nat [of 11, simplified])

lemma small_ok: "\<bar>x\<bar> \<le> 1 \<Longrightarrow> \<bar>x\<bar> \<le> maxfin f"
  by (rule order_trans [OF _ one_le_maxfin])

lemma lateral_far:
  assumes "1 \<le> \<bar>x\<bar>" "\<bar>x\<bar> \<le> 128" "\<bar>y\<bar> \<le> 128"
  shows "\<exists>h. 1 \<le> h \<and> h \<le> 200 \<and> lateral_of (Fin x) (Fin y) = fp_clamp (Fin (- 1)) (Fin 1) (rnd F64 (x / h))"
proof -
  have x: "1 \<le> x * x" "x * x \<le> 16384" using mult_mono [of 1 "\<bar>x\<bar>" 1 "\<bar>x\<bar>"] mult_mono [of "\<bar>x\<bar>" 128 "\<bar>x\<bar>" 128] assms by simp_all
  have y: "0 \<le> y * y" "y * y \<le> 16384" using mult_mono [of "\<bar>y\<bar>" 128 "\<bar>y\<bar>" 128] assms by simp_all
  have "fbetween 1 16384 (rnd F64 (x * x))" using x by (intro rnd_between) simp_all
  then obtain p where p: "rnd F64 (x * x) = Fin p" "1 \<le> p" "p \<le> 16384" by (elim fbetweenE)
  have "fbetween 0 16384 (rnd F64 (y * y))" using y by (intro rnd_between) simp_all
  then obtain q where q: "rnd F64 (y * y) = Fin q" "0 \<le> q" "q \<le> 16384" by (elim fbetweenE)
  have "fbetween 1 32768 (rnd F64 (p + q))" using p q by (intro rnd_between) simp_all
  then obtain s where s: "rnd F64 (p + q) = Fin s" "1 \<le> s" "s \<le> 32768" by (elim fbetweenE)
  have "sqrt s \<le> sqrt (200\<^sup>2)" using s by (intro real_sqrt_le_mono) simp
  then have "fbetween 1 200 (rnd F64 (sqrt s))" using s by (intro rnd_between) simp_all
  then obtain h where h: "rnd F64 (sqrt s) = Fin h" "1 \<le> h" "h \<le> 200" by (elim fbetweenE)
  have "fbetween 0 (1 / 2) (rnd F64 (1 / 10 ^ 6))"
    using repr_parts(6) by (intro rnd_between small_ok) simp_all
  then obtain u where u: "rnd F64 (1 / 10 ^ 6) = Fin u" "u \<le> 1 / 2" by (elim fbetweenE)
  have hz: "fsqrt F64 (fadd F64 (fmul F64 (Fin x) (Fin x)) (fmul F64 (Fin y) (Fin y))) = Fin h"
    using p q s h by simp
  have "\<not> h < u" using h(2) u(2) by linarith
  then have "lateral_of (Fin x) (Fin y) = fp_clamp (Fin (- 1)) (Fin 1) (fdiv F64 (Fin x) (Fin h))"
    by (simp only: lateral_of_def Let_def hz u(1) fp_lt_Fin if_False)
  then have "lateral_of (Fin x) (Fin y) = fp_clamp (Fin (- 1)) (Fin 1) (rnd F64 (x / h))"
    using h(2) by simp
  then show ?thesis using h by blast
qed

lemma maxfin_part: "1 \<le> maxfin F64 * 256"
  using one_le_maxfin [of F64] by linarith

lemma lateral_sides:
  assumes "\<bar>x\<bar> \<le> 128" "\<bar>y\<bar> \<le> 128"
  shows "1 \<le> x \<Longrightarrow> fbetween (1 / 256) 1 (lateral_of (Fin x) (Fin y))"
    and "x \<le> - 1 \<Longrightarrow> fbetween (- 1) (- (1 / 256)) (lateral_of (Fin x) (Fin y))"
    and "lateral_of (Fin 0) (Fin y) = Fin 0"
proof -
  assume x: "1 \<le> x"
  then obtain h where h: "1 \<le> h" "h \<le> 200" "lateral_of (Fin x) (Fin y) = fp_clamp (Fin (- 1)) (Fin 1) (rnd F64 (x / h))"
    using lateral_far [of x y] assms by auto
  have "1 / 256 \<le> x / h" "x / h \<le> 128"
    using frac_le [of 1 x h 200] x h assms(1) by (simp_all add: pos_divide_le_eq)
  then have "fbetween (1 / 256) 128 (rnd F64 (x / h))" using repr_parts(1) maxfin_part by (intro rnd_between) simp_all
  then show "fbetween (1 / 256) 1 (lateral_of (Fin x) (Fin y))" unfolding h(3) by (elim fbetweenE) (simp add: fp_clamp_def)
next
  assume x: "x \<le> - 1"
  then obtain h where h: "1 \<le> h" "h \<le> 200" "lateral_of (Fin x) (Fin y) = fp_clamp (Fin (- 1)) (Fin 1) (rnd F64 (x / h))"
    using lateral_far [of x y] assms by auto
  have "x / h \<le> - (1 / 256)" "- 128 \<le> x / h"
    using x h assms(1) by (simp_all add: pos_divide_le_eq pos_le_divide_eq)
  then have "fbetween (- 128) (- (1 / 256)) (rnd F64 (x / h))" using repr_parts(1) maxfin_part by (intro rnd_between) simp_all
  then show "fbetween (- 1) (- (1 / 256)) (lateral_of (Fin x) (Fin y))" unfolding h(3) by (elim fbetweenE) (simp add: fp_clamp_def)
next
  have y: "0 \<le> y * y" "y * y \<le> 16384" using mult_mono [of "\<bar>y\<bar>" 128 "\<bar>y\<bar>" 128] assms by simp_all
  have "fbetween 0 16384 (rnd F64 (y * y))" using y by (intro rnd_between) simp_all
  then obtain q where q: "rnd F64 (y * y) = Fin q" "0 \<le> q" "q \<le> 16384" by (elim fbetweenE)
  have "fbetween 0 16384 (rnd F64 q)" using q by (intro rnd_between) simp_all
  then obtain s where s: "rnd F64 q = Fin s" "0 \<le> s" "s \<le> 16384" by (elim fbetweenE)
  have "sqrt s \<le> sqrt (200\<^sup>2)" using s by (intro real_sqrt_le_mono) simp
  then have "fbetween 0 200 (rnd F64 (sqrt s))" using s by (intro rnd_between) simp_all
  then obtain h where h: "rnd F64 (sqrt s) = Fin h" "0 \<le> h" by (elim fbetweenE)
  obtain u where u: "rnd F64 (1 / 10 ^ 6) = Fin u" "pow2 (- 20) \<le> u" using threshold by blast
  then have "0 < u" using pow2_pos [of "- 20"] by linarith
  have hz: "fsqrt F64 (fadd F64 (fmul F64 (Fin 0) (Fin 0)) (fmul F64 (Fin y) (Fin y))) = Fin h"
    using q s h by (simp add: rnd_repr)
  have "(if h < u then Fin 0 else fdiv F64 (Fin 0) (Fin h)) = Fin 0" using \<open>0 < u\<close> by (simp add: rnd_repr)
  then have "lateral_of (Fin 0) (Fin y) = fp_clamp (Fin (- 1)) (Fin 1) (Fin 0)"
    by (simp only: lateral_of_def Let_def hz u(1) fp_lt_Fin)
  then show "lateral_of (Fin 0) (Fin y) = Fin 0" by (simp add: fp_clamp_def)
qed

section \<open>Panning follows the head\<close>

lemma angle_side:
  assumes "fbetween lo hi l" "- 1 \<le> lo" "hi \<le> 1" "repr F64 (lo + 1)" "repr F64 (hi + 1)"
    "repr F64 a" "repr F64 b" "0 \<le> a" "a \<le> (lo + 1) * quarter" "(hi + 1) * quarter \<le> b" "b \<le> 2"
  shows "fbetween a b (fmul F64 (fadd F64 l (Fin 1)) FRAC_PI_4)"
proof -
  obtain x where x: "l = Fin x" "lo \<le> x" "x \<le> hi" using assms(1) by (elim fbetweenE)
  have two: "\<bar>z\<bar> \<le> 2 \<Longrightarrow> \<bar>z\<bar> \<le> maxfin F64" for z by (rule order_trans [of _ 2]) simp_all
  have "fbetween (lo + 1) (hi + 1) (rnd F64 (x + 1))" using x assms by (intro rnd_between two) auto
  then obtain c where c: "rnd F64 (x + 1) = Fin c" "lo + 1 \<le> c" "c \<le> hi + 1" by (elim fbetweenE)
  have "(lo + 1) * quarter \<le> c * quarter" "c * quarter \<le> (hi + 1) * quarter" using c by (auto intro!: mult_right_mono)
  then have "fbetween a b (rnd F64 (c * quarter))" using assms by (intro rnd_between two) linarith+
  then show ?thesis using x(1) c(1) by (simp add: FRAC_PI_4_value)
qed

lemma repr_half_turn: "repr F64 (2 * quarter)"
  unfolding repr_def
  by (intro exI [of _ 7074237752028440] exI [of _ "- 52"])
    (simp add: prec_def emin_def pow2_minus pow2_nat [of 52, simplified])

lemma repr_quarter: "repr F64 quarter"
  unfolding repr_def
  by (intro exI [of _ 7074237752028440] exI [of _ "- 53"])
    (simp add: prec_def emin_def pow2_minus pow2_nat [of 53, simplified])

lemma rnd_quarter: "rnd F64 quarter = Fin quarter"
  using repr_quarter by (rule rnd_repr) (rule small_ok, simp)

lemma cos_barely_negative:
  assumes "0 \<le> t" "t \<le> 2 * quarter" shows "- 5 / 10 ^ 6 \<le> cos t"
proof (cases "t \<le> pi / 2")
  case True
  then show ?thesis using cos_ge_zero [of t] assms by simp
next
  case False
  have "cos t = - sin (t - pi / 2)" by (simp add: sin_diff)
  moreover have "sin (t - pi / 2) \<le> t - pi / 2" using False by (intro sin_x_le_x) simp
  moreover have "t - pi / 2 \<le> 4 / 10 ^ 6" using assms abs_le_D1 [OF quarter_near] by simp
  ultimately show ?thesis by simp
qed

lemma weights_side:
  fixes t :: real
  assumes "\<bar>wl - cos t\<bar> \<le> 1 / 2 ^ 21" "\<bar>wr - sin t\<bar> \<le> 1 / 2 ^ 21" "0 \<le> t" "t \<le> 2 * quarter"
  shows "- 1 / 10 ^ 5 \<le> wl" "- 1 / 10 ^ 5 \<le> wr" "807 / 1024 \<le> t \<Longrightarrow> wl + 1 / 2000 \<le> wr"
    "t \<le> 1603 / 2048 \<Longrightarrow> wr + 1 / 2000 \<le> wl" "t = quarter \<Longrightarrow> \<bar>wl - wr\<bar> \<le> 3 / 10 ^ 6"
proof -
  have e: "1 / 2 ^ 21 \<le> (1 / 10 ^ 6 :: real)" by simp
  have wl: "wl \<le> cos t + 1 / 10 ^ 6" "cos t - 1 / 10 ^ 6 \<le> wl" using order_trans [OF assms(1) e] by linarith+
  have wr: "wr \<le> sin t + 1 / 10 ^ 6" "sin t - 1 / 10 ^ 6 \<le> wr" using order_trans [OF assms(2) e] by linarith+
  have t: "t \<le> 2" using assms(4) by simp
  show "- 1 / 10 ^ 5 \<le> wl" using wl(2) cos_barely_negative [OF assms(3,4)] by simp
  have "0 \<le> sin t" using assms(3,4) abs_le_D1 [OF quarter_near] pi_ge_two by (intro sin_ge_zero) auto
  then show "- 1 / 10 ^ 5 \<le> wr" using wr(2) by simp
  show "wl + 1 / 2000 \<le> wr" if "807 / 1024 \<le> t" using sin_exceeds [OF that t] wl(1) wr(2) by simp
  show "wr + 1 / 2000 \<le> wl" if "t \<le> 1603 / 2048" using cos_exceeds [OF that assms(3)] wl(2) wr(1) by simp
  show "\<bar>wl - wr\<bar> \<le> 3 / 10 ^ 6" if "t = quarter"
  proof (rule abs_leI)
    show "wl - wr \<le> 3 / 10 ^ 6" using abs_le_D2 [OF quarter_balanced] wl(1) wr(2) unfolding that by simp
    show "- (wl - wr) \<le> 3 / 10 ^ 6" using abs_le_D1 [OF quarter_balanced] wl(2) wr(1) unfolding that by simp
  qed
qed

lemma pan_side:
  assumes "libm_ok L" "world_to_local (v3_sub s l) q = (Fin x, Fin y, z)" "\<bar>x\<bar> \<le> 128" "\<bar>y\<bar> \<le> 128"
  shows "\<exists>wl wr. pan_weights L s l q = (Fin wl, Fin wr) \<and> - 1 / 10 ^ 5 \<le> wl \<and> - 1 / 10 ^ 5 \<le> wr \<and>
    (1 \<le> x \<longrightarrow> wl + 1 / 2000 \<le> wr) \<and> (x \<le> - 1 \<longrightarrow> wr + 1 / 2000 \<le> wl) \<and> (x = 0 \<longrightarrow> \<bar>wl - wr\<bar> \<le> 3 / 10 ^ 6)"
proof -
  let ?l = "lateral_of (Fin x) (Fin y)" let ?a = "fmul F64 (fadd F64 ?l (Fin 1)) FRAC_PI_4"
  have "pow2 7 \<le> pow2 412" by (rule pow2_mono) simp
  moreover have "pow2 7 = 128" using pow2_nat [of 7] by simp
  ultimately have "128 \<le> pow2 412" by (simp only:)
  then have "fbetween (- 1) 1 ?l" using assms(3,4) by (intro lateral_range) auto
  then have "fbetween 0 (2 * quarter) ?a" using repr_half_turn by (intro angle_side [of "- 1" 1]) simp_all
  then obtain t where t: "?a = Fin t" "0 \<le> t" "t \<le> 2 * quarter" by (elim fbetweenE)
  have right: "807 / 1024 \<le> t" if "1 \<le> x"
    using angle_side [OF lateral_sides(1) [OF assms(3,4) that], of "807 / 1024" "2 * quarter"] t(1) repr_half_turn repr_parts by simp
  have left: "t \<le> 1603 / 2048" if "x \<le> - 1"
    using angle_side [OF lateral_sides(2) [OF assms(3,4) that], of 0 "1603 / 2048"] t(1) repr_parts by simp
  have mid: "t = quarter" if "x = 0"
  proof -
    have "?a = rnd F64 quarter" using lateral_sides(3) [of 0 y] assms(4) that by (simp add: FRAC_PI_4_value rnd_repr)
    then show ?thesis using t(1) by (simp only: rnd_quarter fp.inject)
  qed
  obtain wl wr where w: "pan_weights L s l q = (Fin wl, Fin wr)" "\<bar>wl - cos t\<bar> \<le> 1 / 2 ^ 21" "\<bar>wr - sin t\<bar> \<le> 1 / 2 ^ 21"
    using pan_angle [OF assms(1,2) t(1,2)] t(3) by auto
  show ?thesis using w(1) weights_side [OF w(2,3) t(2,3)] right left mid by blast
qed

text \<open>Two headings: the identity rotation, which faces north (local +X is east), and the half turn, which faces south.\<close>

abbreviation north :: vec4 where "north \<equiv> (Fin 0, Fin 0, Fin 0, Fin 1)"
abbreviation south :: vec4 where "south \<equiv> (Fin 0, Fin 0, Fin 1, Fin 0)"

lemma repr_double: "repr F64 x \<Longrightarrow> repr F64 (2 * x)"
proof -
  assume "repr F64 x"
  then obtain m e where m: "x = of_int m * pow2 e" "\<bar>m\<bar> < 2 ^ nat (prec F64)" "emin F64 - (prec F64 - 1) \<le> e"
    unfolding repr_def by blast
  have "2 * x = of_int m * pow2 (e + 1)" using m(1) by (simp add: pow2_succ)
  then show ?thesis using m(2,3) unfolding repr_def by (intro exI [of _ m] exI [of _ "e + 1"]) simp
qed

lemma facing:
  assumes "repr F64 x" "repr F64 y" "repr F64 z" "\<bar>x\<bar> \<le> 128" "\<bar>y\<bar> \<le> 128" "\<bar>z\<bar> \<le> 128"
  shows "world_to_local (Fin x, Fin y, Fin z) north = (Fin x, Fin y, Fin z)"
    and "world_to_local (Fin x, Fin y, Fin z) south = (Fin (- x), Fin (- y), Fin z)"
proof -
  have b: "\<bar>v\<bar> \<le> 256 \<Longrightarrow> \<bar>v\<bar> \<le> maxfin F64" for v by (rule order_trans [of _ 256]) simp_all
  note r = assms(1-3) repr_double [OF assms(1)] repr_double [OF assms(2)]
  have m: "\<bar>x\<bar> \<le> maxfin F64" "\<bar>y\<bar> \<le> maxfin F64" "\<bar>z\<bar> \<le> maxfin F64" "\<bar>2 * x\<bar> \<le> maxfin F64" "\<bar>2 * y\<bar> \<le> maxfin F64"
    using assms(4-6) by (auto intro!: b)
  note k = rnd_repr [OF r(1) m(1)] rnd_repr [OF r(2) m(2)] rnd_repr [OF r(3) m(3)] rnd_repr [OF r(4) m(4)] rnd_repr [OF r(5) m(5)]
    rnd_repr [of F64 "- x"] rnd_repr [of F64 "- y"] rnd_repr [of F64 "- (2 * x)"] rnd_repr [of F64 "- (2 * y)"] rnd_repr [of F64 0]
  show "world_to_local (Fin x, Fin y, Fin z) north = (Fin x, Fin y, Fin z)"
    using r m by (simp add: world_to_local_def Let_def fsub_def k)
  show "world_to_local (Fin x, Fin y, Fin z) south = (Fin (- x), Fin (- y), Fin z)"
    using r m by (simp add: world_to_local_def Let_def fsub_def k)
qed

lemma sub_near:
  assumes "\<bar>a - b\<bar> \<le> 128"
  shows "\<exists>d. fsub F64 (Fin a) (Fin b) = Fin d \<and> repr F64 d \<and> \<bar>d\<bar> \<le> 128 \<and>
    (1 \<le> a - b \<longrightarrow> 1 \<le> d) \<and> (a - b \<le> - 1 \<longrightarrow> d \<le> - 1) \<and> (a = b \<longrightarrow> d = 0)"
proof -
  have "\<bar>a - b\<bar> \<le> maxfin F64" using assms by (rule order_trans) simp
  then have "fsub F64 (Fin a) (Fin b) = Fin (rnd_real F64 (a - b))" by (simp add: fsub_def rnd_Fin)
  moreover have "1 \<le> rnd_real F64 (a - b)" if "1 \<le> a - b" using rnd_real_mono [OF that, of F64] by (simp add: rnd_real_repr)
  moreover have "rnd_real F64 (a - b) \<le> - 1" if "a - b \<le> - 1" using rnd_real_mono [OF that, of F64] by (simp add: rnd_real_repr)
  ultimately show ?thesis using abs_rnd_small [OF assms] repr_rnd_real by auto
qed

text \<open>Due east and due west.\<close>

lemma norm_axis:
  assumes "repr F64 (x * x)" "repr F64 \<bar>x\<bar>" "\<bar>x\<bar> \<le> 1000"
  shows "fsqrt F64 (fadd F64 (fmul F64 (Fin x) (Fin x)) (fmul F64 (Fin 0) (Fin 0))) = Fin \<bar>x\<bar>"
    "v3_norm (Fin x, Fin 0, Fin 0) = Fin \<bar>x\<bar>"
proof -
  have "\<bar>x\<bar> * \<bar>x\<bar> \<le> 1000 * 1000" using assms(3) by (intro mult_mono) auto
  then have "\<bar>x * x\<bar> \<le> 1000000" by (simp add: abs_mult)
  then have s: "\<bar>x * x\<bar> \<le> maxfin F64" by (rule order_trans) simp
  have m: "\<bar>\<bar>x\<bar>\<bar> \<le> maxfin F64" using assms(3) by (simp add: order_trans [of "\<bar>x\<bar>" 1000])
  have q: "sqrt (x * x) = \<bar>x\<bar>" by (simp add: real_sqrt_abs2)
  show "fsqrt F64 (fadd F64 (fmul F64 (Fin x) (Fin x)) (fmul F64 (Fin 0) (Fin 0))) = Fin \<bar>x\<bar>"
    by (simp add: rnd_repr [OF assms(1) s] rnd_repr [of F64 0] q rnd_repr [OF assms(2) m])
  show "v3_norm (Fin x, Fin 0, Fin 0) = Fin \<bar>x\<bar>"
    by (simp add: v3_norm_def rnd_repr [OF assms(1) s] rnd_repr [of F64 0] q rnd_repr [OF assms(2) m])
qed

lemma lateral_axis:
  assumes "repr F64 (x * x)" "repr F64 \<bar>x\<bar>" "1 \<le> \<bar>x\<bar>" "\<bar>x\<bar> \<le> 1000"
  shows "lateral_of (Fin x) (Fin 0) = Fin (sgn x)"
proof -
  have "fbetween 0 (1 / 2) (rnd F64 (1 / 10 ^ 6))"
    using repr_parts(6) by (intro rnd_between small_ok) simp_all
  then obtain u where u: "rnd F64 (1 / 10 ^ 6) = Fin u" "u \<le> 1 / 2" by (elim fbetweenE)
  have "\<not> \<bar>x\<bar> < u" using assms(3) u(2) by linarith
  then have "lateral_of (Fin x) (Fin 0) = fp_clamp (Fin (- 1)) (Fin 1) (fdiv F64 (Fin x) (Fin \<bar>x\<bar>))"
    by (simp only: lateral_of_def Let_def norm_axis(1) [OF assms(1,2,4)] u(1) fp_lt_Fin if_False)
  moreover have "x / \<bar>x\<bar> = sgn x" "x \<noteq> 0" using assms(3) by (auto simp: real_sgn_eq)
  moreover have "rnd F64 (sgn x) = Fin (sgn x)" by (simp add: sgn_if rnd_repr)
  ultimately show ?thesis by (simp add: fp_clamp_def sgn_if)
qed

lemma sin_half_turn: "1 - 1 / 10 ^ 9 \<le> sin (2 * quarter)" "cos (2 * quarter) \<le> 5 / 10 ^ 6"
proof -
  have "\<bar>cos (2 * quarter)\<bar> = \<bar>sin (2 * (pi / 4 - quarter))\<bar>" by (simp add: sin_diff)
  also have "\<dots> \<le> \<bar>2 * (pi / 4 - quarter)\<bar>" by (rule abs_sin_x_le_abs_x)
  also have "\<dots> = 2 * \<bar>quarter - pi / 4\<bar>" unfolding abs_mult by (simp only: abs_minus_commute abs_numeral)
  also have "\<dots> \<le> 2 * (2 / 10 ^ 6)" using quarter_near by (rule mult_left_mono) simp
  finally have c: "\<bar>cos (2 * quarter)\<bar> \<le> 4 / 10 ^ 6" by simp
  then show "cos (2 * quarter) \<le> 5 / 10 ^ 6" by linarith
  have "(cos (2 * quarter))\<^sup>2 \<le> (4 / 10 ^ 6)\<^sup>2" using power_mono [OF c, of 2] by simp
  then have s: "1 - 1 / 10 ^ 9 \<le> (sin (2 * quarter))\<^sup>2" by (simp add: sin_squared_eq power_divide)
  have "0 \<le> sin (2 * quarter)" using abs_le_D1 [OF quarter_near] pi_ge_two by (intro sin_ge_zero) auto
  then have "(sin (2 * quarter))\<^sup>2 \<le> sin (2 * quarter)" unfolding power2_eq_square by (intro mult_left_le) simp_all
  with s show "1 - 1 / 10 ^ 9 \<le> sin (2 * quarter)" by linarith
qed

lemma close_one: "1 - e \<le> s \<Longrightarrow> s \<le> 1 \<Longrightarrow> e \<le> d \<Longrightarrow> \<bar>s - 1\<bar> \<le> (d :: real)"
  by linarith

lemma pan_axis:
  assumes "libm_ok L" "world_to_local (v3_sub s l) q = (Fin x, Fin 0, z)"
    "repr F64 (x * x)" "repr F64 \<bar>x\<bar>" "1 \<le> \<bar>x\<bar>" "\<bar>x\<bar> \<le> 1000"
  shows "\<exists>wl wr. pan_weights L s l q = (Fin wl, Fin wr) \<and>
    (0 < x \<longrightarrow> \<bar>wl\<bar> \<le> 1 / 10 ^ 5 \<and> \<bar>wr - 1\<bar> \<le> 1 / 10 ^ 5) \<and> (x < 0 \<longrightarrow> \<bar>wl - 1\<bar> \<le> 1 / 10 ^ 5 \<and> \<bar>wr\<bar> \<le> 1 / 10 ^ 5)"
proof -
  let ?t = "if 0 < x then 2 * quarter else 0"
  have x: "x \<noteq> 0" using assms(5) by auto
  have h: "rnd F64 (2 * quarter) = Fin (2 * quarter)"
    using repr_half_turn by (rule rnd_repr) (rule order_trans [of _ 2], simp_all)
  have a: "fmul F64 (fadd F64 (lateral_of (Fin x) (Fin 0)) (Fin 1)) FRAC_PI_4 = Fin ?t"
    unfolding lateral_axis [OF assms(3-6)] using x h by (auto simp: FRAC_PI_4_value sgn_if rnd_repr)
  have t: "0 \<le> ?t" "?t \<le> 2" by simp_all
  obtain wl wr where w: "pan_weights L s l q = (Fin wl, Fin wr)" "\<bar>wl - cos ?t\<bar> \<le> 1 / 2 ^ 21" "\<bar>wr - sin ?t\<bar> \<le> 1 / 2 ^ 21"
    using pan_angle [OF assms(1,2) a t] by blast
  have near: "\<bar>w - k\<bar> \<le> 1 / 10 ^ 5" if "\<bar>w - c\<bar> \<le> 1 / 2 ^ 21" "\<bar>c - k\<bar> \<le> 5 / 10 ^ 6" for w c k :: real
  proof -
    have e: "1 / 2 ^ 21 + 5 / 10 ^ 6 \<le> (1 / 10 ^ 5 :: real)" by simp
    have "\<bar>w - k\<bar> \<le> \<bar>w - c\<bar> + \<bar>c - k\<bar>" by simp
    then show ?thesis using that e by linarith
  qed
  have r: "\<bar>cos (2 * quarter) - 0\<bar> \<le> 5 / 10 ^ 6" using sin_half_turn(2) cos_barely_negative [of "2 * quarter"] by (intro abs_leI) simp_all
  have s: "\<bar>sin (2 * quarter) - 1\<bar> \<le> 5 / 10 ^ 6" by (rule close_one [OF sin_half_turn(1) sin_le_one]) simp
  show ?thesis
  proof (cases "0 < x")
    case True
    then show ?thesis using w(1) near [OF w(2), of 0] near [OF w(3), of 1] r s by auto
  next
    case False
    then show ?thesis using w(1) near [OF w(2), of 1] near [OF w(3), of 0] by auto
  qed
qed

lemma pan_heading:
  assumes "libm_ok L" "\<bar>sx - lx\<bar> \<le> 128" "\<bar>sy - ly\<bar> \<le> 128" "\<bar>sz - lz\<bar> \<le> 128"
  shows "\<exists>nl nr sl sr. pan_weights L (Fin sx, Fin sy, Fin sz) (Fin lx, Fin ly, Fin lz) north = (Fin nl, Fin nr) \<and>
    pan_weights L (Fin sx, Fin sy, Fin sz) (Fin lx, Fin ly, Fin lz) south = (Fin sl, Fin sr) \<and>
    (1 \<le> sx - lx \<longrightarrow> nl + 1 / 2000 \<le> nr \<and> sr + 1 / 2000 \<le> sl) \<and>
    (sx - lx \<le> - 1 \<longrightarrow> nr + 1 / 2000 \<le> nl \<and> sl + 1 / 2000 \<le> sr) \<and>
    (sx = lx \<longrightarrow> \<bar>nl - nr\<bar> \<le> 3 / 10 ^ 6 \<and> \<bar>sl - sr\<bar> \<le> 3 / 10 ^ 6)"
proof -
  obtain x where x: "fsub F64 (Fin sx) (Fin lx) = Fin x" "repr F64 x" "\<bar>x\<bar> \<le> 128"
    "1 \<le> sx - lx \<longrightarrow> 1 \<le> x" "sx - lx \<le> - 1 \<longrightarrow> x \<le> - 1" "sx = lx \<longrightarrow> x = 0" using sub_near [OF assms(2)] by blast
  obtain y where y: "fsub F64 (Fin sy) (Fin ly) = Fin y" "repr F64 y" "\<bar>y\<bar> \<le> 128" using sub_near [OF assms(3)] by blast
  obtain z where z: "fsub F64 (Fin sz) (Fin lz) = Fin z" "repr F64 z" "\<bar>z\<bar> \<le> 128" using sub_near [OF assms(4)] by blast
  let ?s = "(Fin sx, Fin sy, Fin sz)" and ?l = "(Fin lx, Fin ly, Fin lz)"
  have sub: "v3_sub ?s ?l = (Fin x, Fin y, Fin z)" by (simp add: v3_sub_def x y z)
  have f: "world_to_local (v3_sub ?s ?l) north = (Fin x, Fin y, Fin z)" "world_to_local (v3_sub ?s ?l) south = (Fin (- x), Fin (- y), Fin z)"
    unfolding sub using facing [OF x(2) y(2) z(2) x(3) y(3) z(3)] by simp_all
  obtain nl nr where n: "pan_weights L ?s ?l north = (Fin nl, Fin nr)" "1 \<le> x \<longrightarrow> nl + 1 / 2000 \<le> nr"
    "x \<le> - 1 \<longrightarrow> nr + 1 / 2000 \<le> nl" "x = 0 \<longrightarrow> \<bar>nl - nr\<bar> \<le> 3 / 10 ^ 6"
    using pan_side [OF assms(1) f(1) x(3) y(3)] by blast
  have m: "\<bar>- x\<bar> \<le> 128" "\<bar>- y\<bar> \<le> 128" using x(3) y(3) by simp_all
  obtain sl sr where s: "pan_weights L ?s ?l south = (Fin sl, Fin sr)" "1 \<le> - x \<longrightarrow> sl + 1 / 2000 \<le> sr"
    "- x \<le> - 1 \<longrightarrow> sr + 1 / 2000 \<le> sl" "- x = 0 \<longrightarrow> \<bar>sl - sr\<bar> \<le> 3 / 10 ^ 6"
    using pan_side [OF assms(1) f(2) m] by blast
  have s': "1 \<le> x \<longrightarrow> sr + 1 / 2000 \<le> sl" "x \<le> - 1 \<longrightarrow> sl + 1 / 2000 \<le> sr" "x = 0 \<longrightarrow> \<bar>sl - sr\<bar> \<le> 3 / 10 ^ 6"
    using s(2-4) by simp_all
  show ?thesis
    by (rule exI [of _ nl], rule exI [of _ nr], rule exI [of _ sl], rule exI [of _ sr])
      (intro conjI impI n(1) s(1) n(2) [THEN mp] n(3) [THEN mp] n(4) [THEN mp] s'(1) [THEN mp] s'(2) [THEN mp] s'(3) [THEN mp]
        x(4) [THEN mp] x(5) [THEN mp] x(6) [THEN mp])
qed

text \<open>C12. A speaker is heard where it stands, relative to the listener's head: for a listener who faces north, a
  speaker at least a metre further east is louder on the right and one at least a metre further west on
  the left, by more than a two-thousandth of full weight; when the listener turns round to face south the
  sides swap; and a speaker due north or due south is centred within 3 * 10^-6. This holds for every offset up to
  128 m per axis, at any height; of a speaker less than a metre off the north-south line it says nothing.\<close>

theorem pan_follows_head:
  assumes "libm_ok L" "\<bar>sx - lx\<bar> \<le> 128" "\<bar>sy - ly\<bar> \<le> 128" "\<bar>sz - lz\<bar> \<le> 128"
  shows "\<exists>nl nr sl sr. pan_weights L (Fin sx, Fin sy, Fin sz) (Fin lx, Fin ly, Fin lz) north = (Fin nl, Fin nr) \<and>
    pan_weights L (Fin sx, Fin sy, Fin sz) (Fin lx, Fin ly, Fin lz) south = (Fin sl, Fin sr) \<and>
    (1 \<le> sx - lx \<longrightarrow> nl + 1 / 2000 \<le> nr \<and> sr + 1 / 2000 \<le> sl) \<and>
    (sx - lx \<le> - 1 \<longrightarrow> nr + 1 / 2000 \<le> nl \<and> sl + 1 / 2000 \<le> sr) \<and>
    (sx = lx \<longrightarrow> \<bar>nl - nr\<bar> \<le> 3 / 10 ^ 6 \<and> \<bar>sl - sr\<bar> \<le> 3 / 10 ^ 6)"
  using assms by (rule pan_heading)

lemma pan_follows_head_witness:
  "\<exists>nl nr. pan_weights exact_libm (Fin 10, Fin 0, Fin 0) (Fin 0, Fin 0, Fin 0) north = (Fin nl, Fin nr) \<and> nl + 1 / 2000 \<le> nr"
proof -
  have d: "\<bar>10 - 0\<bar> \<le> (128 :: real)" "\<bar>0 - 0\<bar> \<le> (128 :: real)" by simp_all
  from pan_follows_head [OF exact_libm_ok d(1) d(2) d(2)] show ?thesis by force
qed

end
