(* ===== verification/Two_Clients.thy ===== *)
theory Two_Clients
  imports Delivery
begin

text \<open>
  \<open>src/examples/two_clients.rs\<close>: the end-to-end test, two synthetic viewers against a running service.
  The client side of the protocol is modelled like the service's: bring-up, the JSON-RPC envelopes, the
  observations its handlers make, the control messages, the tone, and the verdict of \<open>main\<close>. Composing
  it with the model of the service gives the properties of a whole exchange.
\<close>

section \<open>What a client observes\<close>

record observed =
  ob_connected :: bool
  ob_data_channel_open :: bool
  ob_gathered :: bool
  ob_rtp_packets :: u32
  ob_rtp_audible :: u32
  ob_roster_msgs :: u32
  ob_saw_leave :: bool

definition observed_default :: observed where
  "observed_default =
     \<lparr>ob_connected = False, ob_data_channel_open = False, ob_gathered = False, ob_rtp_packets = 0,
      ob_rtp_audible = 0, ob_roster_msgs = 0, ob_saw_leave = False\<rparr>"

definition on_gathering :: "gathering_state \<Rightarrow> observed \<Rightarrow> observed" where
  "on_gathering st ob = (if st = GatherComplete then ob\<lparr>ob_gathered := True\<rparr> else ob)"

definition on_connection :: "connection_state \<Rightarrow> observed \<Rightarrow> observed" where
  "on_connection st ob = (if st = CConnected then ob\<lparr>ob_connected := True\<rparr> else ob)"

text \<open>\<open>fetch_add\<close> wraps.\<close>

definition on_rtp :: "track_event \<Rightarrow> observed \<Rightarrow> observed" where
  "on_rtp evt ob =
     (case evt of
        OnRtpPacket payload \<Rightarrow>
          (let ob = ob\<lparr>ob_rtp_packets := ob_rtp_packets ob + 1\<rparr>
           in if 10 < length payload then ob\<lparr>ob_rtp_audible := ob_rtp_audible ob + 1\<rparr> else ob)
      | OtherTrackEvent \<Rightarrow> ob)"

text \<open>A message carries its text when it is UTF-8.\<close>

datatype watch_event = WOpen | WMessage "string option" | WClose | WOther

definition LEAVE_FLAG :: string where "LEAVE_FLAG = [CHR 0x22, CHR ''l'', CHR 0x22] @ '':true''"

definition on_message :: "string option \<Rightarrow> observed \<Rightarrow> observed" where
  "on_message text ob =
     (let ob = ob\<lparr>ob_roster_msgs := ob_roster_msgs ob + 1\<rparr>
      in case text of
           None \<Rightarrow> ob
         | Some s \<Rightarrow> if contains s LEAVE_FLAG then ob\<lparr>ob_saw_leave := True\<rparr> else ob)"

fun watch_channel :: "watch_event list \<Rightarrow> observed \<Rightarrow> observed" where
  "watch_channel [] ob = ob"
| "watch_channel (evt # evts) ob =
     (case evt of
        WOpen \<Rightarrow> watch_channel evts (ob\<lparr>ob_data_channel_open := True\<rparr>)
      | WMessage text \<Rightarrow> watch_channel evts (on_message text ob)
      | WClose \<Rightarrow> ob
      | WOther \<Rightarrow> watch_channel evts ob)"

section \<open>Bring-up\<close>

definition opus_params :: "string \<Rightarrow> u8 \<Rightarrow> rtp_codec \<times> u8" where
  "opus_params mime_type_opus pt =
     (\<lparr>cd_mime_type = mime_type_opus, cd_clock_rate = 48000, cd_channels = 2,
       cd_fmtp_line = ''minptime=10;useinbandfec=1''\<rparr>, pt)"

text \<open>\<open>splitn(2, c)\<close>: the first piece, and the rest if there is one.\<close>

definition splitn2 :: "char \<Rightarrow> string \<Rightarrow> string \<times> string option" where
  "splitn2 c s = (takeWhile (\<lambda>x. x \<noteq> c) s,
     (case dropWhile (\<lambda>x. x \<noteq> c) s of [] \<Rightarrow> None | _ # rest \<Rightarrow> Some rest))"

fun opus_pt_scan :: "string list \<Rightarrow> u8 option" where
  "opus_pt_scan [] = None"
| "opus_pt_scan (line # ls) =
     (case strip_prefix (trim line) ''a=rtpmap:'' of
        None \<Rightarrow> opus_pt_scan ls
      | Some rest \<Rightarrow>
          (case splitn2 (CHR '' '') rest of
             (pt, None) \<Rightarrow> None
           | (pt, Some codec) \<Rightarrow>
               if prefix ''opus/'' (to_ascii_lowercase codec) then parse_u8 pt else opus_pt_scan ls))"

definition opus_pt_from_sdp :: "string \<Rightarrow> u8 option" where
  "opus_pt_from_sdp sdp = opus_pt_scan (lines sdp)"

text \<open>In Rust \<open><<\<close> binds more tightly than \<open>^\<close>.\<close>

definition client_ssrc :: "string \<Rightarrow> string \<Rightarrow> u32" where
  "client_ssrc name agent_id =
     Bit_Operations.xor (Bit_Operations.xor 0x5EED0000 (of_nat (length name))) (push_bit 8 (of_nat (length agent_id)))"

definition provision_body :: "string \<Rightarrow> json" where
  "provision_body sdp =
     json_obj [(''jsep'', json_obj [(''type'', JStr ''offer''), (''sdp'', JStr sdp)]),
       (''channel_type'', JStr ''local''), (''voice_server_type'', JStr ''webrtc''),
       (''parcel_local_id'', JNum (PosInt 0))]"

definition envelope :: "string \<Rightarrow> json \<Rightarrow> string \<Rightarrow> string \<Rightarrow> json" where
  "envelope rpc_id request user_id scene =
     json_obj [(''jsonrpc'', JStr ''2.0''), (''id'', JStr rpc_id), (''method'', JStr ''provision_voice_account_request''),
       (''params'', json_obj [(''request'', request), (''userID'', JStr user_id), (''scene'', JStr scene)])]"

definition provision_envelope :: "string \<Rightarrow> string \<Rightarrow> string \<Rightarrow> string \<Rightarrow> json" where
  "provision_envelope name agent_id scene sdp = envelope (''test-'' @ name) (provision_body sdp) agent_id scene"

text \<open>The WebRTC stack and the HTTP client on the client's side. The local description is read after a
  number of polls.\<close>

record client_rtc =
  y_mime_opus :: string
  y_register_codec :: "rtp_codec \<Rightarrow> u8 \<Rightarrow> (string, unit) result"
  y_interceptors :: "(string, unit) result"
  y_track :: "string \<Rightarrow> string \<Rightarrow> u32 \<Rightarrow> rtp_codec \<Rightarrow> (string, unit) result"
  y_build :: "string \<Rightarrow> (string, unit) result"
  y_add_track :: "(string, unit) result"
  y_create_data_channel :: "string \<Rightarrow> (string, unit) result"
  y_create_offer :: "(string, unit) result"
  y_set_local :: "(string, unit) result"
  y_gathered :: "nat \<Rightarrow> bool"
  y_local_description :: "nat \<Rightarrow> string option"
  y_http_client :: "(string, unit) result"
  y_parse_answer :: "string \<Rightarrow> (string, unit) result"
  y_set_remote :: "(string, unit) result"

record client =
  cl_ssrc :: u32
  cl_pt :: u8
  cl_session :: string

text \<open>The three waiting loops of the harness: the number of polls that failed before the condition held,
  at most \<open>n\<close>.\<close>

fun polls :: "nat \<Rightarrow> (nat \<Rightarrow> bool) \<Rightarrow> nat \<Rightarrow> nat" where
  "polls 0 p i = i"
| "polls (Suc n) p i = (if p i then i else polls n p (Suc i))"

definition client_offer :: "client_rtc \<Rightarrow> string \<Rightarrow> string \<Rightarrow> (string, u32 \<times> string) result" where
  "client_offer Y name agent_id =
     (let (codec, pt) = opus_params (y_mime_opus Y) 111; ssrc = client_ssrc name agent_id
      in res_bind (y_register_codec Y codec pt) (\<lambda>_.
         res_bind (y_interceptors Y) (\<lambda>_.
         res_bind (y_track Y (''test-'' @ name) (''test-track-'' @ name) ssrc codec) (\<lambda>_.
         res_bind (y_build Y ''0.0.0.0:0'') (\<lambda>_.
         res_bind (y_add_track Y) (\<lambda>_.
         res_bind (y_create_data_channel Y ''SLData'') (\<lambda>_.
         res_bind (y_create_offer Y) (\<lambda>_.
         res_bind (y_set_local Y) (\<lambda>_.
         res_bind (ok_or (y_local_description Y (polls 100 (y_gathered Y) 0)) ''no local description'') (\<lambda>sdp.
         res_bind (y_http_client Y) (\<lambda>_.
         Inr (ssrc, sdp))))))))))))"

definition client_of_reply :: "(json \<Rightarrow> string) \<Rightarrow> client_rtc \<Rightarrow> u32 \<Rightarrow> json \<Rightarrow> (string, client) result" where
  "client_of_reply shw Y ssrc resp =
     (case jget resp ''error'' of
        Some err \<Rightarrow> Inl (''provision failed: '' @ shw err)
      | None \<Rightarrow>
          res_bind (ok_or (jget resp ''result'') (''no result in '' @ shw resp)) (\<lambda>result.
          res_bind (ok_or (Option.bind (jget result ''viewer_session'') as_str) ''no viewer_session'') (\<lambda>session.
          res_bind (ok_or (Option.bind (Option.bind (jget result ''jsep'') (\<lambda>j. jget j ''sdp'')) as_str) ''no answer sdp'') (\<lambda>sdp.
          let pt = unwrap_or (opus_pt_from_sdp sdp) 111
          in res_bind (y_parse_answer Y sdp) (\<lambda>_.
             res_bind (y_set_remote Y) (\<lambda>_.
             Inr \<lparr>cl_ssrc = ssrc, cl_pt = pt, cl_session = session\<rparr>))))))"

text \<open>The server is a function of its state: \<open>None\<close> would be a request that is never answered.\<close>

type_synonym 's server = "json \<Rightarrow> 's \<Rightarrow> ((string, json) result \<times> 's) option"

definition build_client ::
    "(json \<Rightarrow> string) \<Rightarrow> client_rtc \<Rightarrow> 's server \<Rightarrow> string \<Rightarrow> string \<Rightarrow> string \<Rightarrow> 's
       \<Rightarrow> ((string, client) result \<times> 's) option" where
  "build_client shw Y post name agent_id scene s =
     (case client_offer Y name agent_id of
        Inl e \<Rightarrow> Some (Inl e, s)
      | Inr (ssrc, sdp) \<Rightarrow>
          map_option (\<lambda>(r, s). (res_bind r (client_of_reply shw Y ssrc), s))
            (post (provision_envelope name agent_id scene sdp) s))"

section \<open>Speaking\<close>

text \<open>\<open>as i64\<close>: truncation towards zero, saturating, NaN to zero; and an \<open>i64\<close> as a JSON number.\<close>

definition trunc0 :: "real \<Rightarrow> int" where
  "trunc0 x = (if x < 0 then \<lceil>x\<rceil> else \<lfloor>x\<rfloor>)"

definition fp_as_i64 :: "fp \<Rightarrow> int" where
  "fp_as_i64 a =
     (case a of FNaN \<Rightarrow> 0 | FInf s \<Rightarrow> (if s then - (2 ^ 63) else 2 ^ 63 - 1)
      | Fin x \<Rightarrow> max (- (2 ^ 63)) (min (2 ^ 63 - 1) (trunc0 x)))"

definition json_i64 :: "int \<Rightarrow> json" where
  "json_i64 i = (if i < 0 then JNum (NegInt (of_int i)) else JNum (PosInt (of_int i)))"

definition scaled :: "fp \<Rightarrow> json" where
  "scaled v = json_i64 (fp_as_i64 (fmul F64 v (Fin 100)))"

text \<open>The literal \<open>{"j":{"p":true}}\<close>, a raw string of the source.\<close>

definition JOIN_TEXT :: string where
  "JOIN_TEXT = ''{'' @ [CHR 0x22, CHR ''j'', CHR 0x22] @ '':{'' @ [CHR 0x22, CHR ''p'', CHR 0x22] @ '':true}}''"

definition announce_value :: "fp \<times> fp \<times> fp \<Rightarrow> json" where
  "announce_value pos =
     (case pos of (x, y, z) \<Rightarrow>
       let p = json_obj [(''x'', scaled x), (''y'', scaled y), (''z'', scaled z)];
           h = json_obj [(''x'', JNum (PosInt 0)), (''y'', JNum (PosInt 0)), (''z'', JNum (PosInt 0)), (''w'', JNum (PosInt 100))]
       in json_obj [(''sp'', p), (''sh'', h), (''lp'', p), (''lh'', h)])"

text \<open>Both texts are sent, the second only when the first could be.\<close>

definition announce ::
    "(json \<Rightarrow> string) \<Rightarrow> (string \<Rightarrow> (string, unit) result) \<Rightarrow> fp \<times> fp \<times> fp \<Rightarrow> string list \<times> (string, unit) result" where
  "announce ser send_text pos =
     (case send_text JOIN_TEXT of
        Inl e \<Rightarrow> ([], Inl e)
      | Inr _ \<Rightarrow>
          (let msg = ser (announce_value pos)
           in case send_text msg of Inl e \<Rightarrow> ([JOIN_TEXT], Inl e) | Inr _ \<Rightarrow> ([JOIN_TEXT, msg], Inr ())))"

definition PI32 :: fp where "PI32 = rnd F32 (314159265358979323846264338327950288 / 10 ^ 35)"

definition tone_step :: fp where
  "tone_step = fdiv F32 (fmul F32 (fmul F32 (Fin 2) PI32) (Fin 440)) (Fin 48000)"

fun tone :: "libm \<Rightarrow> nat \<Rightarrow> fp \<Rightarrow> fp list \<times> fp" where
  "tone L 0 phase = ([], phase)"
| "tone L (Suc n) phase =
     (let (xs, p) = tone L n (fadd F32 phase tone_step)
      in (fmul F32 (m_sin L phase) (Fin (1 / 2)) # xs, p))"

text \<open>The packets written, and the result: an encoder or a write that fails ends the loop.\<close>

fun speak_loop ::
    "libm \<Rightarrow> 'e encode \<Rightarrow> (packet \<Rightarrow> (string, unit) result) \<Rightarrow> u32 \<Rightarrow> u8 \<Rightarrow> nat \<Rightarrow> 'e \<Rightarrow> fp \<Rightarrow> u32
       \<Rightarrow> packet list \<times> (string, unit) result" where
  "speak_loop L enc wr ssrc pt 0 st phase ts = ([], Inr ())"
| "speak_loop L enc wr ssrc pt (Suc frames) st phase ts =
     (let (pcm, phase) = tone L 960 phase; (st, r) = enc st pcm
      in case r of
           Inl e \<Rightarrow> ([], Inl e)
         | Inr buf \<Rightarrow>
             (let sample = \<lparr>pk_ssrc = ssrc, pk_pt = pt, pk_timestamp = ts, pk_duration_ms = 20, pk_data = buf\<rparr>
              in case wr sample of
                   Inl e \<Rightarrow> ([], Inl e)
                 | Inr _ \<Rightarrow> (let (ps, r) = speak_loop L enc wr ssrc pt frames st phase (ts + 960) in (sample # ps, r))))"

definition speak ::
    "libm \<Rightarrow> (string, 'e) result \<Rightarrow> 'e encode \<Rightarrow> (packet \<Rightarrow> (string, unit) result) \<Rightarrow> client \<Rightarrow> nat
       \<Rightarrow> packet list \<times> (string, unit) result" where
  "speak L encoder enc wr cl frames =
     (case encoder of
        Inl e \<Rightarrow> ([], Inl e)
      | Inr st \<Rightarrow> speak_loop L enc wr (cl_ssrc cl) (cl_pt cl) frames st (Fin 0) 0)"

section \<open>The test run\<close>

datatype client_event =
    Gather gathering_state
  | Connection connection_state
  | Track track_event
  | Watch watch_event

text \<open>The flag says that the task reading the data channel still runs.\<close>

definition observe :: "client_event \<Rightarrow> bool \<times> observed \<Rightarrow> bool \<times> observed" where
  "observe e st =
     (case st of (reading, ob) \<Rightarrow>
        (case e of
           Gather s \<Rightarrow> (reading, on_gathering s ob)
         | Connection s \<Rightarrow> (reading, on_connection s ob)
         | Track evt \<Rightarrow> (reading, on_rtp evt ob)
         | Watch evt \<Rightarrow> if reading then (evt \<noteq> WClose, watch_channel [evt] ob) else st))"

definition observes :: "client_event list \<Rightarrow> bool \<times> observed \<Rightarrow> bool \<times> observed" where
  "observes evs st = fold observe evs st"

text \<open>What the state is at poll \<open>i\<close> when \<open>f j\<close> arrives before poll \<open>j\<close>.\<close>

definition at_poll :: "(nat \<Rightarrow> client_event list) \<Rightarrow> bool \<times> observed \<Rightarrow> nat \<Rightarrow> bool \<times> observed" where
  "at_poll f st i = observes (concat (map f [0..<Suc i])) st"

text \<open>What happens around \<open>main\<close>: the results of its calls, and what the clients' handlers receive between
  its steps.\<close>

record harness_run =
  hr_a :: "(string, client) result"
  hr_b :: "(string, client) result"
  hr_poll_a :: "nat \<Rightarrow> client_event list"
  hr_poll_b :: "nat \<Rightarrow> client_event list"
  hr_announce_a :: "(string, unit) result"
  hr_announce_b :: "(string, unit) result"
  hr_settle :: "client_event list"
  hr_speak :: "(string, unit) result"
  hr_talk :: "client_event list"
  hr_gap :: "client_event list"
  hr_logout :: "(string, unit) result"
  hr_leave :: "nat \<Rightarrow> client_event list"

definition logout_envelope :: "string \<Rightarrow> string \<Rightarrow> string \<Rightarrow> json" where
  "logout_envelope session user_id scene =
     envelope ''test-logout''
       (json_obj [(''logout'', JBool True), (''viewer_session'', JStr session), (''voice_server_type'', JStr ''webrtc'')])
       user_id scene"

definition up :: "bool \<times> observed \<Rightarrow> bool" where
  "up st \<longleftrightarrow> ob_connected (snd st) \<and> ob_data_channel_open (snd st)"

definition main_verdict :: "harness_run \<Rightarrow> (string, unit) result" where
  "main_verdict r =
     res_bind (hr_a r) (\<lambda>_. res_bind (hr_b r) (\<lambda>_.
     let start = (True, observed_default);
         n = polls 120 (\<lambda>i. up (at_poll (hr_poll_a r) start i) \<and> up (at_poll (hr_poll_b r) start i)) 0
     in if n = 120 then Inl ''clients did not both connect with an open data channel''
        else res_bind (hr_announce_a r) (\<lambda>_. res_bind (hr_announce_b r) (\<lambda>_.
          let b = observes (hr_settle r) (at_poll (hr_poll_b r) start n); before = ob_rtp_audible (snd b)
          in res_bind (hr_speak r) (\<lambda>_.
            let b = observes (hr_talk r) b; after = ob_rtp_audible (snd b); verdict_audio = before < after;
                b = observes (hr_gap r) b; b = (fst b, (snd b)\<lparr>ob_saw_leave := False\<rparr>)
            in res_bind (hr_logout r) (\<lambda>_.
              let verdict_leave = polls 40 (\<lambda>i. ob_saw_leave (snd (at_poll (hr_leave r) b i))) 0 < 40
              in if \<not> verdict_audio then Inl ''B never received audible mixed audio while A was speaking''
                 else if \<not> verdict_leave then Inl ''B was never told that A left''
                 else Inr ()))))))"

section \<open>The client reads the payload type as the service does\<close>

lemma split_once_splitn2:
  "split_once c s = (case splitn2 c s of (a, None) \<Rightarrow> None | (a, Some b) \<Rightarrow> Some (a, b))"
  by (induction s) (auto simp: splitn2_def split: list.split)

lemma opus_pt_agrees: "opus_pt_from_sdp sdp = negotiated_opus_pt sdp"
proof -
  have "opus_pt_scan ls = opus_pt_lines ls" for ls
    by (induction ls) (auto simp: split_once_splitn2 split: option.split prod.split)
  then show ?thesis by (simp add: opus_pt_from_sdp_def negotiated_opus_pt_def)
qed

section \<open>The verdict is earned\<close>

lemma polls_found:
  assumes "polls n p i < i + n" shows "i \<le> polls n p i" "p (polls n p i)"
  using assms by (induction n p i rule: polls.induct) (auto split: if_splits)

lemma polls_first: "0 < n \<Longrightarrow> p i \<Longrightarrow> polls n p i = i"
  by (cases n) simp_all

lemma at_poll_0: "at_poll f st 0 = observes (f 0) st"
  by (simp add: at_poll_def)

lemma polls_le: "polls n p i \<le> i + n"
  by (induction n p i rule: polls.induct) auto

lemma watch_one_audible: "ob_rtp_audible (watch_channel [evt] ob) = ob_rtp_audible ob"
  by (auto simp: on_message_def Let_def split: watch_event.split option.split)

lemma observe_audible:
  "ob_rtp_audible (snd (observe e st)) \<noteq> ob_rtp_audible (snd st) \<Longrightarrow> \<exists>p. e = Track (OnRtpPacket p) \<and> 10 < length p"
  by (cases st) (auto simp: observe_def on_gathering_def on_connection_def on_rtp_def Let_def watch_one_audible
    simp del: watch_channel.simps split: client_event.splits if_splits track_event.splits)

lemma observes_audible:
  "ob_rtp_audible (snd (observes evs st)) \<noteq> ob_rtp_audible (snd st) \<Longrightarrow>
     \<exists>p. Track (OnRtpPacket p) \<in> set evs \<and> 10 < length p"
proof (induction evs arbitrary: st)
  case (Cons e evs)
  show ?case
  proof (cases "ob_rtp_audible (snd (observe e st)) = ob_rtp_audible (snd st)")
    case True
    then have "ob_rtp_audible (snd (observes evs (observe e st))) \<noteq> ob_rtp_audible (snd (observe e st))"
      using Cons.prems by (simp add: observes_def)
    from Cons.IH [OF this] show ?thesis by auto
  next
    case False
    from observe_audible [OF this] show ?thesis by auto
  qed
qed (simp add: observes_def)

lemma observe_leave:
  "ob_saw_leave (snd (observe e st)) \<Longrightarrow> \<not> ob_saw_leave (snd st) \<Longrightarrow>
     \<exists>t. e = Watch (WMessage (Some t)) \<and> contains t LEAVE_FLAG"
  by (cases st) (auto simp: observe_def on_gathering_def on_connection_def on_rtp_def on_message_def Let_def
    split: client_event.splits if_splits track_event.splits watch_event.splits option.splits)

lemma observes_leave:
  "ob_saw_leave (snd (observes evs st)) \<Longrightarrow> \<not> ob_saw_leave (snd st) \<Longrightarrow>
     \<exists>t. Watch (WMessage (Some t)) \<in> set evs \<and> contains t LEAVE_FLAG"
proof (induction evs arbitrary: st)
  case (Cons e evs)
  show ?case
  proof (cases "ob_saw_leave (snd (observe e st))")
    case True
    from observe_leave [OF True Cons.prems(2)] show ?thesis by auto
  next
    case False
    from Cons.IH [OF _ False] Cons.prems(1) show ?thesis by (auto simp: observes_def)
  qed
qed (simp add: observes_def)

text \<open>The end-to-end test does not pass by accident: when it reports success, both clients were brought
  up, connected and had an open data channel at one of the first 120 polls; while A spoke B received a
  packet of more than ten bytes; and B received a text with the departure flag after its own flag had been
  reset, within 40 polls of A's logout.\<close>

theorem pass_is_earned:
  assumes "main_verdict r = Inr ()"
  shows "(\<exists>a b. hr_a r = Inr a \<and> hr_b r = Inr b) \<and>
    (\<exists>i < 120. up (at_poll (hr_poll_a r) (True, observed_default) i) \<and> up (at_poll (hr_poll_b r) (True, observed_default) i)) \<and>
    (\<exists>p. Track (OnRtpPacket p) \<in> set (hr_talk r) \<and> 10 < length p) \<and>
    (\<exists>i < 40. \<exists>t. Watch (WMessage (Some t)) \<in> set (hr_leave r i) \<and> contains t LEAVE_FLAG)"
proof -
  let ?s = "(True, observed_default)"
  let ?p = "\<lambda>i. up (at_poll (hr_poll_a r) ?s i) \<and> up (at_poll (hr_poll_b r) ?s i)"
  let ?b1 = "observes (hr_settle r) (at_poll (hr_poll_b r) ?s (polls 120 ?p 0))"
  let ?b2 = "observes (hr_talk r) ?b1"
  let ?b3 = "(fst (observes (hr_gap r) ?b2), (snd (observes (hr_gap r) ?b2))\<lparr>ob_saw_leave := False\<rparr>)"
  let ?q = "\<lambda>i. ob_saw_leave (snd (at_poll (hr_leave r) ?b3 i))"
  have m: "\<exists>a b. hr_a r = Inr a \<and> hr_b r = Inr b" "polls 120 ?p 0 \<noteq> 120"
    "ob_rtp_audible (snd ?b1) < ob_rtp_audible (snd ?b2)" "polls 40 ?q 0 < 40"
    using assms by (auto simp: main_verdict_def res_bind_def Let_def split: sum.splits if_splits)
  have "polls 120 ?p 0 < 0 + 120" using polls_le [of 120 ?p 0] m(2) by linarith
  from polls_found(2) [OF this] this have c: "\<exists>i < 120. ?p i" by auto
  from m(3) have "ob_rtp_audible (snd ?b2) \<noteq> ob_rtp_audible (snd ?b1)" by simp
  from observes_audible [OF this] have t: "\<exists>p. Track (OnRtpPacket p) \<in> set (hr_talk r) \<and> 10 < length p" .
  from m(4) have q: "polls 40 ?q 0 < 0 + 40" by simp
  have "ob_saw_leave (snd (observes (concat (map (hr_leave r) [0..<Suc (polls 40 ?q 0)])) ?b3))"
    using polls_found(2) [OF q] by (simp only: at_poll_def)
  from observes_leave [OF this] obtain u where "Watch (WMessage (Some u)) \<in> set (concat (map (hr_leave r) [0..<Suc (polls 40 ?q 0)]))"
    and u: "contains u LEAVE_FLAG" by auto
  then obtain i where i: "i < Suc (polls 40 ?q 0)" "Watch (WMessage (Some u)) \<in> set (hr_leave r i)"
    unfolding set_concat set_map by (auto simp del: upt_Suc)
  then have "i < 40" using m(4) by linarith
  then have "\<exists>i < 40. \<exists>t. Watch (WMessage (Some t)) \<in> set (hr_leave r i) \<and> contains t LEAVE_FLAG" using i(2) u by blast
  then show ?thesis using m(1) c t by blast
qed

lemma pass_is_earned_witness:
  "\<exists>r p. main_verdict r = Inr () \<and> Track (OnRtpPacket p) \<in> set (hr_talk r) \<and> 10 < length p"
proof -
  let ?up = "[Connection CConnected, Watch WOpen]"
  let ?r = "\<lparr>hr_a = Inr \<lparr>cl_ssrc = 1, cl_pt = 111, cl_session = ''wv-1''\<rparr>, hr_b = Inr \<lparr>cl_ssrc = 2, cl_pt = 111, cl_session = ''wv-2''\<rparr>,
    hr_poll_a = (\<lambda>i. if i = 0 then ?up else []), hr_poll_b = (\<lambda>i. if i = 0 then ?up else []),
    hr_announce_a = Inr (), hr_announce_b = Inr (), hr_settle = [], hr_speak = Inr (),
    hr_talk = [Track (OnRtpPacket (replicate 80 7))], hr_gap = [], hr_logout = Inr (),
    hr_leave = (\<lambda>i. if i = 0 then [Watch (WMessage (Some LEAVE_FLAG))] else [])\<rparr>"
  have l: "contains LEAVE_FLAG LEAVE_FLAG" by (simp add: LEAVE_FLAG_def)
  have u: "at_poll (hr_poll_a ?r) (True, observed_default) 0 =
      (True, observed_default\<lparr>ob_connected := True, ob_data_channel_open := True\<rparr>)"
    "at_poll (hr_poll_b ?r) (True, observed_default) 0 = (True, observed_default\<lparr>ob_connected := True, ob_data_channel_open := True\<rparr>)"
    by (simp_all add: at_poll_0 observes_def observe_def on_connection_def)
  have n: "polls 120 (\<lambda>i. up (at_poll (hr_poll_a ?r) (True, observed_default) i) \<and> up (at_poll (hr_poll_b ?r) (True, observed_default) i)) 0 = 0"
    by (rule polls_first) (simp_all only: u up_def, simp_all)
  have m: "polls 40 (\<lambda>i. ob_saw_leave (snd (at_poll (\<lambda>i. if i = 0 then [Watch (WMessage (Some LEAVE_FLAG))] else []) (True, ob) i))) 0 = 0" for ob
    by (rule polls_first) (simp_all add: at_poll_0 observes_def observe_def on_message_def l)
  have "main_verdict ?r = Inr ()"
    unfolding main_verdict_def Let_def n u
    by (simp add: res_bind_def observes_def observe_def on_rtp_def observed_default_def m)
  with pass_is_earned [OF this] show ?thesis by blast
qed

section \<open>What the service understands\<close>

text \<open>One coordinate on its way: scaled and truncated by the client, divided by the service.\<close>

definition received :: "fp \<Rightarrow> fp" where
  "received v = fdiv F64 (fp_of_int F64 (fp_as_i64 (fmul F64 v (Fin 100)))) (Fin 100)"

lemma json_i64_f64:
  assumes "- (2 ^ 63) \<le> i" "i < 2 ^ 63" shows "as_f64 (json_i64 i) = Some (fp_of_int F64 i)"
proof (cases "i < 0")
  case True
  have "sint (of_int i :: u64) = i" using assms by (simp add: sint_sbintrunc' signed_take_bit_int_eq_self)
  then show ?thesis using True by (simp add: json_i64_def)
next
  case False
  then have "uint (of_int i :: u64) = i" using assms by (simp add: uint_word_of_int take_bit_int_eq_self)
  then show ?thesis using False by (simp add: json_i64_def)
qed

lemma fp_as_i64_range: "- (2 ^ 63) \<le> fp_as_i64 a" "fp_as_i64 a < 2 ^ 63"
  by (auto simp: fp_as_i64_def split: fp.split)

lemma scaled_f64: "as_f64 (scaled v) = Some (fp_of_int F64 (fp_as_i64 (fmul F64 v (Fin 100))))"
  unfolding scaled_def by (rule json_i64_f64 [OF fp_as_i64_range])

lemma trunc0_near: "\<bar>of_int (trunc0 x) - x\<bar> < 1"
proof -
  have "\<bar>of_int \<lceil>x\<rceil> - x\<bar> < 1" "\<bar>of_int \<lfloor>x\<rfloor> - x\<bar> < 1" by linarith+
  then show ?thesis by (simp add: trunc0_def)
qed

lemma rnd_close:
  assumes "\<bar>x\<bar> \<le> 10 ^ 12"
  shows "rnd F64 x = Fin (rnd_real F64 x)" "\<bar>rnd_real F64 x - x\<bar> \<le> 1 / 5000"
proof -
  have "\<bar>x\<bar> \<le> 2 ^ 127" using assms by (rule order_trans) simp
  then show "rnd F64 x = Fin (rnd_real F64 x)" by (intro rnd_Fin small_maxfin)
  have "uu * \<bar>x\<bar> + ee \<le> uu * 10 ^ 12 + ee" using assms by simp
  also have "\<dots> \<le> 1 / 5000" by simp
  finally show "\<bar>rnd_real F64 x - x\<bar> \<le> 1 / 5000" using rnd_err [of x] by linarith
qed

lemma received_near:
  assumes "\<bar>x\<bar> \<le> 10 ^ 9"
  shows "\<exists>x'. received (Fin x) = Fin x' \<and> \<bar>x' - x\<bar> < 1 / 99"
proof -
  define y where "y = rnd_real F64 (x * 100)"
  have xm: "\<bar>x * 100\<bar> \<le> 10 ^ 11" using assms by (simp add: abs_mult)
  then have y: "fmul F64 (Fin x) (Fin 100) = Fin y" "\<bar>y - x * 100\<bar> \<le> 1 / 5000"
    using rnd_close [of "x * 100"] by (simp_all add: y_def)
  define n where "n = trunc0 y"
  have n: "\<bar>of_int n - y\<bar> < 1" unfolding n_def by (rule trunc0_near)
  have nm: "\<bar>real_of_int n\<bar> \<le> 10 ^ 11 + 2" using n y(2) xm by linarith
  then have ni: "- (10 ^ 11 + 2) \<le> n" "n \<le> 10 ^ 11 + 2" by (simp_all add: abs_le_iff)
  have i: "fp_as_i64 (Fin y) = n" using ni by (simp add: fp_as_i64_def n_def [symmetric])
  define r where "r = rnd_real F64 (of_int n)"
  have r: "fp_of_int F64 n = Fin r" "\<bar>r - of_int n\<bar> \<le> 1 / 5000"
    using rnd_close [of "of_int n"] nm by (simp_all add: r_def fp_of_int_def)
  have "\<bar>r\<bar> \<le> 10 ^ 11 + 3" using r(2) nm by linarith
  then have rm: "\<bar>r / 100\<bar> \<le> 10 ^ 9 + 1" by simp
  have q: "\<bar>rnd_real F64 (r / 100) - r / 100\<bar> \<le> uu * \<bar>r / 100\<bar> + ee" by (rule rnd_err)
  have "uu * \<bar>r / 100\<bar> + ee \<le> uu * (10 ^ 9 + 1) + ee" using rm by (intro add_right_mono mult_left_mono) auto
  also have "\<dots> \<le> 1 / 10 ^ 6" by simp
  finally have q: "\<bar>rnd_real F64 (r / 100) - r / 100\<bar> \<le> 1 / 10 ^ 6" using q by linarith
  have "\<bar>r - x * 100\<bar> \<le> 1 + 2 / 5000" using y(2) n r(2) by linarith
  moreover have "r / 100 - x = (r - x * 100) / 100" by simp
  ultimately have "\<bar>r / 100 - x\<bar> \<le> 5002 / 500000" by (simp only: abs_divide)
  with q have "\<bar>(rnd_real F64 (r / 100) - r / 100) + (r / 100 - x)\<bar> \<le> 1 / 10 ^ 6 + 5002 / 500000"
    by (intro order_trans [OF abs_triangle_ineq] add_mono)
  then have "\<bar>rnd_real F64 (r / 100) - x\<bar> \<le> 1 / 10 ^ 6 + 5002 / 500000" by simp
  then have "\<bar>rnd_real F64 (r / 100) - x\<bar> < 1 / 99" by (rule le_less_trans) simp
  moreover have "received (Fin x) = Fin (rnd_real F64 (r / 100))"
    unfolding received_def y(1) i r(1) using rnd_close(1) [of "r / 100"] rm by simp
  ultimately show ?thesis by blast
qed

lemma announce_parsed:
  "viewer_data_of_value (announce_value (x, y, z)) =
     viewer_data_default\<lparr>vd_avatar_pos := Some (received x, received y, received z), vd_avatar_rot := Some (Fin 0, Fin 0, Fin 0, Fin 1),
       vd_listener_pos := Some (received x, received y, received z), vd_listener_rot := Some (Fin 0, Fin 0, Fin 0, Fin 1)\<rparr>"
proof -
  have p: "parse_vec3 (json_obj [(''x'', scaled x), (''y'', scaled y), (''z'', scaled z)]) = Some (received x, received y, received z)"
    by (simp add: parse_vec3_def coord_def jget_json_obj scaled_f64 received_def POSITION_SCALE_def)
  have n: "fp_of_int F64 0 = Fin 0" "fp_of_int F64 100 = Fin 100" "rnd F64 0 = Fin 0" "rnd F64 1 = Fin 1"
    by (simp_all add: fp_of_int_def rnd_repr)
  have h: "parse_vec4 (json_obj [(''x'', JNum (PosInt 0)), (''y'', JNum (PosInt 0)), (''z'', JNum (PosInt 0)), (''w'', JNum (PosInt 100))]) =
      Some (Fin 0, Fin 0, Fin 0, Fin 1)"
    by (simp add: parse_vec4_def coord_def jget_json_obj POSITION_SCALE_def n)
  show ?thesis
    by (simp add: announce_value_def Let_def viewer_data_of_value_def jget_json_obj p h viewer_data_default_def)
qed

lemma tether_self:
  "tether (Fin x, Fin y, Fin z) (Fin x, Fin y, Fin z) = (Fin x, Fin y, Fin z)"
  by (simp add: tether_def v3_sub_def v3_norm_def fsub_def MAX_AUDIO_DIST_def rnd_repr Let_def)

text \<open>The parser of the JSON library reads the join text as its value and reads back what the printer
  printed.\<close>

definition reads_back :: "(string \<Rightarrow> (string, json) result) \<Rightarrow> (json \<Rightarrow> string) \<Rightarrow> json \<Rightarrow> bool" where
  "reads_back from_str ser v \<longleftrightarrow>
     from_str JOIN_TEXT = Inr (JObj [(''j'', JObj [(''p'', JBool True)])]) \<and> from_str (ser v) = Inr v"

text \<open>C37. What a viewer announces is what the service knows of it: when both of its texts can be sent, for a
  position of up to 10^9 m per axis, the session has joined as a primary participant, its avatar stands
  within a 99th of a metre of the announced point on every axis (the client truncates to centimetres), its
  ear is where the avatar is, and neither head is turned.\<close>

theorem announce_understood:
  assumes "reads_back from_str ser (announce_value (Fin x, Fin y, Fin z))"
    "\<bar>x\<bar> \<le> 10 ^ 9" "\<bar>y\<bar> \<le> 10 ^ 9" "\<bar>z\<bar> \<le> 10 ^ 9"
    "announce ser send (Fin x, Fin y, Fin z) = (msgs, Inr ())"
  shows "\<exists>x' y' z'. \<bar>x' - x\<bar> < 1 / 99 \<and> \<bar>y' - y\<bar> < 1 / 99 \<and> \<bar>z' - z\<bar> < 1 / 99 \<and>
    channel_loop from_str (map (\<lambda>t. OnMessage True (Some t)) msgs) s =
      s\<lparr>s_joined := True, s_primary := True,
        s_state := \<lparr>avatar_pos = (Fin x', Fin y', Fin z'), avatar_rot = (Fin 0, Fin 0, Fin 0, Fin 1),
          listener_pos = (Fin x', Fin y', Fin z'), listener_rot = (Fin 0, Fin 0, Fin 0, Fin 1), known = True\<rparr>\<rparr>"
proof -
  obtain x' y' z' where r: "received (Fin x) = Fin x'" "\<bar>x' - x\<bar> < 1 / 99" "received (Fin y) = Fin y'" "\<bar>y' - y\<bar> < 1 / 99"
    "received (Fin z) = Fin z'" "\<bar>z' - z\<bar> < 1 / 99" using received_near assms(2-4) by metis
  have t: "msgs = [JOIN_TEXT, ser (announce_value (Fin x, Fin y, Fin z))]"
    using assms(5) by (auto simp: announce_def Let_def split: sum.splits)
  have j: "viewer_data_of_value (JObj [(''j'', JObj [(''p'', JBool True)])]) = viewer_data_default\<lparr>vd_join := Some True\<rparr>"
    by (simp add: viewer_data_of_value_def viewer_data_default_def unwrap_or_def)
  have "channel_loop from_str (map (\<lambda>t. OnMessage True (Some t)) msgs) s =
      apply_data (viewer_data_of_value (announce_value (Fin x, Fin y, Fin z))) (apply_data (viewer_data_default\<lparr>vd_join := Some True\<rparr>) s)"
    using assms(1) by (simp add: t viewer_data_parse_def res_bind_def reads_back_def j)
  also have "\<dots> = s\<lparr>s_joined := True, s_primary := True,
        s_state := \<lparr>avatar_pos = (Fin x', Fin y', Fin z'), avatar_rot = (Fin 0, Fin 0, Fin 0, Fin 1),
          listener_pos = (Fin x', Fin y', Fin z'), listener_rot = (Fin 0, Fin 0, Fin 0, Fin 1), known = True\<rparr>\<rparr>"
    unfolding announce_parsed r
    by (simp add: apply_data_def Let_def apply_join_def viewer_data_default_def filter_message_def finite3_def finite4_def opt_filter_def
      apply_spatial_def apply_gains_def apply_mutes_def tether_self)
  finally show ?thesis using r by blast
qed

lemma announce_understood_witness:
  "\<exists>s' x' y' z'. channel_loop (\<lambda>t. Inr (if t = JOIN_TEXT then JObj [(''j'', JObj [(''p'', JBool True)])]
         else announce_value (Fin 1000, Fin 1000, Fin 25)))
       [OnMessage True (Some JOIN_TEXT), OnMessage True (Some ''m'')] (Session_new ''wv-1'' ''alice'' (Spatial ''region'' 0) True) = s' \<and>
     s_joined s' \<and> avatar_pos (s_state s') = (Fin x', Fin y', Fin z') \<and> \<bar>x' - 1000\<bar> < 1 / 99 \<and> \<bar>z' - 25\<bar> < 1 / 99"
proof -
  have n: "''m'' \<noteq> JOIN_TEXT" by (simp add: JOIN_TEXT_def)
  have r: "reads_back (\<lambda>t. Inr (if t = JOIN_TEXT then JObj [(''j'', JObj [(''p'', JBool True)])]
       else announce_value (Fin 1000, Fin 1000, Fin 25))) (\<lambda>_. ''m'') (announce_value (Fin 1000, Fin 1000, Fin 25))"
    using n by (simp add: reads_back_def)
  have a: "announce (\<lambda>_. ''m'') (\<lambda>_. Inr ()) (Fin 1000, Fin 1000, Fin 25) = ([JOIN_TEXT, ''m''], Inr ())"
    by (simp add: announce_def)
  have b: "\<bar>1000 :: real\<bar> \<le> 10 ^ 9" "\<bar>25 :: real\<bar> \<le> 10 ^ 9" by simp_all
  from announce_understood [OF r b(1) b(1) b(2) a, of "Session_new ''wv-1'' ''alice'' (Spatial ''region'' 0) True"]
  obtain x' y' z' where "\<bar>x' - 1000\<bar> < 1 / 99" "\<bar>z' - 25\<bar> < 1 / 99"
    and c: "channel_loop (\<lambda>t. Inr (if t = JOIN_TEXT then JObj [(''j'', JObj [(''p'', JBool True)])]
         else announce_value (Fin 1000, Fin 1000, Fin 25))) (map (\<lambda>t. OnMessage True (Some t)) [JOIN_TEXT, ''m''])
         (Session_new ''wv-1'' ''alice'' (Spatial ''region'' 0) True) =
      (Session_new ''wv-1'' ''alice'' (Spatial ''region'' 0) True)\<lparr>s_joined := True, s_primary := True,
        s_state := \<lparr>avatar_pos = (Fin x', Fin y', Fin z'), avatar_rot = (Fin 0, Fin 0, Fin 0, Fin 1),
          listener_pos = (Fin x', Fin y', Fin z'), listener_rot = (Fin 0, Fin 0, Fin 0, Fin 1), known = True\<rparr>\<rparr>" by blast
  then show ?thesis unfolding list.map c by fastforce
qed

section \<open>Client and service together\<close>

text \<open>The service as the client's server: a POST of the printed request; the reply is the value of the
  response's body.\<close>

definition http_service ::
    "(string \<Rightarrow> string) \<Rightarrow> (json \<Rightarrow> string) \<Rightarrow> (string \<Rightarrow> (string, rpc_request) result) \<Rightarrow> 'e rtc \<Rightarrow> string \<Rightarrow> 'e app server" where
  "http_service dbg ser from_slice X uuid v app =
     map_option (\<lambda>(r, app). (res_bind r (\<lambda>rs. ok_or (rs_body rs) ''empty body''), app))
       (handle dbg ser from_slice X uuid POST [Inr (ser v)] app)"

lemma service_provision:
  assumes "from_slice (ser v) = Inr \<lparr>rq_id = i, rq_method = METHOD_PROVISION, rq_params = params\<rparr>"
    "length (ser v) \<le> MAX_RPC_BODY" "provision dbg ser X uuid params app = Some (r, app')"
  shows "http_service dbg ser from_slice X uuid v app =
    Some (Inr (case r of Inr w \<Rightarrow> rpc_ok i w | Inl e \<Rightarrow> rpc_err i e), app')"
  using assms by (auto simp: http_service_def handle_def rpc_response_def rpc_dispatch_def json_200_def json_body_def res_bind_def
    ok_or_def split: sum.split)

lemma service_reachable:
  assumes "reachable app" "fresh uuid app" "length (ser v) \<le> MAX_RPC_BODY"
    "http_service dbg ser from_slice X uuid v app = Some (r, app')"
  shows "reachable app'"
proof -
  from assms(3,4) obtain resp where "rpc_response dbg ser from_slice X uuid (ser v) app = Some (resp, app')"
    by (auto simp: http_service_def handle_def)
  then show ?thesis by (rule reachable.rpc [OF assms(1,2)])
qed

lemma provision_body_parse:
  "sdp \<noteq> '''' \<Longrightarrow> provision_parse dbg (provision_body sdp) =
     Inr \<lparr>pr_logout = False, pr_viewer_session = None, pr_offer_sdp = Some sdp, pr_channel_type = Some Local,
          pr_parcel_local_id = 0, pr_channel = None\<rparr>"
  by (simp add: provision_parse_def provision_body_def jget_str_def jget_json_obj channel_type_parse_def opt_filter_def unwrap_or_def
    res_bind_def eq_ignore_ascii_case_def VOICE_SERVER_TYPE_def Let_def)

lemma logout_body_parse:
  "provision_parse dbg (json_obj [(''logout'', JBool True), (''viewer_session'', JStr session), (''voice_server_type'', JStr ''webrtc'')]) =
     Inr \<lparr>pr_logout = True, pr_viewer_session = Some session, pr_offer_sdp = None, pr_channel_type = None,
          pr_parcel_local_id = 0, pr_channel = None\<rparr>"
  by (simp add: provision_parse_def jget_str_def jget_json_obj channel_type_parse_def opt_filter_def unwrap_or_def
    res_bind_def eq_ignore_ascii_case_def VOICE_SERVER_TYPE_def Let_def)

lemma establish_pt:
  "establish X counter a sid offer ip port = Some (Inr ep, k) \<Longrightarrow>
     \<exists>sdp. x_local_description X = Some sdp \<and> ep_out_pt ep = unwrap_or (negotiated_opus_pt sdp) 111"
  by (auto simp: establish_def res_bind_def map_err_def ok_or_def OPUS_PT_PREFERRED_def split: sum.splits option.splits prod.splits)

lemma provision_answer_fields:
  "Option.bind (jget (provision_answer sid sdp) ''viewer_session'') as_str = Some sid"
  "Option.bind (jget (provision_answer sid sdp) ''jsep'') (\<lambda>j. Option.bind (jget j ''sdp'') as_str) = Some sdp"
  by (simp_all add: provision_answer_def jget_json_obj)

text \<open>C10. Provisioning through the whole stack: the client's own request, printed, posted, parsed and dispatched
  by the service in any reachable state, is always answered; when the client then has a session it is the
  one the service registered, for the agent and the region the request named, with an endpoint, and client
  and service send with the same payload type (given that the answer read back is the local description);
  at 900 sessions the client reports the refusal and nothing has changed.\<close>

theorem client_registers:
  assumes "reachable app" "fresh uuid app" "\<And>i. 20 * i \<le> x_elapsed X i"
    and offer: "client_offer Y name agent = Inr (ssrc, sdp)" "sdp \<noteq> ''''"
    and reads: "from_slice (ser (provision_envelope name agent scene sdp)) =
      Inr \<lparr>rq_id = JStr (''test-'' @ name), rq_method = METHOD_PROVISION,
           rq_params = \<lparr>rp_request = provision_body sdp, rp_user_id = agent, rp_scene = scene\<rparr>\<rparr>"
    and len: "length (ser (provision_envelope name agent scene sdp)) \<le> MAX_RPC_BODY"
  shows "\<exists>r app'. build_client shw Y (http_service dbg ser from_slice X uuid) name agent scene app = Some (r, app') \<and> reachable app' \<and>
    (\<forall>cl. r = Inr cl \<longrightarrow> cl_ssrc cl = ssrc \<and> cl_session cl = ''wv-'' @ uuid \<and>
       (\<exists>a ep. hm_get (by_session (ap_sessions app')) (cl_session cl) = Some a \<and> s_agent_id (ap_store app' a) = agent \<and>
          s_room (ap_store app' a) = Spatial scene 0 \<and> \<not> s_closed (ap_store app' a) \<and>
          app_endpoint (cl_session cl) app' = Some ep \<and>
          (x_answer_sdp X = x_local_description X \<longrightarrow> cl_pt cl = ep_out_pt ep))) \<and>
    (900 \<le> session_count (ap_sessions app) \<longrightarrow>
       r = Inl (''provision failed: '' @ shw (JStr ''voice service is at capacity'')) \<and> app' = app)"
proof -
  let ?params = "\<lparr>rp_request = provision_body sdp, rp_user_id = agent, rp_scene = scene\<rparr>"
  let ?i = "JStr (''test-'' @ name)" and ?v = "provision_envelope name agent scene sdp"
  have ok: "app_ok app" using assms(1) by (rule reachable_ok)
  obtain pr app' where p: "provision dbg ser X uuid ?params app = Some (pr, app')" using provision_returns [OF ok assms(3)] by blast
  note post = service_provision [where from_slice = from_slice and ser = ser, OF reads len p]
  have ra: "reachable app'" by (rule service_reachable [OF assms(1,2) len post])
  let ?r = "client_of_reply shw Y ssrc (case pr of Inr w \<Rightarrow> rpc_ok ?i w | Inl e \<Rightarrow> rpc_err ?i e)"
  have b: "build_client shw Y (http_service dbg ser from_slice X uuid) name agent scene app = Some (?r, app')"
    by (simp add: build_client_def offer(1) post res_bind_def)
  note parse = provision_body_parse [OF offer(2), of dbg]
  have full: "?r = Inl (''provision failed: '' @ shw (JStr ''voice service is at capacity'')) \<and> app' = app"
    if "900 \<le> session_count (ap_sessions app)"
  proof -
    have "pr = Inl ''voice service is at capacity'' \<and> app' = app"
      using p that parse by (auto simp: provision_def MAX_SESSIONS_def Let_def)
    then show ?thesis by (simp add: client_of_reply_def rpc_err_fields)
  qed
  have good: "cl_ssrc cl = ssrc \<and> cl_session cl = ''wv-'' @ uuid \<and>
       (\<exists>a ep. hm_get (by_session (ap_sessions app')) (cl_session cl) = Some a \<and> s_agent_id (ap_store app' a) = agent \<and>
          s_room (ap_store app' a) = Spatial scene 0 \<and> \<not> s_closed (ap_store app' a) \<and>
          app_endpoint (cl_session cl) app' = Some ep \<and>
          (x_answer_sdp X = x_local_description X \<longrightarrow> cl_pt cl = ep_out_pt ep))"
    if cl: "?r = Inr cl" for cl
  proof -
    obtain w where w: "pr = Inr w" using cl by (cases pr) (auto simp: client_of_reply_def rpc_err_fields)
    have "connect X uuid ?params (Spatial scene 0) True sdp app = Some (Inr w, app')"
      using p w parse by (auto simp: provision_def Let_def room_for_def unwrap_or_def split: if_splits)
    then show ?thesis
    proof (cases rule: connect_cases)
      case (ok ep ans port pool k)
      obtain loc where loc: "x_local_description X = Some loc" "ep_out_pt ep = unwrap_or (negotiated_opus_pt loc) 111"
        using establish_pt [OF ok(4)] by blast
      have c: "cl_ssrc cl = ssrc" "cl_session cl = ''wv-'' @ uuid" "cl_pt cl = unwrap_or (negotiated_opus_pt ans) 111"
        using cl ok(1) by (auto simp: w client_of_reply_def rpc_ok_fields res_bind_def ok_or_def provision_answer_fields opus_pt_agrees Let_def
          split: sum.splits)
      have "x_answer_sdp X = Some ans" using ok(6) by (simp add: answer_sdp_def)
      then show ?thesis
        using c loc by (simp add: ok(5) by_session_insert Session_new_def app_endpoint_def hm_simps)
    qed simp
  qed
  show ?thesis using b ra good full by blast
qed

text \<open>What the service sent to a session, as the client's data channel delivers it.\<close>

definition delivered :: "string \<Rightarrow> effect list \<Rightarrow> watch_event list" where
  "delivered sid tr =
     List.map_filter (\<lambda>e. case e of SendText k dc text \<Rightarrow> if k = sid then Some (WMessage (Some text)) else None | _ \<Rightarrow> None) tr"

lemma delivered_one:
  assumes "distinct xs" "b \<in> set xs" "f b = Some (SendText lid dc text)"
    "\<And>c e. c \<in> set xs \<Longrightarrow> c \<noteq> b \<Longrightarrow> f c = Some e \<Longrightarrow> \<exists>k d t. e = SendText k d t \<and> k \<noteq> lid"
  shows "delivered lid (List.map_filter f xs) = [WMessage (Some text)]"
proof -
  have other: "\<forall>c \<in> set ys. \<forall>e. f c = Some e \<longrightarrow> (\<exists>k d t. e = SendText k d t \<and> k \<noteq> lid) \<Longrightarrow>
      delivered lid (List.map_filter f ys) = []" for ys
  proof (induction ys)
    case (Cons y ys)
    then show ?case by (cases "f y") (auto simp: delivered_def map_filter_simps)
  qed (simp add: delivered_def map_filter_simps)
  obtain us vs where xs: "xs = us @ b # vs" using assms(2) by (meson split_list)
  have "\<forall>c \<in> set us \<union> set vs. \<forall>e. f c = Some e \<longrightarrow> (\<exists>k d t. e = SendText k d t \<and> k \<noteq> lid)"
  proof (intro ballI allI impI)
    fix c e assume "c \<in> set us \<union> set vs" "f c = Some e"
    then show "\<exists>k d t. e = SendText k d t \<and> k \<noteq> lid" using assms(1) by (intro assms(4) [of c]) (auto simp: xs)
  qed
  then have "delivered lid (List.map_filter f us) = []" "delivered lid (List.map_filter f vs) = []"
    using other [of us] other [of vs] by blast+
  then show ?thesis using assms(3) by (simp add: xs delivered_def map_filter_def)
qed

text \<open>A departure reaches the other client: when the harness's logout of a registered session is served, and
  no other session of that agent is left in the room, the session is gone, the reply names it, and a client
  of the room with an open data channel is sent exactly one text, the leave notice, which sets its
  \<open>saw_leave\<close> flag (given a printer that prints the notice's flag compactly).\<close>

theorem logout_noticed:
  assumes "reachable app" "fresh uuid app"
    and reads: "from_slice (ser (logout_envelope sid user scene)) =
      Inr \<lparr>rq_id = JStr ''test-logout'', rq_method = METHOD_PROVISION,
           rq_params = \<lparr>rp_request = json_obj [(''logout'', JBool True), (''viewer_session'', JStr sid), (''voice_server_type'', JStr ''webrtc'')],
             rp_user_id = user, rp_scene = scene\<rparr>\<rparr>"
    and len: "length (ser (logout_envelope sid user scene)) \<le> MAX_RPC_BODY"
    and ab: "hm_get (by_session (ap_sessions app)) sid = Some a" "hm_get (by_session (ap_sessions app)) lid = Some b"
      "lid \<noteq> sid" "s_room (ap_store app b) = s_room (ap_store app a)"
    and last: "\<And>c. live (ap_sessions app) c \<Longrightarrow> c \<noteq> a \<Longrightarrow> s_room (ap_store app c) = s_room (ap_store app a) \<Longrightarrow>
      s_agent_id (ap_store app c) \<noteq> s_agent_id (ap_store app a)"
    and ep: "app_endpoint lid app = Some ep" "ep_dc ep = Some dc"
    and compact: "\<exists>pre post. ser (leave_value (s_agent_id (ap_store app a))) = pre @ LEAVE_FLAG @ post"
  shows "\<exists>app' new. http_service dbg ser from_slice X uuid (logout_envelope sid user scene) app =
      Some (Inr (rpc_ok (JStr ''test-logout'') (json_obj [(''viewer_session'', JStr sid)])), app') \<and>
    hm_get (by_session (ap_sessions app')) sid = None \<and> ap_trace app' = ap_trace app @ new \<and>
    delivered lid new = [WMessage (Some (leave_json ser (s_agent_id (ap_store app a))))] \<and>
    ob_saw_leave (watch_channel (delivered lid new) ob)"
proof -
  have ok: "app_ok app" using assms(1) by (rule reachable_ok)
  then have ro: "reg_ok (ap_store app) (ap_sessions app)" by (simp add: app_ok_def)
  let ?params = "\<lparr>rp_request = json_obj [(''logout'', JBool True), (''viewer_session'', JStr sid), (''voice_server_type'', JStr ''webrtc'')],
             rp_user_id = user, rp_scene = scene\<rparr>"
  let ?app = "drop_session ser sid app" and ?text = "leave_json ser (s_agent_id (ap_store app a))"
  have "provision dbg ser X uuid ?params app = Some (Inr (json_obj [(''viewer_session'', JStr sid)]), ?app)"
    by (simp add: provision_def logout_body_parse)
  from service_provision [where from_slice = from_slice and ser = ser, OF reads len this]
  have post: "http_service dbg ser from_slice X uuid (logout_envelope sid user scene) app =
      Some (Inr (rpc_ok (JStr ''test-logout'') (json_obj [(''viewer_session'', JStr sid)])), ?app)" by simp
  have gone: "hm_get (by_session (ap_sessions ?app)) sid = None" by (simp add: drop_session_ok(2) [OF ok])
  let ?ms = "reg_members (ap_sessions app) (s_room (ap_store app a))"
  let ?others = "filter (\<lambda>b. b \<noteq> a) ?ms"
  let ?f = "\<lambda>b. case app_endpoint (s_id (ap_store app b)) app of None \<Rightarrow> None
     | Some ep \<Rightarrow> map_option (\<lambda>dc. SendText (s_id (ap_store app b)) dc ?text) (ep_dc ep)"
  have mem: "set ?ms = {c. live (ap_sessions app) c \<and> s_room (ap_store app c) = s_room (ap_store app a)}" by (rule members_set [OF ro])
  have sid: "s_id (ap_store app a) = sid" "s_id (ap_store app b) = lid" using reg_okD(3) [OF ro] ab(1,2) by auto
  then have ba: "b \<noteq> a" using ab(3) by auto
  have none: "\<not> (\<exists>c \<in> set ?others. s_agent_id (ap_store app c) = s_agent_id (ap_store app a))" using last by (auto simp: mem)
  have tr: "ap_trace ?app = ap_trace app @ ClosePc sid # List.map_filter ?f ?others"
    using drop_trace_spec [OF ok, of ser sid] unfolding ab(1) option.case Let_def if_not_P [OF none] .
  have d: "delivered lid (List.map_filter ?f ?others) = [WMessage (Some ?text)]"
  proof (rule delivered_one)
    show "distinct ?others" using members_distinct [OF ro] by simp
    show "b \<in> set ?others" using ab(2,4) ba by (auto simp: mem live_def)
    show "?f b = Some (SendText lid dc ?text)" by (simp add: sid ep)
    fix c e assume "c \<in> set ?others" "c \<noteq> b" "?f c = Some e"
    moreover from this(1) have "live (ap_sessions app) c" by (simp add: mem)
    then have "hm_get (by_session (ap_sessions app)) (s_id (ap_store app c)) = Some c" using reg_okD(3) [OF ro] by (auto simp: live_def)
    ultimately show "\<exists>k d t. e = SendText k d t \<and> k \<noteq> lid" using ab(2) by (auto split: option.splits)
  qed
  then have dn: "delivered lid (ClosePc sid # List.map_filter ?f ?others) = [WMessage (Some ?text)]"
    by (simp add: delivered_def map_filter_simps)
  obtain pre post' where "?text = pre @ LEAVE_FLAG @ post'" using compact by (auto simp: leave_json_def)
  then have "contains ?text LEAVE_FLAG" by (simp only: contains_middle)
  then have "ob_saw_leave (watch_channel [WMessage (Some ?text)] ob)" by (simp add: on_message_def)
  then show ?thesis using post gone tr dn by (intro exI [of _ ?app] exI [of _ "ClosePc sid # List.map_filter ?f ?others"]) (simp only: simp_thms)
qed

text \<open>A client stack in which every call succeeds.\<close>

definition working_client :: client_rtc where
  "working_client =
     \<lparr>y_mime_opus = ''audio/opus'', y_register_codec = (\<lambda>_ _. Inr ()), y_interceptors = Inr (), y_track = (\<lambda>_ _ _ _. Inr ()),
      y_build = (\<lambda>_. Inr ()), y_add_track = Inr (), y_create_data_channel = (\<lambda>_. Inr ()), y_create_offer = Inr (),
      y_set_local = Inr (), y_gathered = (\<lambda>i. 2 \<le> i), y_local_description = (\<lambda>_. Some ''v=0''), y_http_client = Inr (),
      y_parse_answer = (\<lambda>_. Inr ()), y_set_remote = Inr ()\<rparr>"

lemma client_registers_witness:
  "\<exists>cl (app' :: unit app) a. build_client (\<lambda>_. ''r'') working_client
       (http_service (\<lambda>s. s) (\<lambda>_. ''r'') (\<lambda>_. Inr \<lparr>rq_id = JStr ''test-A'', rq_method = METHOD_PROVISION,
           rq_params = \<lparr>rp_request = provision_body ''v=0'', rp_user_id = ''alice'', rp_scene = ''region''\<rparr>\<rparr>) working_rtc ''1'')
       ''A'' ''alice'' ''region'' (app_new ''203.0.113.10'') = Some (Inr cl, app') \<and>
     hm_get (by_session (ap_sessions app')) (cl_session cl) = Some a \<and> s_agent_id (ap_store app' a) = ''alice''"
proof -
  let ?app = "app_new ''203.0.113.10'' :: unit app"
  let ?params = "\<lparr>rp_request = provision_body ''v=0'', rp_user_id = ''alice'', rp_scene = ''region''\<rparr>"
  let ?fs = "\<lambda>_ :: string. Inr \<lparr>rq_id = JStr ''test-A'', rq_method = METHOD_PROVISION, rq_params = ?params\<rparr> :: (string, rpc_request) result"
  let ?ser = "\<lambda>_ :: json. ''r''" and ?dbg = "\<lambda>s :: string. s"
  have f: "fresh ''1'' ?app" by (simp add: fresh_def app_new_def registry_default_def hm_simps)
  have t: "\<And>i. 20 * i \<le> x_elapsed working_rtc i" by (simp add: working_rtc_def)
  have o: "client_offer working_client ''A'' ''alice'' = Inr (client_ssrc ''A'' ''alice'', ''v=0'')"
    by (simp add: client_offer_def working_client_def opus_params_def res_bind_def ok_or_def Let_def)
  have ne: "''v=0'' \<noteq> ''''" by simp
  have rd: "?fs (?ser (provision_envelope ''A'' ''alice'' ''region'' ''v=0'')) = Inr \<lparr>rq_id = JStr (''test-'' @ ''A''),
      rq_method = METHOD_PROVISION, rq_params = ?params\<rparr>" by simp
  have len: "length (?ser (provision_envelope ''A'' ''alice'' ''region'' ''v=0'')) \<le> MAX_RPC_BODY" by (simp add: MAX_RPC_BODY_def)
  have "app_ok ?app" by (rule app_new_ok)
  then have "ports_ok (ap_ports ?app)" by (simp add: app_ok_def)
  from working_connects [OF this] obtain w app1 where c: "connect working_rtc ''1'' ?params (Spatial ''region'' 0) True ''v=0'' ?app = Some (Inr w, app1)"
    by blast
  then obtain ans where ans: "w = provision_answer (''wv-'' @ ''1'') ans" by (cases rule: connect_cases) auto
  have "session_count (ap_sessions ?app) = 0" by (simp add: session_count_def app_new_def registry_default_def hm_len_0_iff)
  then have pr: "provision ?dbg ?ser working_rtc ''1'' ?params ?app = Some (Inr w, app1)"
    using c provision_body_parse [OF ne, of ?dbg] by (simp add: provision_def Let_def MAX_SESSIONS_def room_for_def unwrap_or_def)
  note post = service_provision [where from_slice = ?fs and ser = ?ser, OF rd len pr]
  have "\<exists>cl. build_client ?ser working_client (http_service ?dbg ?ser ?fs working_rtc ''1'') ''A'' ''alice'' ''region'' ?app = Some (Inr cl, app1)"
    unfolding build_client_def o
    by (simp add: post res_bind_def client_of_reply_def rpc_ok_fields ok_or_def provision_answer_fields ans Let_def working_client_def)
  then obtain cl where b: "build_client ?ser working_client (http_service ?dbg ?ser ?fs working_rtc ''1'') ''A'' ''alice'' ''region'' ?app =
      Some (Inr cl, app1)" by blast
  from client_registers [where from_slice = ?fs and ser = ?ser and shw = ?ser and dbg = ?dbg, OF reachable.start f t o ne rd len] b
  show ?thesis by fastforce
qed

lemma logout_noticed_witness:
  "\<exists>(app :: unit app) app' new.
     http_service (\<lambda>s. s) (\<lambda>_. LEAVE_FLAG) (\<lambda>_. Inr \<lparr>rq_id = JStr ''test-logout'', rq_method = METHOD_PROVISION,
         rq_params = \<lparr>rp_request = json_obj [(''logout'', JBool True), (''viewer_session'', JStr ''wv-2''), (''voice_server_type'', JStr ''webrtc'')],
           rp_user_id = ''bob'', rp_scene = ''region''\<rparr>\<rparr>) working_rtc ''3'' (logout_envelope ''wv-2'' ''bob'' ''region'') app =
       Some (Inr (rpc_ok (JStr ''test-logout'') (json_obj [(''viewer_session'', JStr ''wv-2'')])), app') \<and>
     ap_trace app' = ap_trace app @ new \<and> ob_saw_leave (watch_channel (delivered ''wv-1'' new) observed_default)"
proof -
  let ?fs = "\<lambda>_ :: string. Inr \<lparr>rq_id = JStr ''test-logout'', rq_method = METHOD_PROVISION,
         rq_params = \<lparr>rp_request = json_obj [(''logout'', JBool True), (''viewer_session'', JStr ''wv-2''), (''voice_server_type'', JStr ''webrtc'')],
           rp_user_id = ''bob'', rp_scene = ''region''\<rparr>\<rparr> :: (string, rpc_request) result"
  let ?ser = "\<lambda>_ :: json. LEAVE_FLAG"
  obtain app :: "unit app" and ep where a: "reachable app" "fresh ''3'' app" "hm_get (by_session (ap_sessions app)) ''wv-2'' = Some 1"
      "hm_get (by_session (ap_sessions app)) ''wv-1'' = Some 0" "s_room (ap_store app 1) = s_room (ap_store app 0)"
      "app_endpoint ''wv-1'' app = Some ep" "ep_dc ep = Some 7"
    and ag: "s_agent_id (ap_store app 0) = ''alice''" "s_agent_id (ap_store app 1) = ''bob''"
    and lv: "\<forall>c. live (ap_sessions app) c \<longrightarrow> c = 0 \<or> c = 1"
    using call_of_two by blast
  have len: "length (?ser (logout_envelope ''wv-2'' ''bob'' ''region'')) \<le> MAX_RPC_BODY" by (simp add: LEAVE_FLAG_def MAX_RPC_BODY_def)
  have ne: "''wv-1'' \<noteq> ''wv-2''" by simp
  have last: "s_agent_id (ap_store app c) \<noteq> s_agent_id (ap_store app 1)" if "live (ap_sessions app) c" "c \<noteq> 1" for c
  proof -
    have "c = 0" using lv that by blast
    then show ?thesis by (simp only: ag) simp
  qed
  have compact: "\<exists>pre post. ?ser (leave_value (s_agent_id (ap_store app 1))) = pre @ LEAVE_FLAG @ post"
    by (rule exI [of _ "[]"], rule exI [of _ "[]"]) simp
  from logout_noticed [where from_slice = ?fs and ser = ?ser, OF a(1,2) refl len a(3,4) ne a(5) [symmetric] last a(6,7) compact,
      of "\<lambda>s. s" working_rtc observed_default]
  show ?thesis by blast
qed

end
