(* ===== verification/Load_Test.thy ===== *)
theory Load_Test
  imports Stereo_Image Two_Clients
begin

text \<open>
  The load generator (\<open>src/examples/load_test.rs\<close>): what each of its clients observes, sends and announces.
  The WebRTC stack and the HTTP client are those of \<open>Two_Clients\<close>, the encoder is a parameter; reading
  \<open>/proc\<close>, the waits and the printed report are not modelled.
\<close>

section \<open>Observations\<close>

record load_obs =
  lo_connected :: bool
  lo_dc_open :: bool
  lo_gathered :: bool
  lo_rtp :: u32
  lo_audible :: u32

definition ld_gathering :: "gathering_state \<Rightarrow> load_obs \<Rightarrow> load_obs" where
  "ld_gathering s ob = (if s = GatherComplete then ob\<lparr>lo_gathered := True\<rparr> else ob)"

definition ld_connection :: "connection_state \<Rightarrow> load_obs \<Rightarrow> load_obs" where
  "ld_connection s ob = (if s = CConnected then ob\<lparr>lo_connected := True\<rparr> else ob)"

definition ld_track :: "track_event \<Rightarrow> load_obs \<Rightarrow> load_obs" where
  "ld_track e ob =
     (case e of
        OnRtpPacket payload \<Rightarrow>
          (let ob = ob\<lparr>lo_rtp := lo_rtp ob + 1\<rparr>
           in if 10 < length payload then ob\<lparr>lo_audible := lo_audible ob + 1\<rparr> else ob)
      | OtherTrackEvent \<Rightarrow> ob)"

fun ld_channel :: "watch_event list \<Rightarrow> load_obs \<Rightarrow> load_obs" where
  "ld_channel [] ob = ob"
| "ld_channel (WOpen # es) ob = ld_channel es (ob\<lparr>lo_dc_open := True\<rparr>)"
| "ld_channel (WClose # es) ob = ob"
| "ld_channel (_ # es) ob = ld_channel es ob"

section \<open>Identity and bring-up\<close>

definition ld_opus :: "string \<Rightarrow> u8 \<Rightarrow> rtp_codec \<times> u8" where
  "ld_opus mime_type_opus pt =
     (\<lparr>cd_mime_type = mime_type_opus, cd_clock_rate = 48000, cd_channels = 2,
       cd_fmtp_line = ''minptime=10;useinbandfec=1''\<rparr>, pt)"

fun pt_scan :: "string list \<Rightarrow> u8 option" where
  "pt_scan [] = None"
| "pt_scan (l # ls) =
     (case strip_prefix (trim l) ''a=rtpmap:'' of
        None \<Rightarrow> pt_scan ls
      | Some r \<Rightarrow>
          (case splitn2 (CHR '' '') r of
             (pt, None) \<Rightarrow> None
           | (pt, Some codec) \<Rightarrow> if prefix ''opus/'' (to_ascii_lowercase codec) then parse_u8 pt else pt_scan ls))"

definition pt_from_sdp :: "string \<Rightarrow> u8 option" where
  "pt_from_sdp sdp = pt_scan (lines sdp)"

text \<open>\<open>{:08x}\<close> of a 32-bit word.\<close>

definition hex_digit :: "nat \<Rightarrow> char" where
  "hex_digit d = ''0123456789abcdef'' ! d"

definition hex8 :: "u32 \<Rightarrow> string" where
  "hex8 w = map (\<lambda>k. hex_digit (unat w div 16 ^ k mod 16)) (rev [0..<8])"

definition ld_ssrc :: "nat \<Rightarrow> u32" where "ld_ssrc i = 0x40000000 + of_nat i"

definition ld_agent :: "nat \<Rightarrow> string" where
  "ld_agent i = hex8 (0x10AD0000 + of_nat i) @ ''-1111-1111-1111-111111111111''"

definition ld_body :: "nat \<Rightarrow> string \<Rightarrow> string \<Rightarrow> json" where
  "ld_body i sdp scene =
     json_obj
       [(''jsonrpc'', JStr ''2.0''), (''id'', JStr (''load-'' @ show_int (int i))),
        (''method'', JStr ''provision_voice_account_request''),
        (''params'', json_obj
          [(''request'', json_obj
              [(''jsep'', json_obj [(''type'', JStr ''offer''), (''sdp'', JStr sdp)]),
               (''channel_type'', JStr ''local''), (''voice_server_type'', JStr ''webrtc''), (''parcel_local_id'', JNum (PosInt 1))]),
           (''userID'', JStr (ld_agent i)), (''scene'', JStr scene)])]"

record ld_client =
  lc_ssrc :: u32
  lc_pt :: u8

definition ld_offer :: "client_rtc \<Rightarrow> nat \<Rightarrow> (string, u32 \<times> string) result" where
  "ld_offer Y i =
     (let (codec, pt) = ld_opus (y_mime_opus Y) 111; ssrc = ld_ssrc i; n = show_int (int i)
      in res_bind (y_register_codec Y codec pt) (\<lambda>_.
         res_bind (y_interceptors Y) (\<lambda>_.
         res_bind (y_track Y (''load-'' @ n) (''load-track-'' @ n) ssrc codec) (\<lambda>_.
         res_bind (y_build Y ''0.0.0.0:0'') (\<lambda>_.
         res_bind (y_add_track Y) (\<lambda>_.
         res_bind (y_create_data_channel Y ''SLData'') (\<lambda>_.
         res_bind (y_create_offer Y) (\<lambda>_.
         res_bind (y_set_local Y) (\<lambda>_.
         res_bind (ok_or (y_local_description Y (polls 80 (y_gathered Y) 0)) ''no local desc'') (\<lambda>sdp.
         res_bind (y_http_client Y) (\<lambda>_.
         Inr (ssrc, sdp))))))))))))"

definition ld_of_reply :: "(json \<Rightarrow> string) \<Rightarrow> client_rtc \<Rightarrow> u32 \<Rightarrow> json \<Rightarrow> (string, ld_client) result" where
  "ld_of_reply shw Y ssrc resp =
     res_bind (ok_or (jget resp ''result'') (''no result: '' @ shw resp)) (\<lambda>result.
     res_bind (ok_or (Option.bind (Option.bind (jget result ''jsep'') (\<lambda>j. jget j ''sdp'')) as_str) ''no answer sdp'') (\<lambda>sdp.
     let pt = unwrap_or (pt_from_sdp sdp) 111
     in res_bind (y_parse_answer Y sdp) (\<lambda>_.
        res_bind (y_set_remote Y) (\<lambda>_.
        Inr \<lparr>lc_ssrc = ssrc, lc_pt = pt\<rparr>))))"

definition ld_build ::
    "(json \<Rightarrow> string) \<Rightarrow> client_rtc \<Rightarrow> 's server \<Rightarrow> nat \<Rightarrow> string \<Rightarrow> 's \<Rightarrow> ((string, ld_client) result \<times> 's) option" where
  "ld_build shw Y post i scene s =
     (case ld_offer Y i of
        Inl e \<Rightarrow> Some (Inl e, s)
      | Inr (ssrc, sdp) \<Rightarrow>
          map_option (\<lambda>(r, s). (res_bind r (ld_of_reply shw Y ssrc), s)) (post (ld_body i sdp scene) s))"

text \<open>\<open>for i in 0..total\<close>, from \<open>i\<close> on: the first client that fails ends the loop.\<close>

fun ld_build_all ::
    "(nat \<Rightarrow> 's \<Rightarrow> ((string, ld_client) result \<times> 's) option) \<Rightarrow> nat \<Rightarrow> nat \<Rightarrow> 's \<Rightarrow> (ld_client list \<times> 's) option" where
  "ld_build_all build i 0 s = Some ([], s)"
| "ld_build_all build i (Suc n) s =
     Option.bind (build i s) (\<lambda>(r, s). case r of
        Inl e \<Rightarrow> Some ([], s)
      | Inr c \<Rightarrow> map_option (\<lambda>(cs, s). (c # cs, s)) (ld_build_all build (Suc i) n s))"

section \<open>The line\<close>

definition ld_x :: "nat \<Rightarrow> fp" where
  "ld_x i = fadd F64 (Fin 1000) (fmul F64 (fp_of_int F64 (int i)) (Fin 5))"

definition ld_position :: "nat \<Rightarrow> json" where
  "ld_position i =
     (let p = json_obj [(''x'', scaled (ld_x i)), (''y'', JNum (PosInt 100000)), (''z'', JNum (PosInt 2500))];
          h = json_obj [(''x'', JNum (PosInt 0)), (''y'', JNum (PosInt 0)), (''z'', JNum (PosInt 0)), (''w'', JNum (PosInt 100))]
      in json_obj [(''sp'', p), (''sh'', h), (''lp'', p), (''lh'', h)])"

text \<open>Both sends are tried, whatever becomes of the first; the texts that were sent.\<close>

definition ld_spread :: "(json \<Rightarrow> string) \<Rightarrow> (string \<Rightarrow> bool) \<Rightarrow> nat \<Rightarrow> string list" where
  "ld_spread ser sends i = filter sends [JOIN_TEXT, ser (ld_position i)]"

section \<open>Speaking\<close>

definition ld_step :: fp where
  "ld_step = fdiv F32 (fmul F32 (fmul F32 (Fin 2) PI32) (Fin 300)) (Fin 48000)"

fun ld_tone :: "libm \<Rightarrow> nat \<Rightarrow> fp \<Rightarrow> fp list \<times> fp" where
  "ld_tone L 0 phase = ([], phase)"
| "ld_tone L (Suc n) phase =
     (let (xs, p) = ld_tone L n (fadd F32 phase ld_step)
      in (fmul F32 (m_sin L phase) (rnd F32 (3 / 10)) # xs, p))"

text \<open>The packets handed to the track; a write that fails is ignored, an encoder that fails panics, which ends
  the task.\<close>

fun ld_speak :: "libm \<Rightarrow> 'e encode \<Rightarrow> u32 \<Rightarrow> u8 \<Rightarrow> nat \<Rightarrow> 'e \<Rightarrow> fp \<Rightarrow> u32 \<Rightarrow> packet list" where
  "ld_speak L enc ssrc pt 0 st phase ts = []"
| "ld_speak L enc ssrc pt (Suc frames) st phase ts =
     (let (pcm, phase) = ld_tone L 960 phase; (st, r) = enc st pcm
      in case r of
           Inl e \<Rightarrow> []
         | Inr buf \<Rightarrow>
             \<lparr>pk_ssrc = ssrc, pk_pt = pt, pk_timestamp = ts, pk_duration_ms = 20, pk_data = buf\<rparr> #
               ld_speak L enc ssrc pt frames st phase (ts + 960))"

text \<open>One speaking client: ten seconds of 50 frames; an encoder that cannot be built panics.\<close>

definition ld_speaker :: "libm \<Rightarrow> (string, 'e) result \<Rightarrow> 'e encode \<Rightarrow> ld_client \<Rightarrow> packet list" where
  "ld_speaker L encoder enc cl =
     (case encoder of Inl e \<Rightarrow> [] | Inr st \<Rightarrow> ld_speak L enc (lc_ssrc cl) (lc_pt cl) (10 * 50) st (Fin 0) 0)"

section \<open>The clients are distinct participants\<close>

lemma pt_agrees: "pt_from_sdp sdp = negotiated_opus_pt sdp"
proof -
  have "pt_scan ls = opus_pt_scan ls" for ls by (induction ls) (auto split: option.split prod.split)
  then show ?thesis unfolding opus_pt_agrees [symmetric] by (simp add: pt_from_sdp_def opus_pt_from_sdp_def)
qed

lemma hex_digit_inj: "a < 16 \<Longrightarrow> b < 16 \<Longrightarrow> hex_digit a = hex_digit b \<Longrightarrow> a = b"
proof -
  have "distinct ''0123456789abcdef''" by code_simp
  then show "a < 16 \<Longrightarrow> b < 16 \<Longrightarrow> hex_digit a = hex_digit b \<Longrightarrow> a = b" by (simp add: hex_digit_def nth_eq_iff_index_eq)
qed

lemma digits_mod:
  "\<forall>k < m. v div 16 ^ k mod 16 = w div 16 ^ k mod (16 :: nat) \<Longrightarrow> v mod 16 ^ m = w mod 16 ^ m"
proof (induction m)
  case (Suc m)
  have "x mod 16 ^ Suc m = 16 ^ m * (x div 16 ^ m mod 16) + x mod 16 ^ m" for x :: nat
    using mod_mult2_eq [of x "16 ^ m" 16] by (simp add: mult.commute)
  then show ?case using Suc by simp
qed simp

lemma hex8_inj: assumes "hex8 v = hex8 w" shows "v = w"
proof -
  have "unat v div 16 ^ k mod 16 = unat w div 16 ^ k mod 16" if "k < 8" for k
    using assms that by (intro hex_digit_inj) (simp_all add: hex8_def del: upt_rec)
  then have "unat v mod 16 ^ 8 = unat w mod 16 ^ 8" by (intro digits_mod) simp
  moreover have "unat x < 16 ^ 8" for x :: u32
  proof -
    have "unat x < 2 ^ LENGTH(32)" by (rule unsigned_less)
    then show ?thesis by simp
  qed
  ultimately have "unat v = unat w" by simp
  then show "v = w" by (simp only: word_unat_eq_iff)
qed

lemma ld_agent_inj: "i < 2 ^ 16 \<Longrightarrow> j < 2 ^ 16 \<Longrightarrow> ld_agent i = ld_agent j \<Longrightarrow> i = j"
proof -
  assume b: "i < 2 ^ 16" "j < 2 ^ 16" and "ld_agent i = ld_agent j"
  then have "(0x10AD0000 + of_nat i :: u32) = 0x10AD0000 + of_nat j" by (auto simp: ld_agent_def dest: hex8_inj)
  then have "(of_nat i :: u32) = of_nat j" by simp
  then have "unat (of_nat i :: u32) = unat (of_nat j :: u32)" by simp
  then show "i = j" using b by (simp add: unat_of_nat)
qed

lemma ld_speak_clock:
  assumes "k < length (ld_speak L enc ssrc pt frames st phase ts)"
  shows "pk_timestamp (ld_speak L enc ssrc pt frames st phase ts ! k) = ts + of_nat (960 * k)"
  using assms
proof (induction frames arbitrary: st phase ts k)
  case (Suc frames)
  then show ?case by (cases k) (auto simp: Let_def algebra_simps split: prod.splits sum.splits)
qed simp

section \<open>Who hears whom along the line\<close>

lemma small_repr: "\<bar>n\<bar> < 2 ^ 24 \<Longrightarrow> rnd F64 (of_int n) = Fin (of_int n)"
proof (rule rnd_repr [OF repr_of_int])
  assume n: "\<bar>n\<bar> < 2 ^ 24"
  have "real_of_int \<bar>n\<bar> \<le> of_int (2 ^ 24)" using n by (intro of_int_le_iff [THEN iffD2]) simp
  then have "\<bar>real_of_int n\<bar> \<le> 2 ^ 24" by simp
  then show "\<bar>real_of_int n\<bar> \<le> maxfin F64" by (rule order_trans) simp
qed

lemma ld_x_exact: "i < 200 \<Longrightarrow> ld_x i = Fin (1000 + 5 * real i)"
  using small_repr [of "int i"] small_repr [of "int i * 5"] small_repr [of "1000 + int i * 5"]
  by (simp add: ld_x_def fp_of_int_def algebra_simps)

lemma received_line: "i < 200 \<Longrightarrow> received (ld_x i) = Fin (1000 + 5 * real i)"
proof -
  assume i: "i < 200"
  have m: "fmul F64 (ld_x i) (Fin 100) = Fin (of_int (100000 + 500 * int i))"
    using i small_repr [of "100000 + 500 * int i"] by (simp add: ld_x_exact algebra_simps)
  have "fp_as_i64 (Fin (of_int (100000 + 500 * int i))) = 100000 + 500 * int i"
    using i by (simp add: fp_as_i64_def trunc0_def del: of_int_add)
  then show ?thesis
    using i small_repr [of "100000 + 500 * int i"] small_repr [of "1000 + 5 * int i"]
    by (simp add: received_def m fp_of_int_def add_divide_distrib)
qed


text \<open>Where a client of the line stands once the service has read its texts.\<close>

definition line_state :: "nat \<Rightarrow> spatial_state" where
  "line_state i =
     (let p = (Fin (1000 + 5 * real i), Fin 1000, Fin 25)
      in \<lparr>avatar_pos = p, avatar_rot = (Fin 0, Fin 0, Fin 0, Fin 1), listener_pos = p,
          listener_rot = (Fin 0, Fin 0, Fin 0, Fin 1), known = True\<rparr>)"

lemma line_parsed:
  assumes "i < 200"
  shows "viewer_data_of_value (ld_position i) =
    (let p = (Fin (1000 + 5 * real i), Fin 1000, Fin 25); h = (Fin 0, Fin 0, Fin 0, Fin 1)
     in viewer_data_default\<lparr>vd_avatar_pos := Some p, vd_avatar_rot := Some h, vd_listener_pos := Some p, vd_listener_rot := Some h\<rparr>)"
proof -
  have n: "fp_of_int F64 0 = Fin 0" "fp_of_int F64 100 = Fin 100" "rnd F64 0 = Fin 0" "rnd F64 1 = Fin 1"
    "fp_of_int F64 100000 = Fin 100000" "fp_of_int F64 2500 = Fin 2500" "rnd F64 1000 = Fin 1000" "rnd F64 25 = Fin 25"
    by (simp_all add: fp_of_int_def rnd_repr)
  have p: "parse_vec3 (json_obj [(''x'', scaled (ld_x i)), (''y'', JNum (PosInt 100000)), (''z'', JNum (PosInt 2500))]) =
      Some (Fin (1000 + 5 * real i), Fin 1000, Fin 25)"
    using received_line [OF assms]
    by (simp add: parse_vec3_def coord_def jget_json_obj scaled_f64 received_def POSITION_SCALE_def n)
  have h: "parse_vec4 (json_obj [(''x'', JNum (PosInt 0)), (''y'', JNum (PosInt 0)), (''z'', JNum (PosInt 0)), (''w'', JNum (PosInt 100))]) =
      Some (Fin 0, Fin 0, Fin 0, Fin 1)"
    by (simp add: parse_vec4_def coord_def jget_json_obj POSITION_SCALE_def n)
  show ?thesis
    by (simp add: ld_position_def Let_def viewer_data_of_value_def jget_json_obj p h viewer_data_default_def)
qed

lemma line_session:
  assumes "reads_back from_str ser (ld_position i)" "i < 200"
  shows "channel_loop from_str (map (\<lambda>t. OnMessage True (Some t)) (ld_spread ser (\<lambda>_. True) i)) s =
    s\<lparr>s_joined := True, s_primary := True, s_state := line_state i\<rparr>"
proof -
  have j: "viewer_data_of_value (JObj [(''j'', JObj [(''p'', JBool True)])]) = viewer_data_default\<lparr>vd_join := Some True\<rparr>"
    by (simp add: viewer_data_of_value_def viewer_data_default_def unwrap_or_def)
  have "channel_loop from_str (map (\<lambda>t. OnMessage True (Some t)) (ld_spread ser (\<lambda>_. True) i)) s =
      apply_data (viewer_data_of_value (ld_position i)) (apply_data (viewer_data_default\<lparr>vd_join := Some True\<rparr>) s)"
    using assms(1) by (simp add: ld_spread_def viewer_data_parse_def res_bind_def reads_back_def j)
  then show ?thesis
    unfolding line_parsed [OF assms(2)]
    by (simp add: line_state_def Let_def apply_data_def apply_join_def viewer_data_default_def filter_message_def finite3_def finite4_def
      opt_filter_def apply_spatial_def apply_gains_def apply_mutes_def tether_self)
qed

lemma line_distance:
  assumes "i < 200" "j < 200"
  shows "v3_norm (v3_sub (avatar_pos (line_state j)) (listener_pos (line_state i))) = Fin (5 * \<bar>real j - real i\<bar>)"
proof -
  let ?d = "5 * (int j - int i)"
  have b: "\<bar>?d\<bar> < 1000" using assms by simp
  have sq: "\<bar>?d * ?d\<bar> < 2 ^ 24"
  proof -
    have "\<bar>?d\<bar> * \<bar>?d\<bar> \<le> 1000 * 1000" using b by (intro mult_mono) simp_all
    then show ?thesis by (simp add: abs_mult)
  qed
  have s: "v3_sub (avatar_pos (line_state j)) (listener_pos (line_state i)) = (Fin (of_int ?d), Fin 0, Fin 0)"
    using b small_repr [of ?d] by (simp add: v3_sub_def fsub_def line_state_def Let_def algebra_simps rnd_repr)
  have r: "repr F64 (of_int ?d * of_int ?d)" "repr F64 \<bar>of_int ?d\<bar>" "\<bar>of_int ?d :: real\<bar> \<le> 1000"
    using repr_of_int [OF sq, of F64] repr_of_int [of "\<bar>?d\<bar>" F64] b by simp_all
  have "v3_norm (Fin (of_int ?d), Fin 0, Fin 0) = Fin \<bar>of_int ?d\<bar>" by (rule norm_axis(2) [OF r])
  moreover have "\<bar>of_int ?d :: real\<bar> = 5 * \<bar>real j - real i\<bar>" by (simp add: abs_if)
  ultimately show ?thesis by (simp only: s)
qed

lemma line_gain:
  "\<exists>g. distance_gain (Fin (5 * real d)) = Fin g \<and> fmul F32 (Fin 1) (Fin g) = Fin g \<and> (g = 1 \<longleftrightarrow> d \<le> 2) \<and> (g \<le> 0 \<longleftrightarrow> 12 \<le> d)"
proof -
  consider "d \<le> 2" | "12 \<le> d" | "3 \<le> d" "d \<le> 11" by linarith
  then show ?thesis
  proof cases
    case 1
    then have "5 * real d \<le> 10" by simp
    then show ?thesis using 1 by (simp add: distance_gain_def REF_DISTANCE_def rnd_repr)
  next
    case 2
    then have "\<not> 5 * real d \<le> 10" "60 \<le> 5 * real d" by simp_all
    then show ?thesis using 2 by (simp add: distance_gain_def REF_DISTANCE_def MAX_DISTANCE_def rnd_repr)
  next
    case 3
    then have x: "15 \<le> 5 * real d" "5 * real d < 60" "10 < 5 * real d" by simp_all
    note g = distance_gain_mid [OF x(3,2)]
    have "repr F64 (5 * real d)" using repr_of_int [of "5 * int d" F64] 3 by simp
    then have nz: "mid_gain (5 * real d) \<noteq> 0" using gain_zero_iff g x(2) by force
    have pos: "0 \<le> mid_gain (5 * real d) \<and> mid_gain (5 * real d) \<le> 1" using x by (intro mid_gain_range) simp_all
    have h: "repr F64 (1 / 16)" "repr f (15 / 16)" for f
      using repr_scaled(1) [of 1 "- 4" F64] repr_scaled(1) [of 15 "- 4" f] by (simp_all add: pow2_minus pow2_nat [of 4, simplified])
    have "1 / 16 \<le> rnd_real F64 (5 / 50) \<and> rnd_real F64 (5 / 50) \<le> 1" by (intro rnd_between_real h(1)) simp_all
    then have "0 \<le> rnd_real F64 (1 - rnd_real F64 (5 / 50)) \<and> rnd_real F64 (1 - rnd_real F64 (5 / 50)) \<le> 15 / 16"
      by (intro rnd_between_real h(2)) simp_all
    then have "0 \<le> mid_gain 15 \<and> mid_gain 15 \<le> 15 / 16"
      unfolding mid_gain_def by (intro rnd_between_real h(2)) (simp_all add: rnd_real_repr)
    then have "mid_gain (5 * real d) < 1" using mid_gain_antitone [OF x(1)] by linarith
    moreover have "repr F32 (mid_gain (5 * real d))" unfolding mid_gain_def by (rule repr_rnd_real)
    then have "fmul F32 (Fin 1) (Fin (mid_gain (5 * real d))) = Fin (mid_gain (5 * real d))"
      using pos by (simp add: rnd_small rnd_real_repr)
    ultimately show ?thesis using 3 nz pos g by auto
  qed
qed

text \<open>C39. The load generator's clients do not all hear one another, whatever its comment says: once the
  service has read both texts of the clients \<open>i\<close> and \<open>j\<close> of the line (of up to 200), which are distinct
  participants, \<open>j\<close> reaches \<open>i\<close> with its distance gain at unity exactly when they are at most two places
  apart, and is not mixed for \<open>i\<close> at all exactly when they are twelve or more apart. So at most 22 of the
  others are mixed for a client, however many speak.\<close>

theorem load_line_hearing:
  assumes "reads_back from_str ser (ld_position i)" "reads_back from_str ser (ld_position j)"
    and "i < 200" "j < 200" "i \<noteq> j" "uuid_i \<noteq> uuid_j"
    and "l = channel_loop from_str (map (\<lambda>t. OnMessage True (Some t)) (ld_spread ser (\<lambda>_. True) i))
           (Session_new uuid_i (ld_agent i) (Spatial scene 1) True)"
    and "s = channel_loop from_str (map (\<lambda>t. OnMessage True (Some t)) (ld_spread ser (\<lambda>_. True) j))
           (Session_new uuid_j (ld_agent j) (Spatial scene 1) True)"
  shows "s_agent_id l \<noteq> s_agent_id s \<and>
    (\<bar>int i - int j\<bar> \<le> 2 \<longleftrightarrow> (\<exists>c. contribution_of L l s (Some f) = Some c \<and> c_gain c = Fin 1)) \<and>
    (12 \<le> \<bar>int i - int j\<bar> \<longleftrightarrow> contribution_of L l s (Some f) = None)"
proof -
  have l: "l = (Session_new uuid_i (ld_agent i) (Spatial scene 1) True)\<lparr>s_joined := True, s_primary := True, s_state := line_state i\<rparr>"
    and s: "s = (Session_new uuid_j (ld_agent j) (Spatial scene 1) True)\<lparr>s_joined := True, s_primary := True, s_state := line_state j\<rparr>"
    using line_session assms(1-4,7,8) by simp_all
  define d where "d = nat \<bar>int i - int j\<bar>"
  have "real d = \<bar>real j - real i\<bar>" by (simp add: d_def abs_minus_commute)
  then have v: "v3_norm (v3_sub (avatar_pos (line_state j)) (listener_pos (line_state i))) = Fin (5 * real d)"
    using line_distance [OF assms(3,4)] by simp
  obtain g where g: "distance_gain (Fin (5 * real d)) = Fin g" "fmul F32 (Fin 1) (Fin g) = Fin g"
    "g = 1 \<longleftrightarrow> d \<le> 2" "g \<le> 0 \<longleftrightarrow> 12 \<le> d" using line_gain by blast
  have k: "known (line_state i)" "known (line_state j)" by (simp_all add: line_state_def Let_def)
  have p: "peer_gain l (s_agent_id s) = Fin 1" by (simp add: l s peer_gain_def Session_new_def hm_simps unwrap_or_def)
  have c: "contribution_of L l s (Some f) =
      (if 12 \<le> d then None else Some \<lparr>c_frame = f, c_gain = Fin g,
         c_pan = pan_weights L (avatar_pos (line_state j)) (listener_pos (line_state i)) (listener_rot (line_state i))\<rparr>)"
    using assms(6) g(2,4) p by (simp add: contribution_of_def l s Session_new_def k v g(1) Let_def)
  have "ld_agent i \<noteq> ld_agent j" using ld_agent_inj [of i j] assms(3-5) by auto
  then have "s_agent_id l \<noteq> s_agent_id s" by (simp add: l s Session_new_def)
  moreover have "\<bar>int i - int j\<bar> \<le> 2 \<longleftrightarrow> d \<le> 2" "12 \<le> \<bar>int i - int j\<bar> \<longleftrightarrow> 12 \<le> d" by (simp_all add: d_def nat_le_iff le_nat_iff)
  ultimately show ?thesis using c g(3) by simp
qed

lemma load_line_hearing_witness:
  "contribution_of exact_libm
     (channel_loop (\<lambda>t. Inr (if t = JOIN_TEXT then JObj [(''j'', JObj [(''p'', JBool True)])] else ld_position (if t = ''a'' then 0 else 29)))
        [OnMessage True (Some JOIN_TEXT), OnMessage True (Some ''a'')] (Session_new ''wv-1'' (ld_agent 0) (Spatial ''region'' 1) True))
     (channel_loop (\<lambda>t. Inr (if t = JOIN_TEXT then JObj [(''j'', JObj [(''p'', JBool True)])] else ld_position (if t = ''a'' then 0 else 29)))
        [OnMessage True (Some JOIN_TEXT), OnMessage True (Some ''b'')] (Session_new ''wv-2'' (ld_agent 29) (Spatial ''region'' 1) True))
     (Some []) = None"
proof -
  let ?fs = "\<lambda>t. Inr (if t = JOIN_TEXT then JObj [(''j'', JObj [(''p'', JBool True)])] else ld_position (if t = ''a'' then 0 else 29)) :: (string, json) result"
  let ?ser = "\<lambda>v. if v = ld_position 0 then ''a'' else ''b''"
  have n: "''a'' \<noteq> JOIN_TEXT" "''b'' \<noteq> JOIN_TEXT" by (simp_all add: JOIN_TEXT_def)
  have x: "ld_position 29 \<noteq> ld_position 0"
  proof
    assume "ld_position 29 = ld_position 0"
    then have "line_state 29 = line_state 0" using line_parsed [of 29] line_parsed [of 0] by (simp add: line_state_def Let_def viewer_data_default_def)
    then show False by (simp add: line_state_def Let_def)
  qed
  have r: "reads_back ?fs ?ser (ld_position 0)" "reads_back ?fs ?ser (ld_position 29)" using n x by (simp_all add: reads_back_def)
  have w: "ld_spread ?ser (\<lambda>_. True) 0 = [JOIN_TEXT, ''a'']" "ld_spread ?ser (\<lambda>_. True) 29 = [JOIN_TEXT, ''b'']"
    using x by (simp_all add: ld_spread_def)
  from load_line_hearing [OF r _ _ _ _ refl refl, where uuid_i = "''wv-1''" and uuid_j = "''wv-2''" and L = exact_libm and f = "[]" and scene = "''region''"]
  show ?thesis unfolding w by simp
qed

end
