(* ===== verification/Unit_Tests.thy ===== *)
theory Unit_Tests
  imports Transport
begin

text \<open>
  The unit tests of \<open>src/src/proto.rs\<close> and \<open>src/src/session.rs\<close>, on the model. A test is a Boolean: the
  conjunction of its assertions on what the model's functions return for the inputs the test builds. That
  each holds is a check of the model against the expectations its authors wrote down.

  The texts go through the parser and the printer of serde_json, which are parameters: \<open>json_reads\<close> says
  which value each literal denotes, \<open>json_prints\<close> how the compact printer writes the values the tests print.
\<close>

section \<open>The tests of the wire protocol\<close>

abbreviation pos :: "u64 \<Rightarrow> json" where "pos n \<equiv> JNum (PosInt n)"
abbreviation neg :: "64 word \<Rightarrow> json" where "neg n \<equiv> JNum (NegInt n)"

definition T_POSITION :: string where
  "T_POSITION = ''{\"sp\":{\"x\":12345,\"y\":-200,\"z\":2100},\"lh\":{\"x\":0,\"y\":0,\"z\":0,\"w\":100}}''"
definition T_JOIN :: string where "T_JOIN = ''{\"j\":{}}''"
definition T_JOIN_PRIMARY :: string where "T_JOIN_PRIMARY = ''{\"j\":{\"p\":true}}''"
definition T_MAPS :: string where
  "T_MAPS = ''{\"ug\":{\"11111111-1111-1111-1111-111111111111\":110},'' @ [CHR 0x0A] @
     ''                \"m\":{\"22222222-2222-2222-2222-222222222222\":true}}''"
definition T_VIVOX :: string where "T_VIVOX = ''{\"voice_server_type\":\"vivox\"}''"
definition T_OFFER :: string where
  "T_OFFER = ''{\"jsep\":{\"type\":\"offer\",\"sdp\":\"v=0\"},\"channel_type\":\"local\",'' @ [CHR 0x0A] @
     ''                \"parcel_local_id\":7,\"voice_server_type\":\"webrtc\"}''"
definition T_CANDIDATES :: string where
  "T_CANDIDATES = ''{\"candidates\":[{\"candidate\":\"candidate:1 1 udp 1 1.2.3.4 5 typ host\",'' @ [CHR 0x0A] @
     ''                \"sdpMid\":\"0\",\"sdpMLineIndex\":0}],\"viewer_session\":\"s\"}''"
definition T_COMPLETED :: string where "T_COMPLETED = ''{\"candidate\":{\"completed\":true}}''"

text \<open>The values these texts denote (objects in key order).\<close>

definition test_values :: "(string \<times> json) list" where
  "test_values =
     [(T_POSITION, json_obj [(''sp'', json_obj [(''x'', pos 12345), (''y'', neg (- 200)), (''z'', pos 2100)]),
         (''lh'', json_obj [(''x'', pos 0), (''y'', pos 0), (''z'', pos 0), (''w'', pos 100)])]),
      (T_JOIN, json_obj [(''j'', json_obj [])]),
      (T_JOIN_PRIMARY, json_obj [(''j'', json_obj [(''p'', JBool True)])]),
      (T_MAPS, json_obj [(''ug'', json_obj [(''11111111-1111-1111-1111-111111111111'', pos 110)]),
         (''m'', json_obj [(''22222222-2222-2222-2222-222222222222'', JBool True)])]),
      (T_VIVOX, json_obj [(''voice_server_type'', JStr ''vivox'')]),
      (T_OFFER, json_obj [(''jsep'', json_obj [(''type'', JStr ''offer''), (''sdp'', JStr ''v=0'')]),
         (''channel_type'', JStr ''local''), (''parcel_local_id'', pos 7), (''voice_server_type'', JStr ''webrtc'')]),
      (T_CANDIDATES, json_obj [(''candidates'', JArr [json_obj
           [(''candidate'', JStr ''candidate:1 1 udp 1 1.2.3.4 5 typ host''), (''sdpMid'', JStr ''0''), (''sdpMLineIndex'', pos 0)]]),
         (''viewer_session'', JStr ''s'')]),
      (T_COMPLETED, json_obj [(''candidate'', json_obj [(''completed'', JBool True)])])]"

definition json_reads :: "(string \<Rightarrow> (string, json) result) \<Rightarrow> bool" where
  "json_reads from_str \<longleftrightarrow> list_all (\<lambda>(s, v). from_str s = Inr v) test_values"

text \<open>The printer: no white space, members in key order, keys without characters to escape in quotes.\<close>

definition plain_key :: "string \<Rightarrow> bool" where
  "plain_key = list_all (\<lambda>c. c = CHR ''-'' \<or> 48 \<le> byte_of c \<and> byte_of c \<le> 57 \<or> 97 \<le> byte_of c \<and> byte_of c \<le> 122)"

fun commas :: "string list \<Rightarrow> string" where
  "commas [] = []"
| "commas [x] = x"
| "commas (x # xs) = x @ '','' @ commas xs"

definition quoted :: "string \<Rightarrow> string" where "quoted s = ''\"'' @ s @ ''\"''"

definition prints_member :: "(json \<Rightarrow> string) \<Rightarrow> string \<times> json \<Rightarrow> string" where
  "prints_member ser kv = quoted (fst kv) @ '':'' @ ser (snd kv)"

definition json_prints :: "(json \<Rightarrow> string) \<Rightarrow> bool" where
  "json_prints ser \<longleftrightarrow>
     (\<forall>b. ser (JBool b) = (if b then ''true'' else ''false'')) \<and>
     (\<forall>n. ser (JNum (PosInt n)) = show_int (uint n)) \<and>
     (\<forall>m. list_all (plain_key \<circ> fst) m \<longrightarrow> ser (JObj m) = ''{'' @ commas (map (prints_member ser) m) @ ''}'')"

fun compact :: "json \<Rightarrow> string" where
  "compact (JBool b) = (if b then ''true'' else ''false'')"
| "compact (JNum (PosInt n)) = show_int (uint n)"
| "compact (JObj m) = ''{'' @ commas (map (\<lambda>kv. quoted (fst kv) @ '':'' @ compact (snd kv)) m) @ ''}''"
| "compact _ = ''null''"

lemma compact_prints: "json_prints compact"
  by (simp add: json_prints_def prints_member_def [abs_def])

definition is_ok :: "('e, 'a) result \<Rightarrow> ('a \<Rightarrow> bool) \<Rightarrow> bool" where
  "is_ok r P = (case r of Inl _ \<Rightarrow> False | Inr x \<Rightarrow> P x)"

definition parses_position_update_as_metres :: "(string \<Rightarrow> (string, json) result) \<Rightarrow> bool" where
  "parses_position_update_as_metres from_str =
     is_ok (viewer_data_parse from_str T_POSITION) (\<lambda>m.
       vd_avatar_pos m = Some (rnd F64 (12345 / 100), Fin (- 2), Fin 21) \<and>
       vd_listener_rot m = Some (Fin 0, Fin 0, Fin 0, Fin 1))"

definition parses_join_without_primary_flag :: "(string \<Rightarrow> (string, json) result) \<Rightarrow> bool" where
  "parses_join_without_primary_flag from_str =
     (is_ok (viewer_data_parse from_str T_JOIN) (\<lambda>m. vd_join m = Some False) \<and>
      is_ok (viewer_data_parse from_str T_JOIN_PRIMARY) (\<lambda>m. vd_join m = Some True))"

definition parses_gain_and_mute_maps :: "(string \<Rightarrow> (string, json) result) \<Rightarrow> bool" where
  "parses_gain_and_mute_maps from_str =
     is_ok (viewer_data_parse from_str T_MAPS) (\<lambda>m. snd (vd_user_gain m ! 0) = 110 \<and> snd (vd_user_mute m ! 0))"

definition provision_parse_rejects_non_webrtc :: "(string \<Rightarrow> string) \<Rightarrow> (string \<Rightarrow> (string, json) result) \<Rightarrow> bool" where
  "provision_parse_rejects_non_webrtc dbg from_str =
     is_ok (from_str T_VIVOX) (\<lambda>v. case provision_parse dbg v of Inl _ \<Rightarrow> True | Inr _ \<Rightarrow> False)"

definition provision_parse_reads_offer_and_channel :: "(string \<Rightarrow> string) \<Rightarrow> (string \<Rightarrow> (string, json) result) \<Rightarrow> bool" where
  "provision_parse_reads_offer_and_channel dbg from_str =
     is_ok (from_str T_OFFER) (\<lambda>v. is_ok (provision_parse dbg v) (\<lambda>p.
       pr_offer_sdp p = Some ''v=0'' \<and> pr_channel_type p = Some Local \<and> pr_parcel_local_id p = 7 \<and> \<not> pr_logout p))"

definition signaling_parse_handles_both_shapes :: "(string \<Rightarrow> (string, json) result) \<Rightarrow> bool" where
  "signaling_parse_handles_both_shapes from_str =
     (is_ok (from_str T_CANDIDATES) (\<lambda>v. let s = signaling_parse v in length (sg_candidates s) = 1 \<and> \<not> sg_completed s) \<and>
      is_ok (from_str T_COMPLETED) (\<lambda>v. let s = signaling_parse v in sg_completed s \<and> sg_candidates s = []))"

definition leave_notice_uses_the_l_flag :: "(json \<Rightarrow> string) \<Rightarrow> bool" where
  "leave_notice_uses_the_l_flag ser =
     (let s = leave_json ser ''cccccccc-0000-0000-0000-000000000000''
      in contains s ''\"l\":true'' \<and> contains s ''cccccccc-0000-0000-0000-000000000000'')"

definition roster_uses_viewer_field_names :: "(json \<Rightarrow> string) \<Rightarrow> bool" where
  "roster_uses_viewer_field_names ser =
     (let e = \<lparr>re_joined = True, re_primary = True, re_power = 64, re_speaking = True, re_moderator_muted = False\<rparr>;
          s = roster_json ser [(''aaaaaaaa-0000-0000-0000-000000000000'', e)]
      in contains s ''\"j\":{\"p\":true}'' \<and> contains s ''\"p\":64'' \<and> contains s ''\"v\":true'')"

section \<open>The tests of the endpoint\<close>

definition CRLF :: string where "CRLF = [CHR 0x0D, CHR 0x0A]"

definition reads_negotiated_opus_payload_type :: bool where
  "reads_negotiated_opus_payload_type =
     (let sdp = ''v=0'' @ CRLF @ ''m=audio 9 UDP/TLS/RTP/SAVPF 111'' @ CRLF @ ''a=rtpmap:111 opus/48000/2'' @ CRLF @
                ''a=fmtp:111 minptime=10'' @ CRLF
      in negotiated_opus_pt sdp = Some 111)"

definition ignores_non_opus_rtpmaps :: bool where
  "ignores_non_opus_rtpmaps =
     (let sdp = ''a=rtpmap:0 PCMU/8000'' @ CRLF @ ''a=rtpmap:96 VP8/90000'' @ CRLF in negotiated_opus_pt sdp = None)"

definition payload_type_lookup_is_case_insensitive :: bool where
  "payload_type_lookup_is_case_insensitive =
     (let sdp = ''a=rtpmap:96 OPUS/48000/2'' @ CRLF in negotiated_opus_pt sdp = Some 96)"

definition port_pool_stays_inside_the_firewalled_range :: bool where
  "port_pool_stays_inside_the_firewalled_range =
     (case ports 7 (PortPool_new 40000 40002) of
        None \<Rightarrow> False
      | Some xs \<Rightarrow> list_all (\<lambda>p. 40000 \<le> p \<and> p \<le> 40002) xs \<and> list_ex (\<lambda>p. p \<noteq> xs ! 0) xs)"

text \<open>The loop reads the clock at each call and goes on with the counter the call leaves.\<close>

fun ssrc_loop :: "u32 list \<Rightarrow> u32 \<Rightarrow> bool" where
  "ssrc_loop [] counter = True"
| "ssrc_loop (t # ts) counter = (case rand_u32 counter t of (n, counter) \<Rightarrow> n \<noteq> 0 \<and> ssrc_loop ts counter)"

definition ssrc_is_never_zero :: "u32 \<Rightarrow> (nat \<Rightarrow> u32) \<Rightarrow> bool" where
  "ssrc_is_never_zero counter nanos = ssrc_loop (map nanos [0..<100]) counter"

section \<open>They hold\<close>

lemma json_readsD:
  assumes "json_reads from_str" shows "\<And>s v. (s, v) \<in> set test_values \<Longrightarrow> from_str s = Inr v"
  using assms by (auto simp: json_reads_def list_all_iff)

lemma read_position:
  "from_str T_POSITION = Inr (json_obj [(''sp'', json_obj [(''x'', pos 12345), (''y'', neg (- 200)), (''z'', pos 2100)]),
      (''lh'', json_obj [(''x'', pos 0), (''y'', pos 0), (''z'', pos 0), (''w'', pos 100)])]) \<Longrightarrow>
    parses_position_update_as_metres from_str"
proof -
  have "fp_of_int F64 12345 = Fin 12345" "fp_of_int F64 (- 200) = Fin (- 200)" "fp_of_int F64 2100 = Fin 2100"
    "fp_of_int F64 0 = Fin 0" "fp_of_int F64 100 = Fin 100"
    by code_simp+
  moreover have "rnd F64 (- 2) = Fin (- 2)" "rnd F64 21 = Fin 21" "rnd F64 0 = Fin 0" "rnd F64 1 = Fin 1"
    by code_simp+
  moreover assume "from_str T_POSITION = Inr (json_obj [(''sp'', json_obj [(''x'', pos 12345), (''y'', neg (- 200)), (''z'', pos 2100)]),
      (''lh'', json_obj [(''x'', pos 0), (''y'', pos 0), (''z'', pos 0), (''w'', pos 100)])])"
  ultimately show ?thesis
    by (simp add: parses_position_update_as_metres_def is_ok_def viewer_data_parse_def viewer_data_of_value_def
        res_bind_def jget_json_obj parse_vec3_def parse_vec4_def coord_def POSITION_SCALE_def)
qed

lemma wire_values:
  assumes "json_reads from_str"
  shows "parses_position_update_as_metres from_str" "parses_join_without_primary_flag from_str"
    "parses_gain_and_mute_maps from_str" "provision_parse_rejects_non_webrtc dbg from_str"
    "provision_parse_reads_offer_and_channel dbg from_str" "signaling_parse_handles_both_shapes from_str"
proof -
  note r = assms [unfolded json_reads_def test_values_def list.pred_inject prod.case]
  show "parses_position_update_as_metres from_str" using r by (intro read_position) simp
  show "parses_join_without_primary_flag from_str"
    using r by (simp add: parses_join_without_primary_flag_def is_ok_def viewer_data_parse_def viewer_data_of_value_def
        res_bind_def jget_json_obj unwrap_or_def)
  show "parses_gain_and_mute_maps from_str"
    using r by (simp add: parses_gain_and_mute_maps_def is_ok_def viewer_data_parse_def viewer_data_of_value_def
        res_bind_def jget_json_obj json_obj_def bt_of_list_def MAX_PEER_ENTRIES_def)
  show "provision_parse_rejects_non_webrtc dbg from_str"
    using r by (simp add: provision_parse_rejects_non_webrtc_def is_ok_def provision_parse_def jget_str_def
        jget_json_obj res_bind_def eq_ignore_ascii_case_def VOICE_SERVER_TYPE_def to_ascii_lowercase_def ascii_lower_def byte_of_def)
  show "provision_parse_reads_offer_and_channel dbg from_str"
    using r by (simp add: provision_parse_reads_offer_and_channel_def is_ok_def provision_parse_def jget_str_def
        jget_json_obj res_bind_def eq_ignore_ascii_case_def VOICE_SERVER_TYPE_def unwrap_or_def opt_filter_def channel_type_parse_def)
  show "signaling_parse_handles_both_shapes from_str"
    using r by (simp add: signaling_parse_handles_both_shapes_def is_ok_def signaling_parse_def jget_str_def
        jget_json_obj Let_def unwrap_or_def)
qed

lemma wire_texts:
  assumes "json_prints ser"
  shows "leave_notice_uses_the_l_flag ser" "roster_uses_viewer_field_names ser"
proof -
  have b: "ser (JBool x) = (if x then ''true'' else ''false'')" for x using assms by (simp add: json_prints_def)
  have n: "ser (JNum (PosInt x)) = show_int (uint x)" for x using assms by (simp add: json_prints_def)
  have o: "list_all (plain_key \<circ> fst) m \<Longrightarrow> ser (JObj m) = ''{'' @ commas (map (prints_member ser) m) @ ''}''" for m
    using assms by (simp add: json_prints_def)
  have plain: "plain_key ''l''" "plain_key ''j''" "plain_key ''p''" "plain_key ''v''" "plain_key ''m''"
    "plain_key ''cccccccc-0000-0000-0000-000000000000''" "plain_key ''aaaaaaaa-0000-0000-0000-000000000000''"
    by code_simp+
  have "leave_json ser ''cccccccc-0000-0000-0000-000000000000'' = ''{\"cccccccc-0000-0000-0000-000000000000\":{\"l\":true}}''"
    by (simp add: leave_json_def leave_value_def json_obj_def bt_of_list_def o b plain prints_member_def quoted_def)
  moreover have "contains ''{\"cccccccc-0000-0000-0000-000000000000\":{\"l\":true}}'' ''\"l\":true''"
    "contains ''{\"cccccccc-0000-0000-0000-000000000000\":{\"l\":true}}'' ''cccccccc-0000-0000-0000-000000000000''"
    by code_simp+
  ultimately show "leave_notice_uses_the_l_flag ser" by (simp add: leave_notice_uses_the_l_flag_def)
  let ?e = "\<lparr>re_joined = True, re_primary = True, re_power = 64, re_speaking = True, re_moderator_muted = False\<rparr>"
  have "show_int 64 = ''64''" by code_simp
  moreover have "roster_value [(''aaaaaaaa-0000-0000-0000-000000000000'', ?e)] =
      JObj [(''aaaaaaaa-0000-0000-0000-000000000000'', JObj [(''j'', JObj [(''p'', JBool True)]), (''m'', JBool False),
        (''p'', JNum (PosInt 64)), (''v'', JBool True)])]"
    by code_simp
  ultimately have "roster_json ser [(''aaaaaaaa-0000-0000-0000-000000000000'', ?e)] =
      ''{\"aaaaaaaa-0000-0000-0000-000000000000\":{\"j\":{\"p\":true},\"m\":false,\"p\":64,\"v\":true}}''"
    by (simp add: roster_json_def o b n plain prints_member_def quoted_def)
  moreover have
    "contains ''{\"aaaaaaaa-0000-0000-0000-000000000000\":{\"j\":{\"p\":true},\"m\":false,\"p\":64,\"v\":true}}'' ''\"j\":{\"p\":true}''"
    "contains ''{\"aaaaaaaa-0000-0000-0000-000000000000\":{\"j\":{\"p\":true},\"m\":false,\"p\":64,\"v\":true}}'' ''\"p\":64''"
    "contains ''{\"aaaaaaaa-0000-0000-0000-000000000000\":{\"j\":{\"p\":true},\"m\":false,\"p\":64,\"v\":true}}'' ''\"v\":true''"
    by code_simp+
  ultimately show "roster_uses_viewer_field_names ser" by (simp add: roster_uses_viewer_field_names_def)
qed

lemma session_tests:
  "reads_negotiated_opus_payload_type" "ignores_non_opus_rtpmaps" "payload_type_lookup_is_case_insensitive"
  "port_pool_stays_inside_the_firewalled_range"
  by code_simp+

lemma ssrc_loop_holds: "ssrc_loop ts counter"
proof (induction ts arbitrary: counter)
  case (Cons t ts)
  have "bit (fst (rand_u32 counter t)) 0" by (simp add: rand_u32_def bit_or_iff bit_1_iff)
  then have "fst (rand_u32 counter t) \<noteq> 0" by auto
  then show ?case using Cons by (cases "rand_u32 counter t") simp
qed simp

text \<open>The expectations the authors wrote down for the wire protocol and the endpoint hold of the model: all
  eight unit tests of \<open>proto.rs\<close> pass, whatever parser reads their literals as the values these denote and
  whatever printer writes booleans, integers and objects compactly, and all five unit tests of
  \<open>session.rs\<close>, that of the random identifiers for every start and every clock.\<close>

lemma protocol_and_endpoint_tests:
  assumes "json_reads from_str" "json_prints ser"
  shows "parses_position_update_as_metres from_str \<and> parses_join_without_primary_flag from_str \<and>
    parses_gain_and_mute_maps from_str \<and> provision_parse_rejects_non_webrtc dbg from_str \<and>
    provision_parse_reads_offer_and_channel dbg from_str \<and> signaling_parse_handles_both_shapes from_str \<and>
    leave_notice_uses_the_l_flag ser \<and> roster_uses_viewer_field_names ser \<and>
    reads_negotiated_opus_payload_type \<and> ignores_non_opus_rtpmaps \<and> payload_type_lookup_is_case_insensitive \<and>
    port_pool_stays_inside_the_firewalled_range \<and> ssrc_is_never_zero counter nanos"
  using wire_values [OF assms(1)] wire_texts [OF assms(2)] session_tests ssrc_loop_holds
  by (simp add: ssrc_is_never_zero_def)

definition literal_reader :: "string \<Rightarrow> (string, json) result" where
  "literal_reader s = (case map_of test_values s of None \<Rightarrow> Inl ''not a test literal'' | Some v \<Rightarrow> Inr v)"

lemma literal_reader_reads: "json_reads literal_reader"
proof -
  have "distinct (map fst test_values)" by code_simp
  then show ?thesis by (auto simp: json_reads_def list_all_iff literal_reader_def)
qed

lemma protocol_and_endpoint_tests_witness:
  "provision_parse_reads_offer_and_channel (\<lambda>s. s) literal_reader \<and> roster_uses_viewer_field_names compact"
  using protocol_and_endpoint_tests [OF literal_reader_reads compact_prints] by blast

end
