(* ===== verification/Mixer_Tests.thy ===== *)
theory Mixer_Tests
  imports Unit_Tests Stereo_Image
begin

text \<open>
  The unit tests of \<open>src/src/mixer.rs\<close>, on the model, for every mathematics library whose sine and cosine are
  accurate and whose hyperbolic tangent is bounded (\<open>libm_ok\<close>).
\<close>

section \<open>The tests of the mixer\<close>

fun fabs :: "fp \<Rightarrow> fp" where
  "fabs FNaN = FNaN"
| "fabs (FInf s) = FInf False"
| "fabs (Fin x) = Fin \<bar>x\<bar>"

text \<open>\<open>(a - b).abs() < eps\<close>, in the format of \<open>a\<close>.\<close>

definition close :: "fmt \<Rightarrow> fp \<Rightarrow> fp \<Rightarrow> real \<Rightarrow> bool" where
  "close f a b eps = fp_lt (fabs (fsub f a b)) (rnd f eps)"

definition distance_gain_matches_documented_range :: bool where
  "distance_gain_matches_documented_range =
     (fp_eq (distance_gain (Fin 0)) (Fin 1) \<and> fp_eq (distance_gain (Fin 10)) (Fin 1) \<and>
      fp_eq (distance_gain (Fin 60)) (Fin 0) \<and> fp_eq (distance_gain (Fin 1000)) (Fin 0) \<and>
      close F32 (distance_gain (Fin 35)) (Fin (1 / 2)) (1 / 10 ^ 6))"

definition tether_clamps_beyond_fifty_metres :: bool where
  "tether_clamps_beyond_fifty_metres =
     (let avatar = (Fin 0, Fin 0, Fin 0); t = tether (Fin 100, Fin 0, Fin 0) avatar; t2 = tether (Fin 10, Fin 0, Fin 0) avatar
      in close F64 (fst t) (Fin 50) (1 / 10 ^ 9) \<and> t2 = (Fin 10, Fin 0, Fin 0))"

definition pan_puts_east_speaker_on_the_right_of_a_north_facing_listener :: "libm \<Rightarrow> bool" where
  "pan_puts_east_speaker_on_the_right_of_a_north_facing_listener L =
     ((let (l, r) = pan_weights L (Fin 10, Fin 0, Fin 0) (Fin 0, Fin 0, Fin 0) north in fp_lt l r) \<and>
      (let (l, r) = pan_weights L (Fin (- 10), Fin 0, Fin 0) (Fin 0, Fin 0, Fin 0) north in fp_lt r l))"

definition pan_is_constant_power :: "libm \<Rightarrow> bool" where
  "pan_is_constant_power L =
     list_all (\<lambda>pos. let (l, r) = pan_weights L pos (Fin 0, Fin 0, Fin 0) north; power = fadd F32 (fmul F32 l l) (fmul F32 r r)
         in close F32 power (Fin 1) (1 / 10 ^ 5))
       [(Fin 10, Fin 0, Fin 0), (Fin 0, Fin 10, Fin 0), (Fin (- 3), Fin 4, Fin 0)]"

definition straight_ahead_is_centred :: "libm \<Rightarrow> bool" where
  "straight_ahead_is_centred L =
     (let (l, r) = pan_weights L (Fin 0, Fin 10, Fin 0) (Fin 0, Fin 0, Fin 0) north in close F32 l r (1 / 10 ^ 5))"

definition mix_writes_interleaved_stereo_and_soft_clips :: "libm \<Rightarrow> bool" where
  "mix_writes_interleaved_stereo_and_soft_clips L =
     (let frame = replicate FRAME_SAMPLES (Fin (1 / 2));
          contribs = [\<lparr>c_frame = frame, c_gain = Fin 1, c_pan = (Fin 1, Fin 0)\<rparr>];
          loud = replicate FRAME_SAMPLES (Fin 1);
          many = map (\<lambda>_. \<lparr>c_frame = loud, c_gain = Fin 1, c_pan = (Fin 1, Fin 1)\<rparr>) [0..<8]
      in case mix_stereo L contribs (replicate (FRAME_SAMPLES * 2) (Fin 0)) of
           None \<Rightarrow> False
         | Some out \<Rightarrow>
             close F32 (out ! 0) (Fin (1 / 2)) (1 / 10 ^ 6) \<and> fp_eq (out ! 1) (Fin 0) \<and>
             (case mix_stereo L many out of None \<Rightarrow> False | Some out \<Rightarrow> list_all (\<lambda>s. fp_le (fabs s) (Fin 1)) out))"

definition silent_frame_reports_zero_level :: bool where
  "silent_frame_reports_zero_level =
     (level_to_wire (replicate FRAME_SAMPLES (Fin 0)) = 0 \<and>
      (let loud = level_to_wire (replicate FRAME_SAMPLES (Fin (1 / 2)))
       in fp_lt SPEAKING_AUDIO_LEVEL (fdiv F32 (fp_of_int F32 (uint loud)) LEVEL_SCALE_TO_WIRE)))"

lemma test_distance: distance_gain_matches_documented_range
  by code_simp

lemma closeI:
  assumes "\<bar>x - y\<bar> \<le> e" "e \<le> 1" "e + 1 / 2 ^ 22 < eps - 1 / 2 ^ 22" "0 \<le> eps" "eps \<le> 1"
  shows "close F32 (Fin x) (Fin y) eps"
proof -
  have a: "\<bar>x - y\<bar> \<le> 2" "\<bar>eps\<bar> \<le> 2" using assms by linarith+
  have "\<bar>rnd_real F32 (x - y)\<bar> \<le> e + 1 / 2 ^ 22" using rnd32_err(2) [OF a(1)] assms(1) by linarith
  moreover have "eps - 1 / 2 ^ 22 \<le> rnd_real F32 eps" using rnd32_err(2) [OF a(2)] by linarith
  ultimately show ?thesis using assms(3) rnd32_err(1) [OF a(1)] rnd32_err(1) [OF a(2)] by (simp add: close_def fsub_def)
qed

lemma test_tether: tether_clamps_beyond_fifty_metres
proof -
  have n: "v3_norm (Fin 100, Fin 0, Fin 0) = Fin 100" "v3_norm (Fin 10, Fin 0, Fin 0) = Fin 10"
    using norm_axis(2) [of 100] norm_axis(2) [of 10] by simp_all
  have h: "repr F64 (1 / 2)" by (rule repr_parts)
  have e: "rnd F64 (1 / 2) = Fin (1 / 2)" using h by (rule rnd_repr) (rule small_ok, simp)
  have p: "fp_lt (Fin 0) (rnd F64 (1 / 1000000000))" by code_simp
  show ?thesis
    using p by (auto simp: tether_clamps_beyond_fifty_metres_def Let_def tether_def v3_sub_def fsub_def rnd_repr n MAX_AUDIO_DIST_def e close_def)
qed

lemma pan_units: "repr F64 (10 * 10)" "repr F64 10" "repr F64 (- 10 * - 10)" by simp_all

lemma test_pan:
  assumes "libm_ok L" shows "pan_puts_east_speaker_on_the_right_of_a_north_facing_listener L" "straight_ahead_is_centred L"
proof -
  have d: "\<bar>10 - 0\<bar> \<le> (128 :: real)" "\<bar>0 - 0\<bar> \<le> (128 :: real)" "\<bar>- 10 - 0\<bar> \<le> (128 :: real)" by simp_all
  obtain l r where e: "pan_weights L (Fin 10, Fin 0, Fin 0) (Fin 0, Fin 0, Fin 0) north = (Fin l, Fin r)" "l + 1 / 2000 \<le> r"
    using pan_heading [OF assms d(1,2,2)] by force
  obtain l' r' where w: "pan_weights L (Fin (- 10), Fin 0, Fin 0) (Fin 0, Fin 0, Fin 0) north = (Fin l', Fin r')" "r' + 1 / 2000 \<le> l'"
    using pan_heading [OF assms d(3,2,2)] by force
  show "pan_puts_east_speaker_on_the_right_of_a_north_facing_listener L"
    using e(2) w(2) by (simp add: pan_puts_east_speaker_on_the_right_of_a_north_facing_listener_def e(1) w(1))
  have n: "world_to_local (v3_sub (Fin 0, Fin 10, Fin 0) (Fin 0, Fin 0, Fin 0)) north = (Fin 0, Fin 10, Fin 0)"
    using facing(1) [of 0 10 0] by (simp add: v3_sub_def fsub_def rnd_repr)
  obtain a b where c: "pan_weights L (Fin 0, Fin 10, Fin 0) (Fin 0, Fin 0, Fin 0) north = (Fin a, Fin b)" "\<bar>a - b\<bar> \<le> 3 / 10 ^ 6"
    using pan_side [OF assms n] by auto
  have "close F32 (Fin a) (Fin b) (1 / 10 ^ 5)" using c(2) by (rule closeI) simp_all
  then show "straight_ahead_is_centred L" by (simp add: straight_ahead_is_centred_def c(1))
qed

lemma in_range:
  assumes "v3_norm (v3_sub s (Fin 0, Fin 0, Fin 0)) = Fin d" "d < 60"
  shows "fp_lt (v3_norm (v3_sub s (Fin 0, Fin 0, Fin 0))) MAX_DISTANCE"
  using assms by (simp add: MAX_DISTANCE_def)

lemma power_close:
  assumes "pan_weights L s l q = (Fin wl, Fin wr)" "\<bar>wl\<^sup>2 + wr\<^sup>2 - 1\<bar> \<le> 3 / 10 ^ 6"
  shows "case pan_weights L s l q of (l, r) \<Rightarrow> close F32 (fadd F32 (fmul F32 l l) (fmul F32 r r)) (Fin 1) (1 / 10 ^ 5)"
proof -
  have g: "\<bar>a\<bar> \<le> 2 \<and> \<bar>b\<bar> \<le> 2" if "\<bar>a + b - 1\<bar> \<le> e" "e \<le> 1" "0 \<le> a" "0 \<le> b" for a b e :: real
    using that by linarith
  have b: "\<bar>wl * wl\<bar> \<le> 2" "\<bar>wr * wr\<bar> \<le> 2"
    using g [OF assms(2)] unfolding power2_eq_square by simp_all
  have k: "1 / 2 ^ 22 \<le> (1 / 10 ^ 6 :: real)" by simp
  have e: "\<bar>rnd_real F32 (wl * wl) - wl * wl\<bar> \<le> 1 / 10 ^ 6" "\<bar>rnd_real F32 (wr * wr) - wr * wr\<bar> \<le> 1 / 10 ^ 6"
    using rnd32_err(2) [OF b(1)] rnd32_err(2) [OF b(2)] k by linarith+
  let ?s = "rnd_real F32 (wl * wl) + rnd_real F32 (wr * wr)"
  have s: "\<bar>?s - 1\<bar> \<le> 5 / 10 ^ 6" using e assms(2) unfolding power2_eq_square by linarith
  have h: "\<bar>x\<bar> \<le> 2" if "\<bar>x - 1\<bar> \<le> e" "e \<le> 1" for x e :: real using that by linarith
  have "\<bar>?s\<bar> \<le> 2" using s by (rule h) simp
  note r = rnd32_err [OF this]
  have "\<bar>rnd_real F32 ?s - 1\<bar> \<le> 6 / 10 ^ 6" using r(2) s k by linarith
  then have "close F32 (Fin (rnd_real F32 ?s)) (Fin 1) (1 / 10 ^ 5)" by (rule closeI) simp_all
  then show ?thesis by (simp add: assms(1) rnd32_err(1) [OF b(1)] rnd32_err(1) [OF b(2)] r(1))
qed

lemma north_sane: "mag4 200 north"
proof -
  have "pow2 0 \<le> pow2 200" by (rule pow2_mono) simp
  then show ?thesis by (simp add: mag4_def)
qed

lemma small_coord: "\<bar>x\<bar> \<le> 1000 \<Longrightarrow> \<bar>x\<bar> \<le> coord_bound"
  using coord_bound_big by (rule order_trans [rotated]) simp

lemma power_at:
  assumes "libm_ok L" "\<bar>x\<bar> \<le> 1000" "\<bar>y\<bar> \<le> 1000" "v3_norm (v3_sub (Fin x, Fin y, Fin 0) (Fin 0, Fin 0, Fin 0)) = Fin d" "d < 60"
  shows "case pan_weights L (Fin x, Fin y, Fin 0) (Fin 0, Fin 0, Fin 0) north of (l, r) \<Rightarrow>
    close F32 (fadd F32 (fmul F32 l l) (fmul F32 r r)) (Fin 1) (1 / 10 ^ 5)"
proof -
  have "ear_ok (Fin 0, Fin 0, Fin 0)" "vec3_ok (Fin x, Fin y, Fin 0)"
    using small_coord [OF assms(2)] small_coord [OF assms(3)] small_coord [of 0] by (auto simp: ear_ok_iff vec3_ok_iff)
  from pan_power [OF assms(1) this north_sane in_range [OF assms(4,5)]] show ?thesis by (elim exE conjE) (rule power_close)
qed

lemma test_power:
  assumes "libm_ok L" shows "pan_is_constant_power L"
proof -
  have s: "sqrt 100 = (10 :: real)" "sqrt 25 = (5 :: real)" by (rule real_sqrt_unique; simp)+
  have n: "v3_norm (v3_sub (Fin 10, Fin 0, Fin 0) (Fin 0, Fin 0, Fin 0)) = Fin 10"
    "v3_norm (v3_sub (Fin 0, Fin 10, Fin 0) (Fin 0, Fin 0, Fin 0)) = Fin 10"
    "v3_norm (v3_sub (Fin (- 3), Fin 4, Fin 0) (Fin 0, Fin 0, Fin 0)) = Fin 5"
    by (simp_all add: v3_norm_def v3_sub_def fsub_def rnd_repr s)
  show ?thesis
    using power_at [OF assms _ _ n(1)] power_at [OF assms _ _ n(2)] power_at [OF assms _ _ n(3)]
    by (simp add: pan_is_constant_power_def Let_def split_beta)
qed

lemma test_level: silent_frame_reports_zero_level
proof -
  have len: "int (length (replicate FRAME_SAMPLES x)) < 2 ^ 24" for x :: fp by (simp add: FRAME_SAMPLES_def)
  have "level_to_wire (replicate FRAME_SAMPLES (Fin 0)) = 0" using level_meter_spec [OF len, of "Fin 0"] by simp
  moreover have "64 \<le> unat (level_to_wire (replicate FRAME_SAMPLES (Fin (1 / 2))))"
    using level_meter_spec [OF len, of "Fin (1 / 2)"] by (auto simp: FRAME_SAMPLES_def)
  then have "speaking_of (level_to_wire (replicate FRAME_SAMPLES (Fin (1 / 2))))" by (simp add: speaking_39)
  ultimately show ?thesis by (simp add: silent_frame_reports_zero_level_def speaking_of_def)
qed

lemma test_mix:
  assumes "libm_ok L" shows "mix_writes_interleaved_stereo_and_soft_clips L"
proof -
  let ?frame = "replicate FRAME_SAMPLES (Fin (1 / 2))" and ?loud = "replicate FRAME_SAMPLES (Fin 1)"
  let ?one = "[\<lparr>c_frame = ?frame, c_gain = Fin 1, c_pan = (Fin 1, Fin 0)\<rparr>]"
  let ?many = "map (\<lambda>_. \<lparr>c_frame = ?loud, c_gain = Fin 1, c_pan = (Fin 1, Fin 1)\<rparr>) [0..<8 :: nat]"
  have "repr F32 (1 / 2)" using repr_scaled(1) [of 1 "- 1" F32] by (simp add: pow2_minus)
  then have h: "rnd F32 (1 / 2) = Fin (1 / 2)" by (rule rnd_repr) (rule small_ok, simp)
  have buf: "length (replicate (FRAME_SAMPLES * 2) (Fin 0)) = 2 * FRAME_SAMPLES" by simp
  obtain out where out: "mix_stereo L ?one (replicate (FRAME_SAMPLES * 2) (Fin 0)) = Some out" "length out = 2 * FRAME_SAMPLES"
    and nth: "\<forall>i < FRAME_SAMPLES. out ! (2 * i) = soft_clip L (channel_sum fst i ?one (Fin 0)) \<and>
      out ! (2 * i + 1) = soft_clip L (channel_sum snd i ?one (Fin 0))"
    using mix_out [OF buf, of L ?one] by blast
  have first: "out ! 0 = soft_clip L (channel_sum fst 0 ?one (Fin 0))" "out ! 1 = soft_clip L (channel_sum snd 0 ?one (Fin 0))"
    using nth [rule_format, of 0] by (simp_all add: FRAME_SAMPLES_def)
  have o: "out ! 0 = Fin (1 / 2)" "out ! 1 = Fin 0"
    using first h by (simp_all add: channel_sum_def audible_def FRAME_SAMPLES_def rnd_repr soft_clip_def)
  obtain out2 where out2: "mix_stereo L ?many out = Some out2" using mix_out [OF out(2), of L ?many] by auto
  have "\<forall>s \<in> set out2. fbetween (- 1) 1 s"
    using mix_bounded [OF assms out(2) out2] by (auto simp: sane_def FRAME_SAMPLES_def)
  then have "list_all (\<lambda>s. fp_le (fabs s) (Fin 1)) out2" by (auto simp: list_all_iff elim!: fbetweenE)
  moreover have "close F32 (out ! 0) (Fin (1 / 2)) (1 / 10 ^ 6)" unfolding o(1) by (rule closeI [of _ _ 0]) simp_all
  ultimately show ?thesis
    using o(2) by (simp add: mix_writes_interleaved_stereo_and_soft_clips_def Let_def out(1) out2)
qed

text \<open>The expectations the authors wrote down for the mixer hold of the model: all seven unit tests of
  \<open>mixer.rs\<close> pass, in the arithmetic of the code and with every accurate mathematics library.\<close>

lemma mixer_tests:
  assumes "libm_ok L"
  shows "distance_gain_matches_documented_range \<and> tether_clamps_beyond_fifty_metres \<and>
    pan_puts_east_speaker_on_the_right_of_a_north_facing_listener L \<and> pan_is_constant_power L \<and>
    straight_ahead_is_centred L \<and> mix_writes_interleaved_stereo_and_soft_clips L \<and> silent_frame_reports_zero_level"
  using test_distance test_tether test_pan [OF assms] test_power [OF assms] test_mix [OF assms] test_level by blast

lemma mixer_tests_witness: "pan_is_constant_power exact_libm \<and> straight_ahead_is_centred exact_libm"
  using mixer_tests [OF exact_libm_ok] by blast

end
