(* ===== verification/Room_Tests.thy ===== *)
theory Room_Tests
  imports Mixer_Tests
begin

text \<open>
  The unit tests of \<open>src/src/room.rs\<close>, on the model. A test builds its sessions in a store, one address each,
  and mixes the room they stand in; \<open>L\<close>, \<open>c\<close> and \<open>ser\<close> are the mathematics library, the logging settings
  and the JSON printer.
\<close>

section \<open>The tests\<close>

definition test_session :: "string \<Rightarrow> string \<Rightarrow> vec3 \<Rightarrow> session" where
  "test_session sid agent p =
     (let s = Session_new sid agent (Spatial ''region'' 0) True
      in s\<lparr>s_state := (s_state s)\<lparr>avatar_pos := p, listener_pos := p, known := True\<rparr>\<rparr>)"

definition loud :: "session \<Rightarrow> session" where
  "loud s = push_frame (replicate FRAME_SAMPLES (rnd F32 (4 / 10))) s"

abbreviation east :: "real \<Rightarrow> vec3" where "east x \<equiv> (Fin x, Fin 0, Fin 0)"

text \<open>The store that holds the test's sessions at the addresses 0, 1, and so on.\<close>

definition heap :: "session list \<Rightarrow> store" where
  "heap ss a = (if a < length ss then ss ! a else Session_new '''' '''' (Channel '''') False)"

text \<open>\<open>let out = mix_room(..)\<close>, and the output of the session with an identifier.\<close>

definition after_mix ::
    "libm \<Rightarrow> logctl \<Rightarrow> (json \<Rightarrow> string) \<Rightarrow> arc list \<Rightarrow> store \<Rightarrow> (store \<Rightarrow> listener_output list \<Rightarrow> bool) \<Rightarrow> bool" where
  "after_mix L c ser members st P = (case mix_room L c ser members st of None \<Rightarrow> False | Some (st, out, _) \<Rightarrow> P st out)"

definition output_for :: "store \<Rightarrow> listener_output list \<Rightarrow> string \<Rightarrow> (listener_output \<Rightarrow> bool) \<Rightarrow> bool" where
  "output_for st out sid P = (case List.find (\<lambda>out. s_id (st (o_session out)) = sid) out of None \<Rightarrow> False | Some x \<Rightarrow> P x)"

definition quiet :: "fp list \<Rightarrow> bool" where
  "quiet stereo = list_all (\<lambda>s. fp_lt (fabs s) (rnd F32 (1 / 10 ^ 6))) stereo"

text \<open>\<open>iter().step_by(2)\<close>, and \<open>map(|s| s.abs()).sum()\<close>.\<close>

fun step_by2 :: "'a list \<Rightarrow> 'a list" where
  "step_by2 (a # b # xs) = a # step_by2 xs"
| "step_by2 xs = xs"

definition abs_sum :: "fp list \<Rightarrow> fp" where
  "abs_sum xs = fp_sum F32 (map fabs xs)"

definition listener_never_hears_themselves :: "libm \<Rightarrow> logctl \<Rightarrow> (json \<Rightarrow> string) \<Rightarrow> bool" where
  "listener_never_hears_themselves L c ser =
     after_mix L c ser [0] (heap [loud (test_session ''a'' ''agent-a'' (east 0))]) (\<lambda>st out.
       length out = 1 \<and> list_all (\<lambda>s. fp_eq s (Fin 0)) (o_stereo (out ! 0)))"

definition nearby_speaker_is_audible_and_distant_one_is_not :: "libm \<Rightarrow> logctl \<Rightarrow> (json \<Rightarrow> string) \<Rightarrow> bool" where
  "nearby_speaker_is_audible_and_distant_one_is_not L c ser =
     (let st = heap [test_session ''a'' ''agent-a'' (east 0), loud (test_session ''b'' ''agent-b'' (east 5))]
      in after_mix L c ser [0, 1] st (\<lambda>st out.
           output_for st out ''a'' (\<lambda>for_a. list_ex (\<lambda>s. fp_lt (rnd F32 (1 / 100)) (fabs s)) (o_stereo for_a)) \<and>
           (let st = st(2 := loud (test_session ''c'' ''agent-c'' (east 500)))
            in after_mix L c ser [0, 2] st (\<lambda>st out. output_for st out ''a'' (\<lambda>for_a. quiet (o_stereo for_a))))))"

definition each_listener_gets_its_own_mix :: "libm \<Rightarrow> logctl \<Rightarrow> (json \<Rightarrow> string) \<Rightarrow> bool" where
  "each_listener_gets_its_own_mix L c ser =
     after_mix L c ser [0, 1]
       (heap [loud (test_session ''a'' ''agent-a'' (east 0)), loud (test_session ''b'' ''agent-b'' (east 5))]) (\<lambda>st out.
         output_for st out ''a'' (\<lambda>for_a. output_for st out ''b'' (\<lambda>for_b.
           (let a_left = abs_sum (step_by2 (o_stereo for_a)); a_right = abs_sum (step_by2 (tl (o_stereo for_a)))
            in fp_lt a_left a_right) \<and>
           (let b_left = abs_sum (step_by2 (o_stereo for_b)); b_right = abs_sum (step_by2 (tl (o_stereo for_b)))
            in fp_lt b_right b_left))))"

definition per_listener_mute_and_gain_are_respected :: "libm \<Rightarrow> logctl \<Rightarrow> (json \<Rightarrow> string) \<Rightarrow> bool" where
  "per_listener_mute_and_gain_are_respected L c ser =
     (let a = test_session ''a'' ''agent-a'' (east 0); b = test_session ''b'' ''agent-b'' (east 1);
          a = a\<lparr>s_mutes := hm_insert ''agent-b'' True (s_mutes a)\<rparr>
      in after_mix L c ser [0, 1] (heap [a, loud b]) (\<lambda>st out.
           output_for st out ''a'' (\<lambda>for_a. quiet (o_stereo for_a)) \<and>
           (let c' = test_session ''c'' ''agent-c'' (east 0); c' = c'\<lparr>s_gains := hm_insert ''agent-b'' (Fin (1 / 2)) (s_gains c')\<rparr>;
                d = test_session ''d'' ''agent-d'' (east 0)
            in after_mix L c ser [2, 3, 1] (st(2 := c', 3 := d, 1 := loud (st 1))) (\<lambda>st out.
                 output_for st out ''c'' (\<lambda>c'. output_for st out ''d'' (\<lambda>d.
                   let for_c = abs_sum (o_stereo c'); for_d = abs_sum (o_stereo d)
                   in fp_lt (fmul F32 for_c (Fin (3 / 2))) for_d))))))"

definition position_unknown_speakers_are_not_placed_at_the_origin :: "libm \<Rightarrow> logctl \<Rightarrow> (json \<Rightarrow> string) \<Rightarrow> bool" where
  "position_unknown_speakers_are_not_placed_at_the_origin L c ser =
     (let a = test_session ''a'' ''agent-a'' (east 0);
          ghost = push_frame (replicate FRAME_SAMPLES (rnd F32 (9 / 10))) (Session_new ''g'' ''agent-g'' (Spatial ''region'' 0) True)
      in after_mix L c ser [0, 1] (heap [a, ghost]) (\<lambda>st out. output_for st out ''a'' (\<lambda>for_a. quiet (o_stereo for_a))))"

definition J_KEY :: string where "J_KEY = ''\"j\"''"

definition roster_announces_a_join_once :: "libm \<Rightarrow> logctl \<Rightarrow> (json \<Rightarrow> string) \<Rightarrow> bool" where
  "roster_announces_a_join_once L c ser =
     after_mix L c ser [0, 1] (heap [test_session ''a'' ''agent-a'' (east 0), loud (test_session ''b'' ''agent-b'' (east 1))]) (\<lambda>st out.
       output_for st out ''a'' (\<lambda>x. case o_roster x of None \<Rightarrow> False | Some r \<Rightarrow> contains r ''agent-b'' \<and> contains r J_KEY) \<and>
       after_mix L c ser [0, 1] (st(1 := loud (st 1))) (\<lambda>st out.
         output_for st out ''a'' (\<lambda>x. case o_roster x of None \<Rightarrow> False | Some r \<Rightarrow> \<not> contains r J_KEY)))"

definition silent_room_produces_no_roster_traffic :: "libm \<Rightarrow> logctl \<Rightarrow> (json \<Rightarrow> string) \<Rightarrow> bool" where
  "silent_room_produces_no_roster_traffic L c ser =
     after_mix L c ser [0, 1] (heap [test_session ''a'' ''agent-a'' (east 0), test_session ''b'' ''agent-b'' (east 1)]) (\<lambda>st _.
       after_mix L c ser [0, 1] st (\<lambda>st out. list_all (\<lambda>x. o_roster x = None) out))"

definition removing_a_session_drops_its_room_entry :: bool where
  "removing_a_session_drops_its_room_entry =
     (let st = heap [test_session ''a'' ''agent-a'' (east 0)]; room = s_room (st 0); reg = reg_insert st 0 registry_default
      in length (reg_members reg room) = 1 \<and>
         (case reg_remove ''a'' (st, reg) of ((st, reg), _) \<Rightarrow> session_count reg = 0 \<and> reg_rooms reg = []))"

definition jitter_buffer_drops_oldest_rather_than_growing :: bool where
  "jitter_buffer_drops_oldest_rather_than_growing =
     (let a = fold (\<lambda>i a. push_frame (replicate FRAME_SAMPLES (fp_of_int F32 (int i))) a) [0..<JITTER_MAX_FRAMES + 5]
                (test_session ''a'' ''agent-a'' (east 0))
      in length (s_inbound a) = JITTER_MAX_FRAMES \<and>
         (case snd (take_frame a) of None \<Rightarrow> False | Some f \<Rightarrow> fp_eq (f ! 0) (Fin 5)))"

definition gain_conversion_uses_the_viewer_factor :: bool where
  "gain_conversion_uses_the_viewer_factor =
     (let a = test_session ''a'' ''agent-a'' (east 0);
          a = apply_data (viewer_data_default\<lparr>vd_user_gain := [(''agent-b'', 220)]\<rparr>) a
      in close F32 (peer_gain a ''agent-b'') (Fin 1) (1 / 10 ^ 6) \<and>
         (let a = apply_data (viewer_data_default\<lparr>vd_user_gain := [(''agent-b'', 110)]\<rparr>) a
          in close F32 (peer_gain a ''agent-b'') (Fin (1 / 2)) (1 / 10 ^ 6)))"

definition tether_is_reapplied_server_side :: bool where
  "tether_is_reapplied_server_side =
     (let a = test_session ''a'' ''agent-a'' (east 0);
          m = viewer_data_default\<lparr>vd_avatar_pos := Some (east 0), vd_listener_pos := Some (east 1000)\<rparr>;
          st = s_state (apply_data m a);
          d = fabs (fsub F64 (fst (listener_pos st)) (fst (avatar_pos st)))
      in close F64 d MAX_AUDIO_DIST (1 / 10 ^ 6))"

section \<open>Mixing a test room\<close>

lemma after_mixI:
  assumes "distinct members"
    and "\<And>st' out. same_view st st' \<Longrightarrow> map o_session out = members \<Longrightarrow>
      \<forall>x \<in> set out. stereo_of L st (o_session x) (pulled st members) = Some (o_stereo x) \<and>
        o_roster x = roster_text ser (s_announced (st (o_session x)))
          (map (\<lambda>a. (s_agent_id (st a), frame_level (st a), s_primary (st a))) members) \<Longrightarrow>
      \<forall>a \<in> set members. s_inbound (st' a) = tl (s_inbound (st a)) \<and>
        s_announced (st' a) = s_announced (st a) \<union> (\<lambda>a. s_agent_id (st a)) ` set members \<Longrightarrow> P st' out"
  shows "after_mix L c ser members st P"
proof -
  from mix_room_spec [OF assms(1), of L c ser st] obtain st' out logs where
    m: "mix_room L c ser members st = Some (st', out, logs)" "same_view st st'" "map o_session out = members"
      "\<forall>x \<in> set out. stereo_of L st (o_session x) (pulled st members) = Some (o_stereo x) \<and>
        o_roster x = roster_text ser (s_announced (st (o_session x)))
          (map (\<lambda>a. (s_agent_id (st a), frame_level (st a), s_primary (st a))) members)"
      "\<forall>a \<in> set members. s_inbound (st' a) = tl (s_inbound (st a)) \<and> s_level (st' a) = frame_level (st a) \<and>
        s_announced (st' a) = s_announced (st a) \<union> (\<lambda>a. s_agent_id (st a)) ` set members"
    by blast
  have "P st' out" using m(2,3,4) by (rule assms(2)) (use m(5) in blast)
  then show ?thesis by (simp add: after_mix_def m(1))
qed

lemma output_forI:
  assumes "same_view st st'" "map o_session out = members" "m \<in> set members" "inj_on (\<lambda>a. s_id (st a)) (set members)"
    and "\<And>x. x \<in> set out \<Longrightarrow> o_session x = m \<Longrightarrow> P x"
  shows "output_for st' out (s_id (st m)) P"
proof -
  have ids: "s_id (st' a) = s_id (st a)" for a using assms(1) by (simp add: same_view_def same_ids_def)
  obtain y where y: "y \<in> set out" "o_session y = m" using assms(2,3) by (metis (no_types, lifting) image_iff set_map)
  then have "List.find (\<lambda>x. s_id (st' (o_session x)) = s_id (st m)) out \<noteq> None" by (auto simp: find_None_iff ids)
  then obtain x where x: "List.find (\<lambda>x. s_id (st' (o_session x)) = s_id (st m)) out = Some x" by blast
  then have "x \<in> set out" "s_id (st (o_session x)) = s_id (st m)" by (auto simp: find_Some_iff ids)
  moreover have "o_session x \<in> set members" using assms(2) \<open>x \<in> set out\<close> by auto
  ultimately have "o_session x = m" using assms(3,4) by (auto dest: inj_onD)
  then show ?thesis using assms(5) \<open>x \<in> set out\<close> by (simp add: output_for_def x)
qed

section \<open>What a tone becomes\<close>

lemma hears_east:
  assumes "libm_ok L" "s_id s \<noteq> s_id l" "peer_gain l (s_agent_id s) = Fin g" "0 < g" "g \<le> 1" "repr F32 g"
    "s_spatial l" "known (s_state s)" "known (s_state l)" "avatar_pos (s_state s) = east y"
    "listener_pos (s_state l) = east x" "listener_rot (s_state l) = north" "y - x = d"
    "repr F64 (d * d)" "repr F64 d" "1 \<le> \<bar>d\<bar>" "\<bar>d\<bar> \<le> 10"
  shows "\<exists>wl wr. contribution_of L l s (Some f) = Some \<lparr>c_frame = f, c_gain = Fin g, c_pan = (Fin wl, Fin wr)\<rparr> \<and>
    (0 < d \<longrightarrow> \<bar>wl\<bar> \<le> 1 / 10 ^ 5 \<and> \<bar>wr - 1\<bar> \<le> 1 / 10 ^ 5) \<and> (d < 0 \<longrightarrow> \<bar>wl - 1\<bar> \<le> 1 / 10 ^ 5 \<and> \<bar>wr\<bar> \<le> 1 / 10 ^ 5)"
proof -
  have rd: "repr F64 \<bar>d\<bar>" using assms(15) by (simp add: abs_if)
  have "\<bar>d\<bar> \<le> maxfin F64" using assms(17) by (rule order_trans) simp
  then have e: "rnd F64 d = Fin d" using assms(15) by (intro rnd_repr)
  have sub: "v3_sub (east y) (east x) = east d"
    using e assms(13) by (simp add: v3_sub_def fsub_def rnd_repr)
  have w: "world_to_local (v3_sub (east y) (east x)) north = (Fin d, Fin 0, Fin 0)"
    unfolding sub using facing(1) [of d 0 0] assms(15,17) by simp
  have n: "v3_norm (v3_sub (east y) (east x)) = Fin \<bar>d\<bar>"
    unfolding sub using norm_axis(2) [OF assms(14) rd] assms(17) by simp
  have dg: "distance_gain (Fin \<bar>d\<bar>) = Fin 1" using assms(17) by (simp add: distance_gain_def REF_DISTANCE_def)
  have g: "rnd F32 g = Fin g" using assms(4-6) by (intro rnd_repr small_ok) simp_all
  obtain wl wr where p: "pan_weights L (east y) (east x) north = (Fin wl, Fin wr)"
    "0 < d \<longrightarrow> \<bar>wl\<bar> \<le> 1 / 10 ^ 5 \<and> \<bar>wr - 1\<bar> \<le> 1 / 10 ^ 5" "d < 0 \<longrightarrow> \<bar>wl - 1\<bar> \<le> 1 / 10 ^ 5 \<and> \<bar>wr\<bar> \<le> 1 / 10 ^ 5"
    using pan_axis [OF assms(1) w assms(14) rd assms(16)] assms(17) by auto
  have "contribution_of L l s (Some f) = Some \<lparr>c_frame = f, c_gain = Fin g, c_pan = (Fin wl, Fin wr)\<rparr>"
    using assms(2-4,7-12) g by (simp add: contribution_of_def Let_def n dg p(1))
  then show ?thesis using p(2,3) by blast
qed

text \<open>The rounding of the three products and the sum.\<close>

lemma amplitude:
  assumes "\<bar>g\<bar> \<le> 1" "\<bar>w\<bar> \<le> 3 / 2" "\<bar>s\<bar> \<le> 1 / 2"
  shows "\<exists>v. fadd F32 (Fin 0) (fmul F32 (Fin s) (fmul F32 (Fin g) (Fin w))) = Fin v \<and> \<bar>v - s * (g * w)\<bar> \<le> 1 / 10 ^ 6 \<and> \<bar>v\<bar> \<le> 1"
proof -
  have k: "3 * (1 / 2 ^ 22) \<le> (1 / 10 ^ 6 :: real)" "1 / 2 ^ 22 \<le> (1 / 10 :: real)" by simp_all
  have "\<bar>g * w\<bar> \<le> 1 * (3 / 2)" unfolding abs_mult using assms by (intro mult_mono) auto
  then have gw: "\<bar>g * w\<bar> \<le> 3 / 2" by simp
  then have "\<bar>g * w\<bar> \<le> 2" by linarith
  note r1 = rnd32_err [OF this]
  let ?a = "rnd_real F32 (g * w)"
  have a: "\<bar>?a\<bar> \<le> 8 / 5" using r1(2) gw k(2) by linarith
  have "\<bar>s * ?a\<bar> \<le> 1 / 2 * (8 / 5)" unfolding abs_mult using assms a by (intro mult_mono) auto
  then have sa: "\<bar>s * ?a\<bar> \<le> 4 / 5" by simp
  then have "\<bar>s * ?a\<bar> \<le> 2" by linarith
  note r2 = rnd32_err [OF this]
  let ?b = "rnd_real F32 (s * ?a)"
  have b: "\<bar>?b\<bar> \<le> 9 / 10" using r2(2) sa k(2) by linarith
  then have "\<bar>0 + ?b\<bar> \<le> 2" by linarith
  note r3 = rnd32_err [OF this]
  let ?v = "rnd_real F32 (0 + ?b)"
  have "\<bar>s * ?a - s * (g * w)\<bar> \<le> 1 / 2 * (1 / 2 ^ 22)"
    unfolding right_diff_distrib [symmetric] abs_mult using assms(3) r1(2) by (intro mult_mono) auto
  then have "\<bar>?v - s * (g * w)\<bar> \<le> 3 * (1 / 2 ^ 22)" using r2(2) r3(2) by linarith
  then have v: "\<bar>?v - s * (g * w)\<bar> \<le> 1 / 10 ^ 6" using k(1) by linarith
  have "\<bar>?v\<bar> \<le> 1" using r3(2) b k(2) by linarith
  then show ?thesis using v by (intro exI [of _ ?v]) (simp add: r1(1) r2(1) r3(1) [simplified])
qed

definition stereo_tone :: "fp \<Rightarrow> fp \<Rightarrow> fp list" where
  "stereo_tone l r = concat (replicate FRAME_SAMPLES [l, r])"

lemma length_pairs: "length (concat (replicate n [a, b])) = 2 * n"
  by (induction n) simp_all

lemma nth_pairs: "i < n \<Longrightarrow> concat (replicate n [a, b]) ! (2 * i) = a \<and> concat (replicate n [a, b]) ! (2 * i + 1) = b"
proof (induction n arbitrary: i)
  case (Suc n)
  then show ?case by (cases i) simp_all
qed simp

lemma tone_stereo:
  assumes "stereo_of L st l frames = Some r"
    "contributions_for L st l frames = [\<lparr>c_frame = replicate FRAME_SAMPLES (Fin s), c_gain = Fin g, c_pan = (Fin wl, Fin wr)\<rparr>]"
    "0 < g" "g \<le> 1" "\<bar>wl\<bar> \<le> 3 / 2" "\<bar>wr\<bar> \<le> 3 / 2" "\<bar>s\<bar> \<le> 1 / 2"
  shows "\<exists>vl vr. r = stereo_tone (Fin vl) (Fin vr) \<and> \<bar>vl - s * (g * wl)\<bar> \<le> 1 / 10 ^ 6 \<and> \<bar>vr - s * (g * wr)\<bar> \<le> 1 / 10 ^ 6"
proof -
  have g: "\<bar>g\<bar> \<le> 1" using assms(3,4) by simp
  obtain vl where vl: "fadd F32 (Fin 0) (fmul F32 (Fin s) (fmul F32 (Fin g) (Fin wl))) = Fin vl" "\<bar>vl - s * (g * wl)\<bar> \<le> 1 / 10 ^ 6" "\<bar>vl\<bar> \<le> 1"
    using amplitude [OF g assms(5,7)] by blast
  obtain vr where vr: "fadd F32 (Fin 0) (fmul F32 (Fin s) (fmul F32 (Fin g) (Fin wr))) = Fin vr" "\<bar>vr - s * (g * wr)\<bar> \<le> 1 / 10 ^ 6" "\<bar>vr\<bar> \<le> 1"
    using amplitude [OF g assms(6,7)] by blast
  let ?cs = "[\<lparr>c_frame = replicate FRAME_SAMPLES (Fin s), c_gain = Fin g, c_pan = (Fin wl, Fin wr)\<rparr>]"
  have clip: "soft_clip L (Fin v) = Fin v" if "\<bar>v\<bar> \<le> 1" for v using that by (auto simp: soft_clip_def)
  have sums: "soft_clip L (channel_sum fst i ?cs (Fin 0)) = Fin vl" "soft_clip L (channel_sum snd i ?cs (Fin 0)) = Fin vr"
    if "i < FRAME_SAMPLES" for i
    using that assms(3) vl(1) vr(1) clip [OF vl(3)] clip [OF vr(3)]
    by (simp_all add: channel_sum_def audible_def del: fadd.simps fmul.simps)
  have buf: "length (replicate (FRAME_SAMPLES * 2) (Fin 0)) = 2 * FRAME_SAMPLES" by simp
  have r: "length r = 2 * FRAME_SAMPLES" "\<forall>i < FRAME_SAMPLES. r ! (2 * i) = Fin vl \<and> r ! (2 * i + 1) = Fin vr"
    using mix_out [OF buf, of L ?cs] assms(1) sums by (auto simp: stereo_of_def assms(2))
  have "r = stereo_tone (Fin vl) (Fin vr)"
  proof (rule nth_equalityI)
    show "length r = length (stereo_tone (Fin vl) (Fin vr))" by (simp add: stereo_tone_def length_pairs r(1))
    fix k assume "k < length r"
    then obtain i where "i < FRAME_SAMPLES" "k = 2 * i \<or> k = 2 * i + 1" using stereo_index r(1) by metis
    then show "r ! k = stereo_tone (Fin vl) (Fin vr) ! k" using r(2) nth_pairs [of i FRAME_SAMPLES "Fin vl" "Fin vr"] by (auto simp: stereo_tone_def)
  qed
  then show ?thesis using vl(2) vr(2) by blast
qed

text \<open>Sums, within bounds that are multiples of 1/4096.\<close>

definition units :: "int \<Rightarrow> real" where "units m = of_int m * pow2 (- 12)"

lemma units_add: "units (m + n) = units m + units n"
  by (simp add: units_def algebra_simps)

lemma units_mono: "m \<le> n \<Longrightarrow> units m \<le> units n"
  by (simp add: units_def)

lemma fp_sum_within:
  assumes "list_all2 (\<lambda>(m, M) x. 0 \<le> m \<and> m \<le> M \<and> fbetween (units m) (units M) x) ws xs" "sum_list (map snd ws) < 2 ^ 24"
  shows "fbetween (units (sum_list (map fst ws))) (units (sum_list (map snd ws))) (fp_sum F32 xs)"
proof -
  have "fbetween (units (A + sum_list (map fst ws))) (units (B + sum_list (map snd ws))) (foldl (fadd F32) acc xs)"
    if "fbetween (units A) (units B) acc" "0 \<le> A" "A \<le> B" "B + sum_list (map snd ws) < 2 ^ 24" for A B acc
    using assms(1) that
  proof (induction ws xs arbitrary: A B acc rule: list_all2_induct)
    case (Cons w ws x xs)
    obtain m M where w: "w = (m, M)" by fastforce
    have b: "0 \<le> m" "m \<le> M" "fbetween (units m) (units M) x" using Cons.hyps(1) by (simp_all add: w)
    have "list_all2 (\<lambda>(m, M) x. 0 \<le> m \<and> m \<le> M \<and> fbetween (units m) (units M) x) ws xs" by fact
    then have "0 \<le> sum_list (map snd ws)" by (induction rule: list_all2_induct) auto
    then have n: "\<bar>A + m\<bar> < 2 ^ 24" "\<bar>B + M\<bar> < 2 ^ 24" using Cons.prems b by (simp_all add: w)
    have r: "repr F32 (units A + units m)" "\<bar>units A + units m\<bar> \<le> maxfin F32"
      "repr F32 (units B + units M)" "\<bar>units B + units M\<bar> \<le> maxfin F32"
      using repr_scaled [OF n(1), of "- 12" F32] repr_scaled [OF n(2), of "- 12" F32]
      by (simp_all add: units_def distrib_right)
    have "fbetween (units (A + m)) (units (B + M)) (fadd F32 acc x)"
      using fadd_between [OF Cons.prems(1) b(3) r(1,3,2,4)] by (simp only: units_add)
    from Cons.IH [OF this] show ?case using Cons.prems b by (simp add: w add.assoc)
  qed simp
  from this [of 0 0 "Fin 0"] assms(2) show ?thesis by (simp add: fp_sum_def units_def)
qed

lemma list_all2_pairs: "R wa a \<Longrightarrow> R wb b \<Longrightarrow> list_all2 R (concat (replicate n [wa, wb])) (concat (replicate n [a, b]))"
  by (induction n) simp_all

lemma sum_pairs:
  "sum_list (map h (concat (replicate n [wa, wb]))) = int n * (h wa + h wb)"
  by (induction n) (simp_all add: algebra_simps)

lemma tone_sum:
  assumes "0 \<le> ml" "ml \<le> Ml" "units ml \<le> \<bar>vl\<bar>" "\<bar>vl\<bar> \<le> units Ml" "0 \<le> mr" "mr \<le> Mr" "units mr \<le> \<bar>vr\<bar>" "\<bar>vr\<bar> \<le> units Mr"
    "960 * (Ml + Mr) < 2 ^ 24"
  shows "fbetween (units (960 * (ml + mr))) (units (960 * (Ml + Mr))) (abs_sum (stereo_tone (Fin vl) (Fin vr)))"
proof -
  have m: "map fabs (stereo_tone (Fin vl) (Fin vr)) = concat (replicate FRAME_SAMPLES [Fin \<bar>vl\<bar>, Fin \<bar>vr\<bar>])"
    by (simp add: stereo_tone_def map_concat)
  let ?ws = "concat (replicate FRAME_SAMPLES [(ml, Ml), (mr, Mr)])"
  have "list_all2 (\<lambda>(m, M) x. 0 \<le> m \<and> m \<le> M \<and> fbetween (units m) (units M) x) ?ws (concat (replicate FRAME_SAMPLES [Fin \<bar>vl\<bar>, Fin \<bar>vr\<bar>]))"
    using assms by (intro list_all2_pairs) simp_all
  moreover have "sum_list (map fst ?ws) = 960 * (ml + mr)" "sum_list (map snd ?ws) = 960 * (Ml + Mr)"
    unfolding sum_pairs by (simp_all add: FRAME_SAMPLES_def)
  ultimately show ?thesis using fp_sum_within [of ?ws] assms(9) by (simp add: abs_sum_def m)
qed

lemma step_pairs: "step_by2 (concat (replicate n [a, b])) = replicate n a"
  by (induction n) simp_all

lemma step_pairs_tl: "step_by2 (tl (concat (replicate n [a, b]))) = replicate n b"
proof (cases n)
  case (Suc k)
  have "step_by2 (b # concat (replicate k [a, b])) = b # replicate k b" by (induction k) simp_all
  then show ?thesis using Suc by simp
qed simp

lemma channel_abs_sum:
  assumes "0 \<le> m" "m \<le> M" "units m \<le> \<bar>v\<bar>" "\<bar>v\<bar> \<le> units M" "960 * M < 2 ^ 24"
  shows "fbetween (units (960 * m)) (units (960 * M)) (abs_sum (replicate FRAME_SAMPLES (Fin v)))"
proof -
  have "list_all2 (\<lambda>(m, M) x. 0 \<le> m \<and> m \<le> M \<and> fbetween (units m) (units M) x) (replicate FRAME_SAMPLES (m, M)) (replicate FRAME_SAMPLES (Fin \<bar>v\<bar>))"
    using assms by (simp add: list_all2_conv_all_nth)
  from fp_sum_within [OF this] show ?thesis using assms(5) by (simp add: abs_sum_def sum_list_replicate FRAME_SAMPLES_def)
qed

section \<open>The tests hold\<close>

lemma abs_near: "\<bar>w - k\<bar> \<le> e \<Longrightarrow> \<bar>k\<bar> + e \<le> b \<Longrightarrow> \<bar>w\<bar> \<le> (b :: real)"
  by linarith

lemma four_tenths: "\<exists>s. rnd F32 (4 / 10) = Fin s \<and> \<bar>s - 2 / 5\<bar> \<le> 1 / 10 ^ 6"
proof -
  have r: "\<bar>rnd_real F32 (4 / 10) - 4 / 10\<bar> \<le> 1 / 2 ^ 22" "rnd F32 (4 / 10) = Fin (rnd_real F32 (4 / 10))"
    by (rule rnd32_err, simp)+
  have "\<bar>rnd_real F32 (4 / 10) - 4 / 10\<bar> \<le> 1 / 10 ^ 6" using r(1) by (rule order_trans) simp
  then show ?thesis using r(2) by simp
qed

lemma test_session_simps [simp]:
  "s_id (test_session i a p) = i" "s_agent_id (test_session i a p) = a" "s_spatial (test_session i a p)"
  "s_inbound (test_session i a p) = []" "s_gains (test_session i a p) = hm_empty" "s_mutes (test_session i a p) = hm_empty"
  "s_announced (test_session i a p) = {}" "s_primary (test_session i a p) = False"
  "known (s_state (test_session i a p))" "avatar_pos (s_state (test_session i a p)) = p"
  "listener_pos (s_state (test_session i a p)) = p" "listener_rot (s_state (test_session i a p)) = north"
  "s_room (test_session i a p) = Spatial ''region'' 0"
  by (simp_all add: test_session_def Session_new_def spatial_identity_def Let_def)

lemma loud_simps [simp]:
  "s_id (loud s) = s_id s" "s_agent_id (loud s) = s_agent_id s" "s_spatial (loud s) = s_spatial s" "s_room (loud s) = s_room s"
  "s_gains (loud s) = s_gains s" "s_mutes (loud s) = s_mutes s" "s_announced (loud s) = s_announced s"
  "s_primary (loud s) = s_primary s" "s_state (loud s) = s_state s"
  "s_inbound s = [] \<Longrightarrow> s_inbound (loud s) = [replicate FRAME_SAMPLES (rnd F32 (4 / 10))]"
  by (simp_all add: loud_def push_frame_def Let_def JITTER_MAX_FRAMES_def)

lemma peer_gain_plain: "s_gains s = hm_empty \<Longrightarrow> s_mutes s = hm_empty \<Longrightarrow> peer_gain s k = Fin 1"
  by (simp add: peer_gain_def hm_simps)

lemma heap_nth: "a < length ss \<Longrightarrow> heap ss a = ss ! a"
  by (simp add: heap_def)

lemma self_silent: "s_id s = s_id l \<Longrightarrow> contribution_of L l s f = None"
  by (simp add: contribution_of_def)

lemma no_frame: "contribution_of L l s None = None"
  by (simp add: contribution_of_def)

lemmas contributions_simps = contributions_for_def pulled_def take_frame_def map_filter_simps self_silent no_frame heap_nth

lemma quiet_zeros: "quiet (replicate n (Fin 0))"
proof -
  have "fp_lt (Fin 0) (rnd F32 (1 / 1000000))" by code_simp
  then show ?thesis by (simp add: quiet_def list_all_iff)
qed

lemma unheard:
  assumes "stereo_of L st l frames = Some r" "contributions_for L st l frames = []" shows "r = replicate 1920 (Fin 0)"
  using assms by (rule mix_nothing)

lemma test_self: "listener_never_hears_themselves L c ser"
  unfolding listener_never_hears_themselves_def
proof (rule after_mixI)
  let ?st = "heap [loud (test_session ''a'' ''agent-a'' (east 0))]"
  fix st' :: store and out :: "listener_output list"
  assume o: "map o_session out = [0]" and s: "\<forall>x \<in> set out. stereo_of L ?st (o_session x) (pulled ?st [0]) = Some (o_stereo x) \<and>
        o_roster x = roster_text ser (s_announced (?st (o_session x)))
          (map (\<lambda>a. (s_agent_id (?st a), frame_level (?st a), s_primary (?st a))) [0])"
  then obtain x where x: "out = [x]" "o_session x = 0" by auto
  have "contributions_for L ?st 0 (pulled ?st [0]) = []" by (simp add: contributions_simps)
  then have "o_stereo x = replicate 1920 (Fin 0)" using s x by (intro unheard [of L ?st 0]) auto
  then show "length out = 1 \<and> list_all (\<lambda>s. fp_eq s (Fin 0)) (o_stereo (out ! 0))" by (simp add: x list_all_iff)
qed simp

text \<open>A listener who hears one tone, from a metre to ten metres east or west.\<close>

abbreviation tone_frame :: "fp list" where "tone_frame \<equiv> replicate FRAME_SAMPLES (rnd F32 (4 / 10))"

lemma product_near:
  fixes g w s v k :: real
  assumes "\<bar>v - s * (g * w)\<bar> \<le> 1 / 10 ^ 6" "0 < g" "g \<le> 1" "\<bar>s - 2 / 5\<bar> \<le> 1 / 10 ^ 6" "\<bar>w - k\<bar> \<le> 1 / 10 ^ 5" "0 \<le> k" "k \<le> 1"
  shows "\<bar>v - 2 / 5 * (g * k)\<bar> \<le> 1 / 10 ^ 5"
proof -
  have e: "\<bar>s\<bar> \<le> 1 / 2" by (rule abs_near [OF assms(4)]) simp
  have f: "1 / 2 * (1 / 10 ^ 5) + 1 / 10 ^ 6 * 1 + 1 / 10 ^ 6 \<le> (1 / 10 ^ 5 :: real)" by simp
  have gw: "\<bar>g * (w - k)\<bar> \<le> 1 * (1 / 10 ^ 5)" unfolding abs_mult using assms by (intro mult_mono) auto
  have gk: "\<bar>g * k\<bar> \<le> 1 * 1" unfolding abs_mult using assms by (intro mult_mono) auto
  have "\<bar>s * (g * (w - k))\<bar> \<le> 1 / 2 * (1 / 10 ^ 5)" unfolding abs_mult [of s] using e gw by (intro mult_mono) auto
  moreover have "\<bar>(s - 2 / 5) * (g * k)\<bar> \<le> 1 / 10 ^ 6 * 1" unfolding abs_mult [of "s - 2 / 5"] using assms(4) gk by (intro mult_mono) auto
  moreover have "s * (g * w) - 2 / 5 * (g * k) = s * (g * (w - k)) + (s - 2 / 5) * (g * k)" by (simp add: algebra_simps)
  ultimately show ?thesis using assms(1) f by linarith
qed

lemma heard_tone:
  assumes "libm_ok L" "stereo_of L st l frames = Some r"
    "contributions_for L st l frames = (case contribution_of L (st l) (st s) (Some tone_frame) of None \<Rightarrow> [] | Some x \<Rightarrow> [x])"
    "s_id (st s) \<noteq> s_id (st l)" "peer_gain (st l) (s_agent_id (st s)) = Fin g" "0 < g" "g \<le> 1" "repr F32 g"
    "s_spatial (st l)" "known (s_state (st s))" "known (s_state (st l))" "avatar_pos (s_state (st s)) = east y"
    "listener_pos (s_state (st l)) = east x" "listener_rot (s_state (st l)) = north" "y - x = d"
    "repr F64 (d * d)" "repr F64 d" "1 \<le> \<bar>d\<bar>" "\<bar>d\<bar> \<le> 10"
  shows "\<exists>vl vr. r = stereo_tone (Fin vl) (Fin vr) \<and>
    (0 < d \<longrightarrow> \<bar>vl\<bar> \<le> 1 / 10 ^ 5 \<and> \<bar>vr - 2 / 5 * g\<bar> \<le> 1 / 10 ^ 5) \<and> (d < 0 \<longrightarrow> \<bar>vl - 2 / 5 * g\<bar> \<le> 1 / 10 ^ 5 \<and> \<bar>vr\<bar> \<le> 1 / 10 ^ 5)"
proof -
  obtain wl wr where c: "contribution_of L (st l) (st s) (Some tone_frame) = Some \<lparr>c_frame = tone_frame, c_gain = Fin g, c_pan = (Fin wl, Fin wr)\<rparr>"
    "0 < d \<longrightarrow> \<bar>wl\<bar> \<le> 1 / 10 ^ 5 \<and> \<bar>wr - 1\<bar> \<le> 1 / 10 ^ 5" "d < 0 \<longrightarrow> \<bar>wl - 1\<bar> \<le> 1 / 10 ^ 5 \<and> \<bar>wr\<bar> \<le> 1 / 10 ^ 5"
    using hears_east [OF assms(1,4-19), of tone_frame] by blast
  obtain s0 where s0: "rnd F32 (4 / 10) = Fin s0" "\<bar>s0 - 2 / 5\<bar> \<le> 1 / 10 ^ 6" using four_tenths by blast
  have d: "0 < d \<or> d < 0" using assms(18) by auto
  have big: "\<bar>w\<bar> \<le> 3 / 2" if "\<bar>w - k\<bar> \<le> 1 / 10 ^ 5" "k = 0 \<or> k = 1" for w k :: real
    using that(1) by (rule abs_near) (use that(2) in auto)
  have w: "\<bar>wl\<bar> \<le> 3 / 2" "\<bar>wr\<bar> \<le> 3 / 2"
    using c(2,3) d big [of wl 0] big [of wl 1] big [of wr 0] big [of wr 1] by auto
  have s: "\<bar>s0\<bar> \<le> 1 / 2" by (rule abs_near [OF s0(2)]) simp
  have cs: "contributions_for L st l frames = [\<lparr>c_frame = replicate FRAME_SAMPLES (Fin s0), c_gain = Fin g, c_pan = (Fin wl, Fin wr)\<rparr>]"
    by (rule assms(3) [unfolded c(1) option.case, unfolded s0(1)])
  obtain vl vr where v: "r = stereo_tone (Fin vl) (Fin vr)" "\<bar>vl - s0 * (g * wl)\<bar> \<le> 1 / 10 ^ 6" "\<bar>vr - s0 * (g * wr)\<bar> \<le> 1 / 10 ^ 6"
    using tone_stereo [OF assms(2) cs assms(6,7) w s] by blast
  note l = product_near [OF v(2) assms(6,7) s0(2)] and r = product_near [OF v(3) assms(6,7) s0(2)]
  show ?thesis using v(1) c(2,3) l [of 0] l [of 1] r [of 0] r [of 1] by auto
qed

text \<open>Whose frames reach a listener: those of the others.\<close>

lemma contributions_cons:
  "contributions_for L st l (pulled st (m # ms)) =
     (case (if s_id (st m) = s_id (st l) then None else
        case s_inbound (st m) of [] \<Rightarrow> None | f # _ \<Rightarrow> contribution_of L (st l) (st m) (Some f)) of
        None \<Rightarrow> contributions_for L st l (pulled st ms) | Some x \<Rightarrow> x # contributions_for L st l (pulled st ms))"
  "contributions_for L st l (pulled st []) = []"
  by (simp_all add: contributions_for_def pulled_def take_frame_def map_filter_simps self_silent no_frame split: list.split option.split)

lemma units_bounds:
  fixes v k :: real
  assumes "\<bar>v - k\<bar> \<le> 1 / 10 ^ 5" "units m + 1 / 10 ^ 5 \<le> k" "k + 1 / 10 ^ 5 \<le> units M" "0 \<le> units m"
  shows "units m \<le> \<bar>v\<bar>" "\<bar>v\<bar> \<le> units M"
  using assms by linarith+

lemma units_values: "units m = of_int m / 4096"
  by (simp add: units_def pow2_minus pow2_nat [of 12, simplified])

lemma small_units:
  assumes "\<bar>v\<bar> \<le> 1 / 10 ^ 5" shows "units 0 \<le> \<bar>v\<bar>" "\<bar>v\<bar> \<le> units 1"
  using order_trans [OF assms, of "units 1"] by (simp_all add: units_values)

lemma heap_two: "heap [a, b] 0 = a" "heap [a, b] 1 = b" "heap [a, b] (Suc 0) = b"
  by (simp_all add: heap_def)

text \<open>The output of one member, in a tick.\<close>

lemma stereo_outI:
  assumes "same_view st st'" "map o_session out = members" "m \<in> set members" "inj_on (\<lambda>a. s_id (st a)) (set members)"
    "\<forall>x \<in> set out. stereo_of L st (o_session x) (pulled st members) = Some (o_stereo x) \<and>
        o_roster x = roster_text ser (s_announced (st (o_session x)))
          (map (\<lambda>a. (s_agent_id (st a), frame_level (st a), s_primary (st a))) members)"
    and "\<And>x. stereo_of L st m (pulled st members) = Some (o_stereo x) \<Longrightarrow>
      o_roster x = roster_text ser (s_announced (st m)) (map (\<lambda>a. (s_agent_id (st a), frame_level (st a), s_primary (st a))) members) \<Longrightarrow> P x"
    and "sid = s_id (st m)"
  shows "output_for st' out sid P"
  unfolding assms(7) using assms(1-4) by (rule output_forI) (use assms(5,6) in auto)

lemma silentI: "stereo_of L st l frames = Some (o_stereo x) \<Longrightarrow> contributions_for L st l frames = [] \<Longrightarrow> quiet (o_stereo x)"
  using unheard quiet_zeros by metis

lemma out_of_earshot:
  assumes "s_spatial l" "avatar_pos (s_state s) = east y" "listener_pos (s_state l) = east x" "y - x = d"
    "repr F64 (d * d)" "repr F64 d" "60 \<le> d" "d \<le> 1000" "peer_gain l (s_agent_id s) = Fin 1"
  shows "contribution_of L l s f = None"
proof -
  have "\<bar>d\<bar> \<le> maxfin F64" using assms(7,8) by (intro order_trans [of "\<bar>d\<bar>" 1000 "maxfin F64"]) auto
  then have "rnd F64 d = Fin d" using assms(6) by (intro rnd_repr)
  then have sub: "v3_sub (east y) (east x) = east d"
    using assms(4) by (simp add: v3_sub_def fsub_def rnd_repr)
  have "v3_norm (v3_sub (east y) (east x)) = Fin d"
    unfolding sub using norm_axis(2) [of d] assms(5-8) by simp
  then show ?thesis using assms by (simp add: contribution_of_def Let_def distance_gain_def REF_DISTANCE_def MAX_DISTANCE_def split: option.split)
qed

lemma test_near_far:
  assumes "libm_ok L" shows "nearby_speaker_is_audible_and_distant_one_is_not L c ser"
proof -
  let ?a = "test_session ''a'' ''agent-a'' (east 0)" and ?b = "loud (test_session ''b'' ''agent-b'' (east 5))"
  let ?c = "loud (test_session ''c'' ''agent-c'' (east 500))" and ?st = "heap [test_session ''a'' ''agent-a'' (east 0), loud (test_session ''b'' ''agent-b'' (east 5))]"
  have r1: "fp_lt (rnd F32 (1 / 100)) (Fin (1 / 8))" by code_simp
  have first: "list_ex (\<lambda>s. fp_lt (rnd F32 (1 / 100)) (fabs s)) r"
    if s: "stereo_of L ?st 0 (pulled ?st [0, 1]) = Some r" for r
  proof -
    have "contributions_for L ?st 0 (pulled ?st [0, 1]) =
        (case contribution_of L (?st 0) (?st 1) (Some tone_frame) of None \<Rightarrow> [] | Some x \<Rightarrow> [x])"
      by (simp add: contributions_cons heap_two split: option.split)
    then obtain vl vr where v: "r = stereo_tone (Fin vl) (Fin vr)" "\<bar>vr - 2 / 5\<bar> \<le> 1 / 10 ^ 5"
      using heard_tone [OF assms s, of 1 1 5 0 5] by (auto simp: heap_two peer_gain_plain)
    have "1 / 8 \<le> \<bar>vr\<bar>" using units_bounds(1) [OF v(2), of 512 4096] by (simp add: units_values)
    then have "fp_le (Fin (1 / 8)) (fabs (Fin vr))" by simp
    then have "fp_lt (rnd F32 (1 / 100)) (fabs (Fin vr))" using r1 by (cases "rnd F32 (1 / 100)") (auto simp: fp_lt_def)
    then show ?thesis by (simp add: v(1) stereo_tone_def FRAME_SAMPLES_def list_ex_iff)
  qed
  have inj: "inj_on (\<lambda>a. s_id (?st a)) (set [0, 1])" by (simp add: heap_two)
  show ?thesis
    unfolding nearby_speaker_is_audible_and_distant_one_is_not_def Let_def
  proof (rule after_mixI)
    fix st' :: store and out :: "listener_output list"
    assume sv: "same_view ?st st'" and o: "map o_session out = [0, 1]"
      and each: "\<forall>x \<in> set out. stereo_of L ?st (o_session x) (pulled ?st [0, 1]) = Some (o_stereo x) \<and>
        o_roster x = roster_text ser (s_announced (?st (o_session x))) (map (\<lambda>a. (s_agent_id (?st a), frame_level (?st a), s_primary (?st a))) [0, 1])"
      and ann: "\<forall>a \<in> set [0, 1]. s_inbound (st' a) = tl (s_inbound (?st a)) \<and> s_announced (st' a) = s_announced (?st a) \<union> (\<lambda>a. s_agent_id (?st a)) ` set [0, 1]"
    have near: "output_for st' out ''a'' (\<lambda>for_a. list_ex (\<lambda>s. fp_lt (rnd F32 (1 / 100)) (fabs s)) (o_stereo for_a))"
      using sv o _ inj each by (rule stereo_outI [where m = 0]) (use first in \<open>simp_all add: heap_two\<close>)
    let ?st2 = "st'(2 := ?c)"
    have a: "s_id (st' 0) = ''a''" "s_inbound (st' 0) = []" "s_spatial (st' 0)" "listener_pos (s_state (st' 0)) = east 0"
      "peer_gain (st' 0) k = Fin 1" for k
      using sv ann by (simp_all add: same_view_def same_ids_def heap_two peer_gain_plain)
    have far: "contributions_for L ?st2 0 (pulled ?st2 [0, 2]) = []"
      using a out_of_earshot [of "st' 0" ?c 500 0 500 L] by (simp add: contributions_cons)
    have "after_mix L c ser [0, 2] ?st2 (\<lambda>st out. output_for st out ''a'' (\<lambda>for_a. quiet (o_stereo for_a)))"
    proof (rule after_mixI)
      fix st3 :: store and out :: "listener_output list"
      assume sv: "same_view ?st2 st3" and o: "map o_session out = [0, 2]"
        and each: "\<forall>x \<in> set out. stereo_of L ?st2 (o_session x) (pulled ?st2 [0, 2]) = Some (o_stereo x) \<and>
          o_roster x = roster_text ser (s_announced (?st2 (o_session x))) (map (\<lambda>a. (s_agent_id (?st2 a), frame_level (?st2 a), s_primary (?st2 a))) [0, 2])"
      show "output_for st3 out ''a'' (\<lambda>for_a. quiet (o_stereo for_a))"
        using sv o _ _ each by (rule stereo_outI [where m = 0]) (use far a in \<open>auto intro: silentI\<close>)
    qed simp
    with near show "output_for st' out ''a'' (\<lambda>for_a. list_ex (\<lambda>s. fp_lt (rnd F32 (1 / 100)) (fabs s)) (o_stereo for_a)) \<and>
        after_mix L c ser [0, 2] ?st2 (\<lambda>st out. output_for st out ''a'' (\<lambda>for_a. quiet (o_stereo for_a)))" by blast
  qed simp
qed

lemma sums_differ:
  assumes "fbetween lo hi a" "fbetween lo' hi' b" "hi < lo'" shows "fp_lt a b"
  using assms by (elim fbetweenE) simp

text \<open>One side of a tone of two fifths against the other.\<close>

lemma tone_sides:
  assumes "\<bar>vs\<bar> \<le> 1 / 10 ^ 5" "\<bar>vb - 2 / 5\<bar> \<le> 1 / 10 ^ 5"
  shows "fp_lt (abs_sum (replicate FRAME_SAMPLES (Fin vs))) (abs_sum (replicate FRAME_SAMPLES (Fin vb)))"
proof (rule sums_differ)
  show "fbetween (units (960 * 0)) (units (960 * 1)) (abs_sum (replicate FRAME_SAMPLES (Fin vs)))"
    using small_units [OF assms(1)] by (intro channel_abs_sum) simp_all
  show "fbetween (units (960 * 1638)) (units (960 * 1639)) (abs_sum (replicate FRAME_SAMPLES (Fin vb)))"
    using units_bounds [OF assms(2), of 1638 1639] by (intro channel_abs_sum) (simp_all add: units_values)
qed (simp add: units_values)

lemma test_own_mix:
  assumes "libm_ok L" shows "each_listener_gets_its_own_mix L c ser"
proof -
  let ?st = "heap [loud (test_session ''a'' ''agent-a'' (east 0)), loud (test_session ''b'' ''agent-b'' (east 5))]"
  have for_a: "\<exists>vl vr. r = stereo_tone (Fin vl) (Fin vr) \<and> \<bar>vl\<bar> \<le> 1 / 10 ^ 5 \<and> \<bar>vr - 2 / 5\<bar> \<le> 1 / 10 ^ 5"
    if s: "stereo_of L ?st 0 (pulled ?st [0, 1]) = Some r" for r
  proof -
    have "contributions_for L ?st 0 (pulled ?st [0, 1]) =
        (case contribution_of L (?st 0) (?st 1) (Some tone_frame) of None \<Rightarrow> [] | Some x \<Rightarrow> [x])"
      by (simp add: contributions_cons heap_two split: option.split)
    then show ?thesis using heard_tone [OF assms s, of 1 1 5 0 5] by (auto simp: heap_two peer_gain_plain)
  qed
  have for_b: "\<exists>vl vr. r = stereo_tone (Fin vl) (Fin vr) \<and> \<bar>vl - 2 / 5\<bar> \<le> 1 / 10 ^ 5 \<and> \<bar>vr\<bar> \<le> 1 / 10 ^ 5"
    if s: "stereo_of L ?st 1 (pulled ?st [0, 1]) = Some r" for r
  proof -
    have "contributions_for L ?st 1 (pulled ?st [0, 1]) =
        (case contribution_of L (?st 1) (?st 0) (Some tone_frame) of None \<Rightarrow> [] | Some x \<Rightarrow> [x])"
      by (simp add: contributions_cons heap_two split: option.split)
    then show ?thesis using heard_tone [OF assms s, of 0 1 0 5 "- 5"] by (auto simp: heap_two peer_gain_plain)
  qed
  have a: "fp_lt (abs_sum (step_by2 r)) (abs_sum (step_by2 (tl r)))" if s: "stereo_of L ?st 0 (pulled ?st [0, 1]) = Some r" for r
    using for_a [OF s] tone_sides by (auto simp: stereo_tone_def step_pairs step_pairs_tl)
  have b: "fp_lt (abs_sum (step_by2 (tl r))) (abs_sum (step_by2 r))" if s: "stereo_of L ?st 1 (pulled ?st [0, 1]) = Some r" for r
    using for_b [OF s] tone_sides by (auto simp: stereo_tone_def step_pairs step_pairs_tl)
  have inj: "inj_on (\<lambda>a. s_id (?st a)) (set [0, 1])" by (simp add: heap_two)
  show ?thesis
    unfolding each_listener_gets_its_own_mix_def Let_def
  proof (rule after_mixI)
    fix st' :: store and out :: "listener_output list"
    assume sv: "same_view ?st st'" and o: "map o_session out = [0, 1]"
      and each: "\<forall>x \<in> set out. stereo_of L ?st (o_session x) (pulled ?st [0, 1]) = Some (o_stereo x) \<and>
        o_roster x = roster_text ser (s_announced (?st (o_session x))) (map (\<lambda>a. (s_agent_id (?st a), frame_level (?st a), s_primary (?st a))) [0, 1])"
    show "output_for st' out ''a'' (\<lambda>for_a. output_for st' out ''b'' (\<lambda>for_b.
        fp_lt (abs_sum (step_by2 (o_stereo for_a))) (abs_sum (step_by2 (tl (o_stereo for_a)))) \<and>
        fp_lt (abs_sum (step_by2 (tl (o_stereo for_b)))) (abs_sum (step_by2 (o_stereo for_b)))))"
    proof (rule stereo_outI [where m = 0, OF sv o _ inj each])
      fix for_a :: listener_output
      assume fa: "stereo_of L ?st 0 (pulled ?st [0, 1]) = Some (o_stereo for_a)"
      show "output_for st' out ''b'' (\<lambda>for_b.
        fp_lt (abs_sum (step_by2 (o_stereo for_a))) (abs_sum (step_by2 (tl (o_stereo for_a)))) \<and>
        fp_lt (abs_sum (step_by2 (tl (o_stereo for_b)))) (abs_sum (step_by2 (o_stereo for_b))))"
        by (rule stereo_outI [where m = 1, OF sv o _ inj each]) (use a [OF fa] b in \<open>simp_all add: heap_two\<close>)
    qed (simp_all add: heap_two)
  qed simp
qed

lemma test_ghost: "position_unknown_speakers_are_not_placed_at_the_origin L c ser"
proof -
  let ?g = "push_frame (replicate FRAME_SAMPLES (rnd F32 (9 / 10))) (Session_new ''g'' ''agent-g'' (Spatial ''region'' 0) True)"
  let ?st = "heap [test_session ''a'' ''agent-a'' (east 0), ?g]"
  have g: "\<not> known (s_state ?g)" "s_id ?g = ''g''"
    by (simp_all add: push_frame_def Session_new_def spatial_identity_def Let_def)
  have n: "contribution_of L (test_session ''a'' ''agent-a'' (east 0)) ?g f = None" for f
    using g by (simp add: contribution_of_def Let_def split: option.split)
  have none: "contributions_for L ?st 0 (pulled ?st [0, 1]) = []"
    using n by (simp add: contributions_cons heap_two split: list.split)
  show ?thesis
    unfolding position_unknown_speakers_are_not_placed_at_the_origin_def Let_def
  proof (rule after_mixI)
    fix st' :: store and out :: "listener_output list"
    assume sv: "same_view ?st st'" and o: "map o_session out = [0, 1]"
      and each: "\<forall>x \<in> set out. stereo_of L ?st (o_session x) (pulled ?st [0, 1]) = Some (o_stereo x) \<and>
        o_roster x = roster_text ser (s_announced (?st (o_session x))) (map (\<lambda>a. (s_agent_id (?st a), frame_level (?st a), s_primary (?st a))) [0, 1])"
    show "output_for st' out ''a'' (\<lambda>for_a. quiet (o_stereo for_a))"
      using sv o _ _ each by (rule stereo_outI [where m = 0]) (use none g(2) in \<open>auto simp: heap_two intro: silentI\<close>)
  qed simp
qed

lemma half_quieter:
  assumes "\<bar>cl\<bar> \<le> 1 / 10 ^ 5" "\<bar>cr - 2 / 5 * (1 / 2)\<bar> \<le> 1 / 10 ^ 5" "\<bar>dl\<bar> \<le> 1 / 10 ^ 5" "\<bar>dr - 2 / 5\<bar> \<le> 1 / 10 ^ 5"
  shows "fp_lt (fmul F32 (abs_sum (stereo_tone (Fin cl) (Fin cr))) (Fin (3 / 2))) (abs_sum (stereo_tone (Fin dl) (Fin dr)))"
proof -
  have c: "fbetween (units (960 * (0 + 819))) (units (960 * (1 + 820))) (abs_sum (stereo_tone (Fin cl) (Fin cr)))"
    using small_units [OF assms(1)] units_bounds [OF assms(2), of 819 820] by (intro tone_sum) (simp_all add: units_values)
  have d: "fbetween (units (960 * (0 + 1638))) (units (960 * (1 + 1639))) (abs_sum (stereo_tone (Fin dl) (Fin dr)))"
    using small_units [OF assms(3)] units_bounds [OF assms(4), of 1638 1639] by (intro tone_sum) (simp_all add: units_values)
  have "fbetween 0 200 (abs_sum (stereo_tone (Fin cl) (Fin cr)))" using c by (rule fbetween_mono) (simp_all add: units_values)
  then have "fbetween 0 (200 * (3 / 2)) (fmul F32 (abs_sum (stereo_tone (Fin cl) (Fin cr))) (Fin (3 / 2)))"
    by (rule fmul_between_nonneg) simp_all
  then show ?thesis using d by (rule sums_differ) (simp add: units_values)
qed

lemma test_mute_gain:
  assumes "libm_ok L" shows "per_listener_mute_and_gain_are_respected L c ser"
proof -
  let ?a0 = "test_session ''a'' ''agent-a'' (east 0)" and ?b = "loud (test_session ''b'' ''agent-b'' (east 1))"
  let ?a = "?a0\<lparr>s_mutes := hm_insert ''agent-b'' True (s_mutes ?a0)\<rparr>"
  let ?c0 = "test_session ''c'' ''agent-c'' (east 0)" and ?d = "test_session ''d'' ''agent-d'' (east 0)"
  let ?c = "?c0\<lparr>s_gains := hm_insert ''agent-b'' (Fin (1 / 2)) (s_gains ?c0)\<rparr>"
  let ?st = "heap [?a, ?b]"
  have muted: "contribution_of L ?a ?b f = None" for f
    by (simp add: contribution_of_def Let_def peer_gain_def hm_simps unwrap_or_def split: option.split)
  have none: "contributions_for L ?st 0 (pulled ?st [0, 1]) = []"
    using muted by (simp add: contributions_cons heap_two split: list.split)
  show ?thesis
    unfolding per_listener_mute_and_gain_are_respected_def Let_def
  proof (rule after_mixI)
    fix st' :: store and out :: "listener_output list"
    assume sv: "same_view ?st st'" and o: "map o_session out = [0, 1]"
      and each: "\<forall>x \<in> set out. stereo_of L ?st (o_session x) (pulled ?st [0, 1]) = Some (o_stereo x) \<and>
        o_roster x = roster_text ser (s_announced (?st (o_session x))) (map (\<lambda>a. (s_agent_id (?st a), frame_level (?st a), s_primary (?st a))) [0, 1])"
      and ann: "\<forall>a \<in> set [0, 1]. s_inbound (st' a) = tl (s_inbound (?st a)) \<and> s_announced (st' a) = s_announced (?st a) \<union> (\<lambda>a. s_agent_id (?st a)) ` set [0, 1]"
    have mute: "output_for st' out ''a'' (\<lambda>for_a. quiet (o_stereo for_a))"
      using sv o _ _ each by (rule stereo_outI [where m = 0]) (use none in \<open>auto simp: heap_two intro: silentI\<close>)
    let ?st2 = "st'(2 := ?c, 3 := ?d, 1 := loud (st' 1))"
    have b: "s_id (st' 1) = ''b''" "s_agent_id (st' 1) = ''agent-b''" "s_inbound (st' 1) = []" "known (s_state (st' 1))"
      "avatar_pos (s_state (st' 1)) = east 1"
      using sv ann by (simp_all add: same_view_def same_ids_def heap_two)
    have at: "?st2 1 = loud (st' 1)" "?st2 2 = ?c" "?st2 3 = ?d" by simp_all
    have one: "contributions_for L ?st2 m (pulled ?st2 [2, 3, 1]) =
        (case contribution_of L (?st2 m) (?st2 1) (Some tone_frame) of None \<Rightarrow> [] | Some x \<Rightarrow> [x])" if "m = 2 \<or> m = 3" for m
      unfolding contributions_cons at using that b by (auto split: option.split)
    have gc: "peer_gain ?c ''agent-b'' = Fin (1 / 2)" "peer_gain ?d ''agent-b'' = Fin 1"
      by (simp_all add: peer_gain_def hm_simps)
    have r: "repr F32 (1 / 2)" using repr_scaled(1) [of 1 "- 1" F32] by (simp add: pow2_minus)
    have for_c: "\<exists>vl vr. x = stereo_tone (Fin vl) (Fin vr) \<and> \<bar>vl\<bar> \<le> 1 / 10 ^ 5 \<and> \<bar>vr - 2 / 5 * (1 / 2)\<bar> \<le> 1 / 10 ^ 5"
      if s: "stereo_of L ?st2 2 (pulled ?st2 [2, 3, 1]) = Some x" for x
      using heard_tone [OF assms s one [of 2], of "1 / 2" 1 0 1] gc(1) r b unfolding at by auto
    have for_d: "\<exists>vl vr. x = stereo_tone (Fin vl) (Fin vr) \<and> \<bar>vl\<bar> \<le> 1 / 10 ^ 5 \<and> \<bar>vr - 2 / 5\<bar> \<le> 1 / 10 ^ 5"
      if s: "stereo_of L ?st2 3 (pulled ?st2 [2, 3, 1]) = Some x" for x
      using heard_tone [OF assms s one [of 3], of 1 1 0 1] gc(2) b unfolding at by auto
    have gain: "after_mix L c ser [2, 3, 1] ?st2 (\<lambda>st out. output_for st out ''c'' (\<lambda>c'. output_for st out ''d'' (\<lambda>d.
        fp_lt (fmul F32 (abs_sum (o_stereo c')) (Fin (3 / 2))) (abs_sum (o_stereo d)))))"
    proof (rule after_mixI)
      fix st3 :: store and out :: "listener_output list"
      assume sv: "same_view ?st2 st3" and o: "map o_session out = [2, 3, 1]"
        and each: "\<forall>x \<in> set out. stereo_of L ?st2 (o_session x) (pulled ?st2 [2, 3, 1]) = Some (o_stereo x) \<and>
          o_roster x = roster_text ser (s_announced (?st2 (o_session x))) (map (\<lambda>a. (s_agent_id (?st2 a), frame_level (?st2 a), s_primary (?st2 a))) [2, 3, 1])"
      have inj: "inj_on (\<lambda>a. s_id (?st2 a)) (set [2, 3, 1])" using b(1) by (auto simp: inj_on_def)
      show "output_for st3 out ''c'' (\<lambda>c'. output_for st3 out ''d'' (\<lambda>d.
          fp_lt (fmul F32 (abs_sum (o_stereo c')) (Fin (3 / 2))) (abs_sum (o_stereo d))))"
      proof (rule stereo_outI [where m = 2, OF sv o _ inj each])
        fix x :: listener_output
        assume x: "stereo_of L ?st2 2 (pulled ?st2 [2, 3, 1]) = Some (o_stereo x)"
        show "output_for st3 out ''d'' (\<lambda>d. fp_lt (fmul F32 (abs_sum (o_stereo x)) (Fin (3 / 2))) (abs_sum (o_stereo d)))"
        proof (rule stereo_outI [where m = 3, OF sv o _ inj each])
          fix y :: listener_output
          assume y: "stereo_of L ?st2 3 (pulled ?st2 [2, 3, 1]) = Some (o_stereo y)"
          show "fp_lt (fmul F32 (abs_sum (o_stereo x)) (Fin (3 / 2))) (abs_sum (o_stereo y))"
            using for_c [OF x] for_d [OF y] half_quieter by auto
        qed simp_all
      qed simp_all
    qed simp
    from mute gain show "output_for st' out ''a'' (\<lambda>for_a. quiet (o_stereo for_a)) \<and>
        after_mix L c ser [2, 3, 1] ?st2 (\<lambda>st out. output_for st out ''c'' (\<lambda>c'. output_for st out ''d'' (\<lambda>d.
          fp_lt (fmul F32 (abs_sum (o_stereo c')) (Fin (3 / 2))) (abs_sum (o_stereo d)))))" by blast
  qed simp
qed

text \<open>The level of the tone is the top of the meter.\<close>

lemma meter_full: "fp_le (Fin (1 / 4 * (1 / 4))) ms \<Longrightarrow> unat (meter ms) = 127"
proof -
  assume m: "fp_le (Fin (1 / 4 * (1 / 4))) ms"
  have r: "repr F32 (1 / 4)" using repr_scaled(1) [of 1 "- 2" F32] by (simp add: pow2_minus pow2_nat [of 2, simplified])
  have "fp_le (Fin (1 / 4)) (fsqrt F32 ms)" using m by (rule fsqrt_ge) (simp_all add: r small_maxfin_le)
  then have "fp_le (Fin (1 / 4 * 4)) (fmul F32 (fsqrt F32 ms) (Fin 4))" by (rule fmul_ge) simp_all
  then have "fp_le (Fin 1) (fp_min (fmul F32 (fsqrt F32 ms) (Fin 4)) (Fin 1))" by (intro fp_min_ge) simp_all
  then have "fp_le (Fin (1 * 128)) (fmul F32 (fp_min (fmul F32 (fsqrt F32 ms) (Fin 4)) (Fin 1)) (Fin 128))" by (rule fmul_ge) simp_all
  then have "fp_le (Fin 127) (fmul F32 (fp_min (fmul F32 (fsqrt F32 ms) (Fin 4)) (Fin 1)) (Fin 128))"
    using fp_le_trans [of "Fin 127" "Fin 128"] by simp
  then have "fp_le (Fin (real 127)) (fp_min (fmul F32 (fp_min (fmul F32 (fsqrt F32 ms) (Fin 4)) (Fin 1)) (Fin 128)) (Fin 127))"
    by (intro fp_min_ge) simp_all
  then have "127 \<le> unat (meter ms)" unfolding meter_def LEVEL_SCALE_TO_WIRE_def by (rule as_u8_ge) simp
  then show ?thesis using meter_top [of ms] by simp
qed

lemma tone_level: "level_to_wire tone_frame = 127"
proof -
  obtain s where s: "rnd F32 (4 / 10) = Fin s" "\<bar>s - 2 / 5\<bar> \<le> 1 / 10 ^ 6" using four_tenths by blast
  have "2 / 5 - 1 / 10 ^ 6 \<le> s" using s(2) by linarith
  then have s4: "1 / 4 \<le> s" by simp
  have r: "repr F32 (1 / 4 * (1 / 4))" using repr_scaled(1) [of 1 "- 4" F32] by (simp add: pow2_minus pow2_nat [of 4, simplified])
  have p: "pow2 (- 4) = 1 / 4 * (1 / 4)" by (simp add: pow2_minus pow2_nat [of 4, simplified])
  let ?sq = "map (\<lambda>s. fmul F32 s s) (replicate FRAME_SAMPLES (Fin s))"
  have "fp_le (Fin (1 / 4 * (1 / 4))) (fmul F32 (Fin s) (Fin s))"
    using s4 r by (intro square_ge) (simp_all add: small_maxfin_le)
  then have "\<forall>x \<in> set ?sq. fp_le (Fin (pow2 (- 4))) x" unfolding p by auto
  from fp_sum_ge [OF this, of F32] have "fp_le (Fin (960 * (1 / 4 * (1 / 4)))) (fp_sum F32 ?sq)"
    by (simp add: FRAME_SAMPLES_def p)
  from fdiv_ge [OF this] have "fp_le (Fin (1 / 4 * (1 / 4))) (fdiv F32 (fp_sum F32 ?sq) (Fin 960))"
    using r by (simp add: small_maxfin_le)
  then have "unat (level_to_wire (replicate FRAME_SAMPLES (Fin s))) = 127"
    using meter_full len_float [of 960] by (simp add: level_to_wire_meter FRAME_SAMPLES_def)
  then show ?thesis unfolding s(1) by (simp add: word_unat_eq_iff)
qed

lemma agent_keys: "plain_key ''agent-a''" "plain_key ''agent-b''" "plain_key ''j''" "plain_key ''p''" "plain_key ''v''" "plain_key ''m''"
  by code_simp+

lemma printed:
  assumes "json_prints ser"
  shows "ser (JBool b) = (if b then ''true'' else ''false'')" "ser (JNum (PosInt n)) = show_int (uint n)"
    "list_all (plain_key \<circ> fst) m \<Longrightarrow> ser (JObj m) = ''{'' @ commas (map (prints_member ser) m) @ ''}''"
  using assms by (simp_all add: json_prints_def)

definition JOIN_ROSTER :: string where
  "JOIN_ROSTER = ''{\"agent-a\":{\"j\":{\"p\":false},\"m\":false,\"p\":0,\"v\":false},\"agent-b\":{\"j\":{\"p\":false},\"m\":false,\"p\":127,\"v\":true}}''"
definition NEXT_ROSTER :: string where "NEXT_ROSTER = ''{\"agent-b\":{\"m\":false,\"p\":127,\"v\":true}}''"

lemma first_roster:
  assumes "json_prints ser"
  shows "roster_text ser {} [(''agent-a'', 0, False), (''agent-b'', 127, False)] =
    Some JOIN_ROSTER"
proof -
  have e: "entries_spec {} [(''agent-a'', 0, False), (''agent-b'', 127, False)] =
    [(''agent-a'', \<lparr>re_joined = True, re_primary = False, re_power = 0, re_speaking = False, re_moderator_muted = False\<rparr>),
     (''agent-b'', \<lparr>re_joined = True, re_primary = False, re_power = 127, re_speaking = True, re_moderator_muted = False\<rparr>)]"
    by (simp add: speaking_39)
  have v: "roster_value [(''agent-a'', \<lparr>re_joined = True, re_primary = False, re_power = 0, re_speaking = False, re_moderator_muted = False\<rparr>),
     (''agent-b'', \<lparr>re_joined = True, re_primary = False, re_power = 127, re_speaking = True, re_moderator_muted = False\<rparr>)] =
     JObj [(''agent-a'', JObj [(''j'', JObj [(''p'', JBool False)]), (''m'', JBool False), (''p'', JNum (PosInt 0)), (''v'', JBool False)]),
       (''agent-b'', JObj [(''j'', JObj [(''p'', JBool False)]), (''m'', JBool False), (''p'', JNum (PosInt 127)), (''v'', JBool True)])]"
    by code_simp
  have n: "show_int 0 = ''0''" "show_int 127 = ''127''" by code_simp+
  show ?thesis
    by (simp only: roster_text_def e list.distinct if_False roster_json_def v)
      (simp add: printed [OF assms] agent_keys prints_member_def quoted_def n JOIN_ROSTER_def)
qed

lemma second_roster:
  assumes "json_prints ser"
  shows "roster_text ser {''agent-a'', ''agent-b''} [(''agent-a'', 0, p), (''agent-b'', 127, q)] =
    Some NEXT_ROSTER"
proof -
  have e: "entries_spec {''agent-a'', ''agent-b''} [(''agent-a'', 0, p), (''agent-b'', 127, q)] =
    [(''agent-b'', \<lparr>re_joined = False, re_primary = q, re_power = 127, re_speaking = True, re_moderator_muted = False\<rparr>)]"
    by (simp add: speaking_39)
  have v: "roster_value [(''agent-b'', \<lparr>re_joined = False, re_primary = q, re_power = 127, re_speaking = True, re_moderator_muted = False\<rparr>)] =
     JObj [(''agent-b'', JObj [(''m'', JBool False), (''p'', JNum (PosInt 127)), (''v'', JBool True)])]"
    by (cases q; code_simp)
  have n: "show_int 127 = ''127''" by code_simp
  show ?thesis
    by (simp only: roster_text_def e list.distinct if_False roster_json_def v)
      (simp add: printed [OF assms] agent_keys prints_member_def quoted_def n NEXT_ROSTER_def)
qed

lemma roster_texts:
  "contains JOIN_ROSTER ''agent-b''"
  "contains JOIN_ROSTER J_KEY"
  "\<not> contains NEXT_ROSTER J_KEY"
  by code_simp+

lemma test_join_once:
  assumes "json_prints ser" shows "roster_announces_a_join_once L c ser"
proof -
  let ?st = "heap [test_session ''a'' ''agent-a'' (east 0), loud (test_session ''b'' ''agent-b'' (east 1))]"
  have seen: "map (\<lambda>a. (s_agent_id (?st a), frame_level (?st a), s_primary (?st a))) [0, 1] = [(''agent-a'', 0, False), (''agent-b'', 127, False)]"
    using tone_level by (simp add: heap_two frame_level_def)
  have inj: "inj_on (\<lambda>a. s_id (?st a)) (set [0, 1])" by (simp add: heap_two)
  show ?thesis
    unfolding roster_announces_a_join_once_def
  proof (rule after_mixI)
    fix st' :: store and out :: "listener_output list"
    assume sv: "same_view ?st st'" and o: "map o_session out = [0, 1]"
      and each: "\<forall>x \<in> set out. stereo_of L ?st (o_session x) (pulled ?st [0, 1]) = Some (o_stereo x) \<and>
        o_roster x = roster_text ser (s_announced (?st (o_session x))) (map (\<lambda>a. (s_agent_id (?st a), frame_level (?st a), s_primary (?st a))) [0, 1])"
      and ann: "\<forall>a \<in> set [0, 1]. s_inbound (st' a) = tl (s_inbound (?st a)) \<and> s_announced (st' a) = s_announced (?st a) \<union> (\<lambda>a. s_agent_id (?st a)) ` set [0, 1]"
    have first: "output_for st' out ''a'' (\<lambda>x. case o_roster x of None \<Rightarrow> False | Some r \<Rightarrow> contains r ''agent-b'' \<and> contains r J_KEY)"
      using sv o _ inj each
    proof (rule stereo_outI [where m = 0])
      fix x :: listener_output
      assume "o_roster x = roster_text ser (s_announced (?st 0)) (map (\<lambda>a. (s_agent_id (?st a), frame_level (?st a), s_primary (?st a))) [0, 1])"
      then have "o_roster x = Some JOIN_ROSTER" unfolding seen by (simp add: heap_two first_roster [OF assms])
      then show "case o_roster x of None \<Rightarrow> False | Some r \<Rightarrow> contains r ''agent-b'' \<and> contains r J_KEY" by (simp only: option.case roster_texts)
    qed (simp_all add: heap_two)
    let ?st2 = "st'(1 := loud (st' 1))"
    have v: "s_id (st' 0) = ''a''" "s_id (st' 1) = ''b''" "s_agent_id (st' 0) = ''agent-a''" "s_agent_id (st' 1) = ''agent-b''"
      "s_inbound (st' 0) = []" "s_inbound (st' 1) = []" "s_announced (st' 0) = {''agent-a'', ''agent-b''}"
      using sv ann by (simp_all add: same_view_def same_ids_def heap_two)
    have seen2: "map (\<lambda>a. (s_agent_id (?st2 a), frame_level (?st2 a), s_primary (?st2 a))) [0, 1] =
        [(''agent-a'', 0, s_primary (st' 0)), (''agent-b'', 127, s_primary (st' 1))]"
      using tone_level v by (simp add: frame_level_def)
    have "after_mix L c ser [0, 1] ?st2 (\<lambda>st out. output_for st out ''a'' (\<lambda>x. case o_roster x of None \<Rightarrow> False | Some r \<Rightarrow> \<not> contains r J_KEY))"
    proof (rule after_mixI)
      fix st3 :: store and out :: "listener_output list"
      assume sv: "same_view ?st2 st3" and o: "map o_session out = [0, 1]"
        and each: "\<forall>x \<in> set out. stereo_of L ?st2 (o_session x) (pulled ?st2 [0, 1]) = Some (o_stereo x) \<and>
          o_roster x = roster_text ser (s_announced (?st2 (o_session x))) (map (\<lambda>a. (s_agent_id (?st2 a), frame_level (?st2 a), s_primary (?st2 a))) [0, 1])"
      have inj: "inj_on (\<lambda>a. s_id (?st2 a)) (set [0, 1])" using v by simp
      show "output_for st3 out ''a'' (\<lambda>x. case o_roster x of None \<Rightarrow> False | Some r \<Rightarrow> \<not> contains r J_KEY)"
        using sv o _ inj each
      proof (rule stereo_outI [where m = 0])
        fix x :: listener_output
        assume "o_roster x = roster_text ser (s_announced (?st2 0)) (map (\<lambda>a. (s_agent_id (?st2 a), frame_level (?st2 a), s_primary (?st2 a))) [0, 1])"
        then have "o_roster x = Some NEXT_ROSTER" unfolding seen2 by (simp add: v second_roster [OF assms])
        then show "case o_roster x of None \<Rightarrow> False | Some r \<Rightarrow> \<not> contains r J_KEY" by (simp only: option.case roster_texts not_False_eq_True)
      qed (simp_all add: v)
    qed simp
    with first show "output_for st' out ''a'' (\<lambda>x. case o_roster x of None \<Rightarrow> False | Some r \<Rightarrow> contains r ''agent-b'' \<and> contains r J_KEY) \<and>
        after_mix L c ser [0, 1] ?st2 (\<lambda>st out. output_for st out ''a'' (\<lambda>x. case o_roster x of None \<Rightarrow> False | Some r \<Rightarrow> \<not> contains r J_KEY))" by blast
  qed simp
qed

lemma test_silent: "silent_room_produces_no_roster_traffic L c ser"
proof -
  let ?st = "heap [test_session ''a'' ''agent-a'' (east 0), test_session ''b'' ''agent-b'' (east 1)]"
  show ?thesis
    unfolding silent_room_produces_no_roster_traffic_def
  proof (rule after_mixI)
    fix st' :: store and out :: "listener_output list"
    assume sv: "same_view ?st st'"
      and ann: "\<forall>a \<in> set [0, 1]. s_inbound (st' a) = tl (s_inbound (?st a)) \<and> s_announced (st' a) = s_announced (?st a) \<union> (\<lambda>a. s_agent_id (?st a)) ` set [0, 1]"
    have v: "s_agent_id (st' 0) = ''agent-a''" "s_agent_id (st' 1) = ''agent-b''" "s_inbound (st' 0) = []" "s_inbound (st' 1) = []"
      "s_announced (st' 0) = {''agent-a'', ''agent-b''}" "s_announced (st' 1) = {''agent-a'', ''agent-b''}"
      using sv ann by (simp_all add: same_view_def same_ids_def heap_two)
    show "after_mix L c ser [0, 1] st' (\<lambda>st out. list_all (\<lambda>x. o_roster x = None) out)"
    proof (rule after_mixI)
      fix st3 :: store and out :: "listener_output list"
      assume o: "map o_session out = [0, 1]"
        and each: "\<forall>x \<in> set out. stereo_of L st' (o_session x) (pulled st' [0, 1]) = Some (o_stereo x) \<and>
          o_roster x = roster_text ser (s_announced (st' (o_session x))) (map (\<lambda>a. (s_agent_id (st' a), frame_level (st' a), s_primary (st' a))) [0, 1])"
      have "o_roster x = None" if "x \<in> set out" for x
      proof -
        have "o_session x \<in> set (map o_session out)" using that by simp
        then have "o_session x = 0 \<or> o_session x = 1" unfolding o by simp
        then have told: "s_announced (st' (o_session x)) = {''agent-a'', ''agent-b''}" using v by (elim disjE) (simp_all only:)
        have "map (\<lambda>a. (s_agent_id (st' a), frame_level (st' a), s_primary (st' a))) [0, 1] =
            [(''agent-a'', 0, s_primary (st' 0)), (''agent-b'', 0, s_primary (st' 1))]"
          using v by (simp add: frame_level_def)
        moreover have "roster_text ser {''agent-a'', ''agent-b''} [(''agent-a'', 0, p), (''agent-b'', 0, q)] = None" for p q
          by (simp add: roster_text_def)
        ultimately have "roster_text ser (s_announced (st' (o_session x)))
            (map (\<lambda>a. (s_agent_id (st' a), frame_level (st' a), s_primary (st' a))) [0, 1]) = None" by (simp only: told)
        then show ?thesis using bspec [OF each that] by (simp only:)
      qed
      then show "list_all (\<lambda>x. o_roster x = None) out" by (simp add: list_all_iff)
    qed simp
  qed simp
qed

lemma remove_only: "hm_remove k (hm_insert k v hm_empty) = hm_empty"
  by (simp add: hm_remove_def hm_insert_def hm_empty_def)

lemma test_remove: removing_a_session_drops_its_room_entry
  by (simp add: removing_a_session_drops_its_room_entry_def Let_def heap_nth reg_insert_def insert_session_def insert_room_def
      reg_members_def reg_remove_def remove_room_def registry_default_def session_count_def reg_rooms_def hm_simps map_filter_simps
      unwrap_or_def remove_only)
    (simp add: hm_len_def hm_keys_def hm_empty_def)

lemma test_jitter: jitter_buffer_drops_oldest_rather_than_growing
proof -
  let ?s = "test_session ''a'' ''agent-a'' (east 0)" let ?g = "\<lambda>i. replicate FRAME_SAMPLES (fp_of_int F32 (int i))"
  let ?a = "fold (\<lambda>i. push_frame (?g i)) [0..<JITTER_MAX_FRAMES + 5] ?s"
  have "?a = fold push_frame (map ?g [0..<JITTER_MAX_FRAMES + 5]) ?s" by (simp add: fold_map comp_def)
  then have i: "s_inbound ?a = drop 5 (map ?g [0..<15])"
    using jitter.pushes_last [of ?s "map ?g [0..<15]"] by (simp add: JITTER_MAX_FRAMES_def)
  then have ib: "s_inbound ?a = ?g 5 # map ?g [6..<15]" by (simp add: drop_map upt_conv_Cons)
  have "length (s_inbound ?a) = JITTER_MAX_FRAMES" unfolding ib by (simp add: JITTER_MAX_FRAMES_def)
  moreover have "snd (take_frame ?a) = Some (?g 5)" unfolding take_frame_def ib by simp
  moreover have "fp_of_int F32 5 = Fin 5" by code_simp
  ultimately show ?thesis
    by (simp only: jitter_buffer_drops_oldest_rather_than_growing_def Let_def option.case simp_thms) (simp add: FRAME_SAMPLES_def)
qed

lemma test_gains: gain_conversion_uses_the_viewer_factor
proof -
  have g: "wire_gain 220 = Fin 1" "wire_gain 110 = Fin (1 / 2)" by code_simp+
  have c: "close F32 (Fin 1) (Fin 1) (1 / 1000000)" "close F32 (Fin (1 / 2)) (Fin (1 / 2)) (1 / 1000000)" by code_simp+
  have z: "hm_len hm_empty = 0" by (simp add: hm_len_def hm_empty_def)
  show ?thesis
    by (simp add: z gain_conversion_uses_the_viewer_factor_def Let_def apply_data_def apply_join_def filter_message_def viewer_data_default_def
        apply_gains_def apply_mutes_def put_bounded_def peer_gain_def hm_simps g c MAX_PEER_ENTRIES_def)
qed

lemma test_server_tether: tether_is_reapplied_server_side
proof -
  have n: "v3_norm (Fin 1000, Fin 0, Fin 0) = Fin 1000" using norm_axis(2) [of 1000] by simp
  have z: "fp_le (Fin 1000) (Fin 50) = False" "fp_eq (Fin 1000) (Fin 0) = False" by simp_all
  have k: "close F64 (fabs (fsub F64 (fadd F64 (Fin 0) (fmul F64 (Fin 1000) (fdiv F64 (Fin 50) (Fin 1000)))) (Fin 0))) (Fin 50) (1 / 1000000)"
    by code_simp
  have s: "v3_sub (east 1000) (east 0) = (Fin 1000, Fin 0, Fin 0)" by (simp add: v3_sub_def fsub_def rnd_repr)
  have t: "fst (tether (east 1000) (east 0)) = fadd F64 (Fin 0) (fmul F64 (Fin 1000) (fdiv F64 (Fin 50) (Fin 1000)))"
    by (simp only: tether_def Let_def s n MAX_AUDIO_DIST_def z if_False simp_thms prod.case fst_conv)
  show ?thesis
    using k t by (simp add: tether_is_reapplied_server_side_def Let_def apply_data_def apply_join_def filter_message_def viewer_data_default_def
        apply_spatial_def finite3_def finite4_def opt_filter_def MAX_AUDIO_DIST_def)
qed

text \<open>The expectations the authors wrote down for rooms hold of the model: all eleven unit tests of \<open>room.rs\<close>
  pass, with every accurate mathematics library, every logging setting and every compact printer. Among
  them: a lone speaker hears exact silence; a speaker at 5 m is audible and one at 500 m is not; two speakers
  hear each other on opposite sides; a muted speaker is silent for that listener only and one at half gain
  clearly quieter; a join is announced once, and an idle room sends no roster.\<close>

lemma room_tests:
  assumes "libm_ok L" "json_prints ser"
  shows "listener_never_hears_themselves L c ser \<and> nearby_speaker_is_audible_and_distant_one_is_not L c ser \<and>
    each_listener_gets_its_own_mix L c ser \<and> per_listener_mute_and_gain_are_respected L c ser \<and>
    position_unknown_speakers_are_not_placed_at_the_origin L c ser \<and> roster_announces_a_join_once L c ser \<and>
    silent_room_produces_no_roster_traffic L c ser \<and> removing_a_session_drops_its_room_entry \<and>
    jitter_buffer_drops_oldest_rather_than_growing \<and> gain_conversion_uses_the_viewer_factor \<and> tether_is_reapplied_server_side"
  using test_self test_near_far [OF assms(1)] test_own_mix [OF assms(1)] test_mute_gain [OF assms(1)] test_ghost
    test_join_once [OF assms(2)] test_silent test_remove test_jitter test_gains test_server_tether
  by blast

lemma room_tests_witness:
  "each_listener_gets_its_own_mix exact_libm logctl_init compact \<and> roster_announces_a_join_once exact_libm logctl_init compact"
  using room_tests [OF exact_libm_ok compact_prints] by blast

end
