(* ===== verification/Spatial_Audio.thy ===== *)
theory Spatial_Audio
  imports Stereo_Image
begin

text \<open>
  What the spatial arithmetic of \<open>src/src/mixer.rs\<close> computes, against its formulas over the reals: the
  attenuation line, the point to which a far ear is clamped, and the pan weights.
\<close>

section \<open>The attenuation line\<close>

lemma rnd32_unit: "\<bar>x\<bar> \<le> 1 \<Longrightarrow> \<bar>rnd_real F32 x - x\<bar> \<le> 1 / 2 ^ 22"
  using rnd32_err(2) [of x] by simp

lemma error_chain:
  fixes p q :: real
  assumes "\<bar>r - c\<bar> \<le> p" "\<bar>u - v\<bar> \<le> q" "t = 1 - v" "\<bar>b - u\<bar> \<le> q" "\<bar>c - (1 - b)\<bar> \<le> q"
  shows "\<bar>r - t\<bar> \<le> p + 3 * q"
  using assms by linarith

lemma mid_gain_line:
  assumes "10 \<le> x" "x \<le> 60" shows "\<bar>mid_gain x - (60 - x) / 50\<bar> \<le> 1 / 10 ^ 6"
proof -
  define a where "a = rnd_real F64 (x - 10)"
  define b where "b = rnd_real F64 (a / 50)"
  define c where "c = rnd_real F64 (1 - b)"
  have a: "\<bar>a - (x - 10)\<bar> \<le> uu * 50 + ee" "0 \<le> a \<and> a \<le> 50"
  proof -
    have "\<bar>a - (x - 10)\<bar> \<le> uu * \<bar>x - 10\<bar> + ee" unfolding a_def by (rule rnd_err)
    also have "\<dots> \<le> uu * 50 + ee" using assms by simp
    finally show "\<bar>a - (x - 10)\<bar> \<le> uu * 50 + ee" .
    show "0 \<le> a \<and> a \<le> 50" unfolding a_def using assms by (intro rnd_between_real) auto
  qed
  have b: "\<bar>b - a / 50\<bar> \<le> uu + ee" "0 \<le> b \<and> b \<le> 1"
  proof -
    have "\<bar>b - a / 50\<bar> \<le> uu * \<bar>a / 50\<bar> + ee" unfolding b_def by (rule rnd_err)
    also have "\<dots> \<le> uu + ee" using a(2) by simp
    finally show "\<bar>b - a / 50\<bar> \<le> uu + ee" .
    show "0 \<le> b \<and> b \<le> 1" unfolding b_def using a(2) by (intro rnd_between_real) auto
  qed
  have c: "\<bar>c - (1 - b)\<bar> \<le> uu + ee" "0 \<le> c \<and> c \<le> 1"
  proof -
    have "\<bar>c - (1 - b)\<bar> \<le> uu * \<bar>1 - b\<bar> + ee" unfolding c_def by (rule rnd_err)
    also have "\<dots> \<le> uu + ee" using b(2) by simp
    finally show "\<bar>c - (1 - b)\<bar> \<le> uu + ee" .
    show "0 \<le> c \<and> c \<le> 1" unfolding c_def using b(2) by (intro rnd_between_real) auto
  qed
  have m: "mid_gain x = rnd_real F32 c" by (simp only: mid_gain_def a_def b_def c_def)
  have "\<bar>rnd_real F32 c - c\<bar> \<le> 1 / 2 ^ 22" using c(2) by (intro rnd32_unit) simp
  moreover have "\<bar>a / 50 - (x - 10) / 50\<bar> \<le> uu + ee"
  proof -
    have "\<bar>(a - (x - 10)) / 50\<bar> \<le> (uu * 50 + ee) / 50" unfolding abs_divide using a(1) by simp
    moreover have "(a - (x - 10)) / 50 = a / 50 - (x - 10) / 50" by (rule diff_divide_distrib)
    ultimately show ?thesis by simp
  qed
  moreover have "(60 - x) / 50 = 1 - (x - 10) / 50" by (simp add: field_simps)
  ultimately have "\<bar>mid_gain x - (60 - x) / 50\<bar> \<le> 1 / 2 ^ 22 + 3 * (uu + ee)"
    unfolding m by (rule error_chain) (rule b(1), rule c(1))
  also have "\<dots> \<le> 1 / 10 ^ 6" by simp
  finally show ?thesis .
qed

text \<open>C20. The attenuation curve: for distances \<open>a\<close> and \<open>b\<close> with \<open>a\<close> at most \<open>b\<close> (infinite ones included), the
  gain is a number between 0 and 1 and does not grow with the distance, in spite of the four roundings of
  the formula; it is exactly 1 up to 10 m; between 10 m and 60 m it lies within \<open>10^-6\<close> of the straight line
  \<open>(60 - x) / 50\<close>; and for a representable distance it is 0 exactly from 60 m on, never earlier.\<close>

theorem distance_gain_curve:
  assumes "fp_le a b"
  shows "fbetween 0 1 (distance_gain a) \<and> fp_le (distance_gain b) (distance_gain a) \<and>
    (fp_le b (Fin 10) \<longrightarrow> distance_gain b = Fin 1) \<and>
    (\<forall>x. b = Fin x \<longrightarrow> 10 \<le> x \<longrightarrow> x \<le> 60 \<longrightarrow> (\<exists>g. distance_gain b = Fin g \<and> \<bar>g - (60 - x) / 50\<bar> \<le> 1 / 10 ^ 6)) \<and>
    (\<forall>x. b = Fin x \<longrightarrow> repr F64 x \<longrightarrow> (distance_gain b = Fin 0 \<longleftrightarrow> 60 \<le> x))"
proof -
  have "a \<noteq> FNaN" using assms by auto
  moreover have "\<exists>g. distance_gain (Fin x) = Fin g \<and> \<bar>g - (60 - x) / 50\<bar> \<le> 1 / 10 ^ 6" if "10 \<le> x" "x \<le> 60" for x
  proof -
    consider "x = 10" | "x = 60" | "10 < x" "x < 60" using \<open>10 \<le> x\<close> \<open>x \<le> 60\<close> by linarith
    then show ?thesis
      using distance_gain_mid [of x] mid_gain_line [OF that]
      by cases (simp_all add: distance_gain_def REF_DISTANCE_def MAX_DISTANCE_def)
  qed
  ultimately show ?thesis
    using distance_gain_range distance_gain_antitone [OF assms] gain_zero_iff
    by (auto simp: distance_gain_def [of b] REF_DISTANCE_def)
qed

lemma distance_gain_curve_witness:
  "fp_le (distance_gain (Fin 35)) (distance_gain (Fin 20)) \<and> (\<exists>g. distance_gain (Fin 35) = Fin g \<and> \<bar>g - 1 / 2\<bar> \<le> 1 / 10 ^ 6)"
proof -
  have "fp_le (Fin 20) (Fin 35)" by simp
  from distance_gain_curve [OF this] show ?thesis by force
qed

section \<open>The clamped ear\<close>

lemma v3_norm_upper:
  assumes "v3_norm (Fin x, Fin y, Fin z) = Fin d"
  shows "d \<le> n3 x y z * (1 + 8 * uu) + 1 / 10 ^ 20"
proof -
  define p where "p = rnd_real F64 (x * x)"
  define q where "q = rnd_real F64 (y * y)"
  define r where "r = rnd_real F64 (z * z)"
  define s where "s = rnd_real F64 (rnd_real F64 (p + q) + r)"
  have nn: "0 \<le> p" "0 \<le> q" "0 \<le> r" by (simp_all add: p_def q_def r_def rd.nonneg)
  then have t0: "0 \<le> rnd_real F64 (p + q)" by (simp add: rd.nonneg)
  then have s0: "0 \<le> s" using nn by (simp add: s_def rd.nonneg)
  have d: "d = rnd_real F64 (sqrt s)"
    using rnd_nonneg_cases [of "x * x" F64] rnd_nonneg_cases [of "y * y" F64]
      rnd_nonneg_cases [of "z * z" F64] rnd_nonneg_cases [of "p + q" F64]
      rnd_nonneg_cases [of "rnd_real F64 (p + q) + r" F64] rnd_nonneg_cases [of "sqrt s" F64] nn t0 s0 assms
    unfolding v3_norm_def by (auto simp: p_def [symmetric] q_def [symmetric] r_def [symmetric] s_def [symmetric])
  have "p \<le> x * x * (1 + uu) + ee" "q \<le> y * y * (1 + uu) + ee" "r \<le> z * z * (1 + uu) + ee"
    "rnd_real F64 (p + q) \<le> (p + q) * (1 + uu) + ee"
    "s \<le> (rnd_real F64 (p + q) + r) * (1 + uu) + ee"
    using nn t0 by (auto simp only: p_def q_def r_def s_def intro!: rnd_err_nonneg(2) add_nonneg_nonneg zero_le_square)
  moreover have "0 \<le> x * x" "0 \<le> y * y" "0 \<le> z * z" by simp_all
  ultimately have "s \<le> (x * x + y * y + z * z) * (1 + 4 * uu) + 6 * ee"
    using nn t0 s0 by (simp add: field_simps)
  then have "sqrt s \<le> sqrt ((x * x + y * y + z * z) * (1 + 4 * uu) + 6 * ee)" by simp
  also have "\<dots> \<le> sqrt ((x * x + y * y + z * z) * (1 + 4 * uu)) + sqrt (6 * ee)"
    by (intro sqrt_add_le_add_sqrt) auto
  also have "sqrt (6 * ee) \<le> 1 / 10 ^ 21" by (rule real_le_lsqrt) (simp_all add: power_divide)
  also have "sqrt ((x * x + y * y + z * z) * (1 + 4 * uu)) \<le> sqrt ((x * x + y * y + z * z) * (1 + 4 * uu)\<^sup>2)"
    by (intro real_sqrt_le_mono mult_left_mono) (simp_all add: power2_eq_square)
  also have "\<dots> = n3 x y z * (1 + 4 * uu)"
    by (simp only: real_sqrt_mult real_sqrt_abs n3_def power2_eq_square [of x] power2_eq_square [of y] power2_eq_square [of z])
  finally have a: "sqrt s \<le> n3 x y z * (1 + 4 * uu) + 1 / 10 ^ 21" by simp
  have "d \<le> sqrt s * (1 + uu) + ee" using s0 by (simp only: d rnd_err_nonneg(2) real_sqrt_ge_zero)
  also have "\<dots> \<le> (n3 x y z * (1 + 4 * uu) + 1 / 10 ^ 21) * (1 + uu) + ee" using a by (intro add_right_mono mult_right_mono) auto
  also have "\<dots> \<le> n3 x y z * (1 + 8 * uu) + 1 / 10 ^ 20" using n3_nonneg [of x y z] by (simp add: field_simps)
  finally show ?thesis .
qed


text \<open>Scaling the computed offset by the computed factor is scaling the real one by \<open>50 / D\<close>, up to rounding.\<close>

lemma scaled_component:
  fixes w x D d k :: real
  assumes "\<bar>x - w\<bar> \<le> uu * \<bar>w\<bar> + ee" "\<bar>w\<bar> \<le> D" "50 < d" "\<bar>D - d\<bar> \<le> 20 * uu * d + 1 / 10 ^ 19"
    "0 \<le> k" "k \<le> 1" "\<bar>k * d - 50\<bar> \<le> 50 * uu"
  shows "\<bar>rnd_real F64 (x * k) - 50 / D * w\<bar> \<le> 1 / 10 ^ 11"
proof -
  have D: "0 < D"
  proof -
    have "20 * uu * d + 1 / 10 ^ 19 < d" using assms(3) by simp
    then show ?thesis using assms(4) by linarith
  qed
  have kd: "k * d \<le> 51" using abs_le_D1 [OF assms(7)] by simp
  have e1: "\<bar>k * D - 50\<bar> \<le> 1 / 10 ^ 12"
  proof -
    have "\<bar>k * D - k * d\<bar> = k * \<bar>D - d\<bar>" using assms(5) by (simp add: right_diff_distrib [symmetric] abs_mult)
    also have "\<dots> \<le> k * (20 * uu * d + 1 / 10 ^ 19)" using assms(4,5) by (rule mult_left_mono)
    also have "\<dots> = 20 * uu * (k * d) + k / 10 ^ 19" by (simp add: algebra_simps)
    also have "\<dots> \<le> 20 * uu * 51 + 1 / 10 ^ 19" by (intro add_mono mult_left_mono kd) (use assms(6) in simp_all)
    finally have "\<bar>k * D - 50\<bar> \<le> 20 * uu * 51 + 1 / 10 ^ 19 + 50 * uu" using assms(7) by linarith
    also have "\<dots> \<le> 1 / 10 ^ 12" by simp
    finally show ?thesis .
  qed
  have kD: "k * D \<le> 51" using abs_le_D1 [OF e1] by simp
  have kw: "k * \<bar>w\<bar> \<le> 51" using mult_left_mono [OF assms(2,5)] kD by linarith
  have e2: "\<bar>k * w - 50 / D * w\<bar> \<le> 1 / 10 ^ 12"
  proof -
    have "k * w - 50 / D * w = (k * D - 50) * (w / D)" using D by (simp add: field_simps)
    moreover have "\<bar>w / D\<bar> \<le> 1" using assms(2) D by (simp add: abs_divide)
    ultimately have "\<bar>k * w - 50 / D * w\<bar> \<le> \<bar>k * D - 50\<bar> * 1" unfolding abs_mult by (simp only: abs_mult) (rule mult_left_mono, simp_all)
    then show ?thesis by (rule order_trans) (simp only: mult_1_right e1)
  qed
  have e3: "\<bar>x * k - k * w\<bar> \<le> 51 * uu + ee"
  proof -
    have "x * k - k * w = k * (x - w)" by (simp add: algebra_simps)
    then have "\<bar>x * k - k * w\<bar> = k * \<bar>x - w\<bar>" using assms(5) by (simp add: abs_mult)
    also have "\<dots> \<le> k * (uu * \<bar>w\<bar> + ee)" using assms(1,5) by (rule mult_left_mono)
    also have "\<dots> = uu * (k * \<bar>w\<bar>) + k * ee" by (simp add: algebra_simps)
    also have "\<dots> \<le> uu * 51 + 1 * ee" using kw assms(6) by (intro add_mono mult_left_mono mult_right_mono) simp_all
    finally show ?thesis by simp
  qed
  have "\<bar>x * k\<bar> \<le> 52"
  proof -
    have "\<bar>k * w\<bar> \<le> 51" using kw assms(5) by (simp add: abs_mult)
    moreover have "51 * uu + ee \<le> 1" by simp
    ultimately show ?thesis using e3 by linarith
  qed
  then have "\<bar>rnd_real F64 (x * k) - x * k\<bar> \<le> uu * 52 + ee"
    using rnd_err [of "x * k"] mult_left_mono [of "\<bar>x * k\<bar>" 52 uu] by simp
  then have "\<bar>rnd_real F64 (x * k) - 50 / D * w\<bar> \<le> (uu * 52 + ee) + (51 * uu + ee) + 1 / 10 ^ 12" using e2 e3 by linarith
  also have "\<dots> \<le> 1 / 10 ^ 11" by simp
  finally show ?thesis .
qed

lemma n3_pos_bound: "n3 x y z \<le> d * (1 + 8 * uu) + 1 / 10 ^ 20 \<Longrightarrow> d \<le> n3 x y z * (1 + 8 * uu) + 1 / 10 ^ 20 \<Longrightarrow>
    \<bar>x - u\<bar> \<le> uu * \<bar>u\<bar> + ee \<Longrightarrow> \<bar>y - v\<bar> \<le> uu * \<bar>v\<bar> + ee \<Longrightarrow> \<bar>z - w\<bar> \<le> uu * \<bar>w\<bar> + ee \<Longrightarrow>
    \<bar>u - x\<bar> \<le> 2 * uu * \<bar>x\<bar> + 2 * ee \<Longrightarrow> \<bar>v - y\<bar> \<le> 2 * uu * \<bar>y\<bar> + 2 * ee \<Longrightarrow> \<bar>w - z\<bar> \<le> 2 * uu * \<bar>z\<bar> + 2 * ee \<Longrightarrow>
    50 < d \<Longrightarrow> \<bar>n3 u v w - d\<bar> \<le> 20 * uu * d + 1 / 10 ^ 19"
proof -
  assume a: "n3 x y z \<le> d * (1 + 8 * uu) + 1 / 10 ^ 20" "d \<le> n3 x y z * (1 + 8 * uu) + 1 / 10 ^ 20"
    and c: "\<bar>x - u\<bar> \<le> uu * \<bar>u\<bar> + ee" "\<bar>y - v\<bar> \<le> uu * \<bar>v\<bar> + ee" "\<bar>z - w\<bar> \<le> uu * \<bar>w\<bar> + ee"
    and c': "\<bar>u - x\<bar> \<le> 2 * uu * \<bar>x\<bar> + 2 * ee" "\<bar>v - y\<bar> \<le> 2 * uu * \<bar>y\<bar> + 2 * ee" "\<bar>w - z\<bar> \<le> 2 * uu * \<bar>z\<bar> + 2 * ee"
    and d: "50 < d"
  have up: "n3 u v w \<le> (1 + 2 * uu) * n3 x y z + 3 * (2 * ee)" using c' by (intro n3_close) simp_all
  have lo: "n3 x y z \<le> (1 + uu) * n3 u v w + 3 * ee" using c by (intro n3_close) simp_all
  have "n3 u v w \<le> (1 + 2 * uu) * (d * (1 + 8 * uu) + 1 / 10 ^ 20) + 3 * (2 * ee)"
    using up mult_left_mono [OF a(1), of "1 + 2 * uu"] by linarith
  then have "n3 u v w \<le> d * (1 + 20 * uu) + 1 / 10 ^ 19" using d by (simp add: algebra_simps)
  moreover have "d \<le> ((1 + uu) * n3 u v w + 3 * ee) * (1 + 8 * uu) + 1 / 10 ^ 20"
    using a(2) mult_right_mono [OF lo, of "1 + 8 * uu"] by linarith
  then have "d * (1 - 20 * uu) - 1 / 10 ^ 19 \<le> n3 u v w" using d n3_nonneg [of u v w] by (simp add: algebra_simps)
  ultimately show ?thesis by (simp add: abs_le_iff algebra_simps)
qed


text \<open>A point is, up to an error per axis, the one 50 m from the avatar in the direction of the claimed ear.\<close>

definition at_50 :: "real \<Rightarrow> vec3 \<Rightarrow> vec3 \<Rightarrow> vec3 \<Rightarrow> bool" where
  "at_50 e listener avatar t \<longleftrightarrow> (case (listener, avatar, t) of
     ((Fin l0, Fin l1, Fin l2), (Fin a0, Fin a1, Fin a2), (Fin t0, Fin t1, Fin t2)) \<Rightarrow>
       (let D = n3 (l0 - a0) (l1 - a1) (l2 - a2)
        in \<bar>t0 - (a0 + 50 / D * (l0 - a0))\<bar> \<le> e \<and> \<bar>t1 - (a1 + 50 / D * (l1 - a1))\<bar> \<le> e \<and>
           \<bar>t2 - (a2 + 50 / D * (l2 - a2))\<bar> \<le> e)
   | _ \<Rightarrow> False)"

lemma clamp_factor:
  assumes "50 < d" "d \<le> maxfin F64"
  shows "fdiv F64 MAX_AUDIO_DIST (Fin d) = Fin (rnd_real F64 (50 / d))" "0 \<le> rnd_real F64 (50 / d)"
    "rnd_real F64 (50 / d) \<le> 1" "\<bar>rnd_real F64 (50 / d) * d - 50\<bar> \<le> 50 * uu"
proof -
  have b: "50 / d \<le> 1" "0 \<le> 50 / d" using assms(1) by auto
  then have "\<bar>50 / d\<bar> \<le> maxfin F64" using one_le_maxfin [of F64] by linarith
  then show "fdiv F64 MAX_AUDIO_DIST (Fin d) = Fin (rnd_real F64 (50 / d))"
    using assms(1) by (simp add: MAX_AUDIO_DIST_def rnd_Fin)
  show "0 \<le> rnd_real F64 (50 / d)" using b(2) by (rule rnd_real_nonneg)
  show "rnd_real F64 (50 / d) \<le> 1" using rd.rd_mono [OF b(1), of F64] by (simp add: rnd_real_repr)
  have "pow2 (- 1022) = 4 * pow2 (- 1024)" using pow2_add [of 2 "- 1024"] pow2_nat [of 2] by simp
  also have "\<dots> = 4 / pow2 1024" using pow2_minus [of 1024] by simp
  also have "\<dots> \<le> 4 / d"
    using assms maxfin_less [of F64] by (intro divide_left_mono) (auto simp: emax_def)
  also have "\<dots> \<le> 50 / d" using assms(1) by (intro divide_right_mono) auto
  finally have "\<bar>rnd_real F64 (50 / d) - 50 / d\<bar> \<le> uu * (50 / d)" using rnd_rel [of "50 / d"] assms(1) by simp
  then have "\<bar>rnd_real F64 (50 / d) - 50 / d\<bar> * d \<le> uu * (50 / d) * d" using assms(1) by (intro mult_right_mono) simp_all
  moreover have "\<bar>rnd_real F64 (50 / d) * d - 50\<bar> = \<bar>rnd_real F64 (50 / d) - 50 / d\<bar> * d"
  proof -
    have "rnd_real F64 (50 / d) * d - 50 = (rnd_real F64 (50 / d) - 50 / d) * d" using assms(1) by (simp add: left_diff_distrib)
    then show ?thesis using assms(1) by (simp add: abs_mult)
  qed
  ultimately show "\<bar>rnd_real F64 (50 / d) * d - 50\<bar> \<le> 50 * uu" using assms(1) by simp
qed

lemma clamped_component:
  assumes "\<bar>x - w\<bar> \<le> uu * \<bar>w\<bar> + ee" "\<bar>w\<bar> \<le> D" "50 < d" "\<bar>D - d\<bar> \<le> 20 * uu * d + 1 / 10 ^ 19"
    "0 \<le> k" "k \<le> 1" "\<bar>k * d - 50\<bar> \<le> 50 * uu" "\<bar>a\<bar> \<le> coord_bound" "\<bar>x\<bar> \<le> 4 * coord_bound" "\<bar>a\<bar> \<le> sp"
  shows "\<exists>t. fadd F64 (Fin a) (fmul F64 (Fin x) (Fin k)) = Fin t \<and> \<bar>t - (a + 50 / D * w)\<bar> \<le> 1 / 10 ^ 10 + uu * sp"
proof -
  let ?v = "rnd_real F64 (x * k)"
  have "\<bar>x * k\<bar> \<le> 4 * coord_bound * 1" unfolding abs_mult using assms(5,6,9) by (intro mult_mono) auto
  then have "\<bar>x * k\<bar> \<le> maxfin F64" using coord_multiples(4) by linarith
  then have m: "fmul F64 (Fin x) (Fin k) = Fin ?v" by (simp add: rnd_Fin)
  have v: "\<bar>?v - 50 / D * w\<bar> \<le> 1 / 10 ^ 11" using assms(1-7) by (rule scaled_component)
  have D: "0 < D"
  proof -
    have "20 * uu * d + 1 / 10 ^ 19 < d" using assms(3) by simp
    then show ?thesis using assms(4) by linarith
  qed
  have "50 * \<bar>w\<bar> \<le> 50 * D" using assms(2) by simp
  then have "\<bar>50 / D * w\<bar> \<le> 50" using D by (simp add: abs_mult pos_divide_le_eq)
  moreover have "1 / 10 ^ 11 \<le> (1 :: real)" by simp
  ultimately have v51: "\<bar>?v\<bar> \<le> 51" using v by linarith
  note t = tether_component [OF assms(8) v51]
  have "\<bar>rnd_real F64 (a + ?v) - (a + 50 / D * w)\<bar> \<le> 1 / 10 ^ 11 + (uu * \<bar>?v\<bar> + (uu * \<bar>a\<bar> + ee))"
    using t(3) v by linarith
  also have "\<dots> \<le> 1 / 10 ^ 11 + (uu * 51 + (uu * sp + ee))" using v51 assms(10) by (intro add_mono mult_left_mono) simp_all
  also have "\<dots> \<le> 1 / 10 ^ 10 + uu * sp" by simp
  finally show ?thesis unfolding m using t(1) by blast
qed

lemma tether_direction:
  assumes "ear_ok listener" "vec3_ok avatar" "v3_norm (v3_sub listener avatar) = Fin d" "50 < d"
  shows "at_50 (1 / 10 ^ 10 + uu * span avatar) listener avatar (tether listener avatar)"
proof -
  obtain l0 l1 l2 where l: "listener = (Fin l0, Fin l1, Fin l2)" "\<bar>l0\<bar> \<le> 2 * coord_bound"
    "\<bar>l1\<bar> \<le> 2 * coord_bound" "\<bar>l2\<bar> \<le> 2 * coord_bound"
    using assms(1) by (cases listener) (auto simp: ear_ok_iff)
  obtain a0 a1 a2 where a: "avatar = (Fin a0, Fin a1, Fin a2)" "\<bar>a0\<bar> \<le> coord_bound"
    "\<bar>a1\<bar> \<le> coord_bound" "\<bar>a2\<bar> \<le> coord_bound"
    using assms(2) by (cases avatar) (auto simp: vec3_ok_iff)
  let ?o0 = "rnd_real F64 (l0 - a0)" and ?o1 = "rnd_real F64 (l1 - a1)" and ?o2 = "rnd_real F64 (l2 - a2)"
  have off: "v3_sub listener avatar = (Fin ?o0, Fin ?o1, Fin ?o2)"
    using l a by (simp add: v3_sub_def coord_diff)
  note ob = coord_diff(2) [OF l(2) a(2)] coord_diff(2) [OF l(3) a(3)] coord_diff(2) [OF l(4) a(4)]
  have se: "\<bar>a0\<bar> \<le> span avatar" "\<bar>a1\<bar> \<le> span avatar" "\<bar>a2\<bar> \<le> span avatar" by (simp_all add: span_def a(1))
  let ?D = "n3 (l0 - a0) (l1 - a1) (l2 - a2)"
  have n: "v3_norm (Fin ?o0, Fin ?o1, Fin ?o2) = Fin d" using assms(3) by (simp only: off)
  have nd: "d \<le> maxfin F64" "n3 ?o0 ?o1 ?o2 \<le> d * (1 + 8 * uu) + 1 / 10 ^ 20"
    using v3_norm_cases [of ?o0 ?o1 ?o2] n by auto
  have D: "\<bar>?D - d\<bar> \<le> 20 * uu * d + 1 / 10 ^ 19"
    by (rule n3_pos_bound [OF nd(2) v3_norm_upper [OF n] rnd_err rnd_err rnd_err rnd_inv_err rnd_inv_err rnd_inv_err assms(4)])
  note k = clamp_factor [OF assms(4) nd(1)]
  note c = component_le_n3 [where x = "l0 - a0" and y = "l1 - a1" and z = "l2 - a2"]
  obtain t0 where t0: "fadd F64 (Fin a0) (fmul F64 (Fin ?o0) (Fin (rnd_real F64 (50 / d)))) = Fin t0"
    "\<bar>t0 - (a0 + 50 / ?D * (l0 - a0))\<bar> \<le> 1 / 10 ^ 10 + uu * span avatar"
    using clamped_component [OF rnd_err c(1) assms(4) D k(2-4) a(2) ob(1) se(1)] by blast
  obtain t1 where t1: "fadd F64 (Fin a1) (fmul F64 (Fin ?o1) (Fin (rnd_real F64 (50 / d)))) = Fin t1"
    "\<bar>t1 - (a1 + 50 / ?D * (l1 - a1))\<bar> \<le> 1 / 10 ^ 10 + uu * span avatar"
    using clamped_component [OF rnd_err c(2) assms(4) D k(2-4) a(3) ob(2) se(2)] by blast
  obtain t2 where t2: "fadd F64 (Fin a2) (fmul F64 (Fin ?o2) (Fin (rnd_real F64 (50 / d)))) = Fin t2"
    "\<bar>t2 - (a2 + 50 / ?D * (l2 - a2))\<bar> \<le> 1 / 10 ^ 10 + uu * span avatar"
    using clamped_component [OF rnd_err c(3) assms(4) D k(2-4) a(4) ob(3) se(3)] by blast
  have "fp_le (Fin d) MAX_AUDIO_DIST = False" "fp_eq (Fin d) (Fin 0) = False"
    using assms(4) by (auto simp: MAX_AUDIO_DIST_def fp_eq_def)
  then have "tether listener avatar = (Fin t0, Fin t1, Fin t2)"
    by (simp only: tether_def off [unfolded a(1)] n Let_def if_False simp_thms a(1) prod.case k(1) t0(1) t1(1) t2(1))
  then show ?thesis using t0(2) t1(2) t2(2) by (simp only: at_50_def l(1) a(1) prod.case fp.case Let_def simp_thms)
qed

text \<open>C19. A listening position stays within 50 m of the avatar: whatever finite position the viewer claims for
  its ear, the tethered position is finite and its distance from the avatar is at most 50 m plus rounding
  (\<open>10^-12\<close> m and \<open>3 * 2^-53\<close> of the avatar's own coordinates). A claim whose computed distance is at most
  50 m is left as it is; a claim further away, with a finite computed distance, becomes the point 50 m from
  the avatar in the direction of the claim, to within \<open>10^-10\<close> m per axis and \<open>2^-53\<close> of the avatar's
  coordinates.\<close>

theorem tether_near:
  assumes "ear_ok listener" "vec3_ok avatar"
  shows "near (50 + 1 / 10 ^ 12 + 3 * uu * span avatar) (tether listener avatar) avatar \<and> ear_ok (tether listener avatar) \<and>
    (fp_le (v3_norm (v3_sub listener avatar)) (Fin 50) \<longrightarrow> tether listener avatar = listener) \<and>
    (\<forall>d. v3_norm (v3_sub listener avatar) = Fin d \<longrightarrow> 50 < d \<longrightarrow>
       at_50 (1 / 10 ^ 10 + uu * span avatar) listener avatar (tether listener avatar))"
  using tether_bound [OF assms] tether_direction [OF assms] by (simp add: tether_def MAX_AUDIO_DIST_def Let_def)

lemma tether_near_witness:
  "near (50 + 1 / 10 ^ 12 + 3 * (1 / 9007199254740992) * span (Fin 1, Fin 2, Fin 3))
     (tether (Fin 1000, Fin 0, Fin 0) (Fin 1, Fin 2, Fin 3)) (Fin 1, Fin 2, Fin 3)"
proof -
  have "(1000::real) \<le> 2 ^ 100" by simp
  then have "(1000::real) \<le> coord_bound" using coord_bound_big by (rule order_trans)
  then have "ear_ok (Fin 1000, Fin 0, Fin 0)" "vec3_ok (Fin 1, Fin 2, Fin 3)"
    by (auto simp: ear_ok_iff vec3_ok_iff)
  from tether_near [OF this] show ?thesis by blast
qed

section \<open>The pan weights\<close>

lemma angle_quarter:
  assumes "fbetween (- 1) 1 l"
  shows "fbetween 0 (2 * quarter) (fmul F64 (fadd F64 l (Fin 1)) FRAC_PI_4)"
  using assms repr_half_turn by (intro angle_side [of "- 1" 1]) simp_all

lemma weight_range:
  fixes w c :: real
  assumes "\<bar>w - c\<bar> \<le> 1 / 2 ^ 21" "- 5 / 10 ^ 6 \<le> c" "c \<le> 1"
  shows "- 1 / 10 ^ 5 \<le> w" "w \<le> 1 + 1 / 10 ^ 5"
  using abs_le_D1 [OF assms(1)] abs_le_D2 [OF assms(1)] assms(2,3) by simp_all

text \<open>C18. Panning is constant power: for a speaker in range and a listener whose reported rotation
  is not astronomically large (components up to \<open>2^200\<close>; it need not be a unit quaternion), both
  weights are finite numbers between 0 and 1 within \<open>10^-5\<close>, and the sum of their squares is 1 within
  \<open>3 * 10^-6\<close>.\<close>

theorem pan_constant_power:
  assumes "libm_ok L" "ear_ok l" "vec3_ok s" "mag4 200 q" "fp_lt (v3_norm (v3_sub s l)) MAX_DISTANCE"
  shows "\<exists>wl wr. pan_weights L s l q = (Fin wl, Fin wr) \<and> \<bar>wl\<^sup>2 + wr\<^sup>2 - 1\<bar> \<le> 3 / 10 ^ 6 \<and>
    - 1 / 10 ^ 5 \<le> wl \<and> wl \<le> 1 + 1 / 10 ^ 5 \<and> - 1 / 10 ^ 5 \<le> wr \<and> wr \<le> 1 + 1 / 10 ^ 5"
proof -
  obtain x y z where w: "world_to_local (v3_sub s l) q = (x, y, z)" "mag 412 x" "mag 412 y"
    using world_to_local_mag [OF near_mag [OF assms(2,3,5)] assms(4)]
    by (cases "world_to_local (v3_sub s l) q") (auto simp: mag3_def)
  obtain t where t: "fmul F64 (fadd F64 (lateral_of x y) (Fin 1)) FRAC_PI_4 = Fin t" "0 \<le> t" "t \<le> 2 * quarter"
    using angle_quarter [OF lateral_range [OF w(2,3)]] by (elim fbetweenE)
  then have "t \<le> 2" by simp
  then obtain wl wr where p: "pan_weights L s l q = (Fin wl, Fin wr)" "\<bar>wl - cos t\<bar> \<le> 1 / 2 ^ 21" "\<bar>wr - sin t\<bar> \<le> 1 / 2 ^ 21"
    using pan_angle [OF assms(1) w(1) t(1,2)] by blast
  have "0 \<le> sin t" using t(2,3) abs_le_D1 [OF quarter_near] pi_ge_two by (intro sin_ge_zero) auto
  then have "- 5 / 10 ^ 6 \<le> sin t" by (rule order_trans [rotated]) simp
  then show ?thesis
    using pan_power [OF assms] p(1) weight_range [OF p(2) cos_barely_negative [OF t(2,3)] cos_le_one]
      weight_range [OF p(3) _ sin_le_one] by simp
qed

lemma pan_constant_power_witness:
  "\<exists>wl wr. pan_weights exact_libm (Fin 10, Fin 0, Fin 0) (Fin 0, Fin 0, Fin 0) (Fin 0, Fin 0, Fin 0, Fin 1) = (Fin wl, Fin wr)
     \<and> \<bar>wl\<^sup>2 + wr\<^sup>2 - 1\<bar> \<le> 3 / 10 ^ 6 \<and> - 1 / 10 ^ 5 \<le> wl \<and> wl \<le> 1 + 1 / 10 ^ 5 \<and> - 1 / 10 ^ 5 \<le> wr \<and> wr \<le> 1 + 1 / 10 ^ 5"
proof (rule pan_constant_power [OF exact_libm_ok])
  have "(10::real) \<le> 2 ^ 100" by simp
  then have "(10::real) \<le> coord_bound" using coord_bound_big by (rule order_trans)
  then show "ear_ok (Fin 0, Fin 0, Fin 0)" "vec3_ok (Fin 10, Fin 0, Fin 0)" by (auto simp: ear_ok_iff vec3_ok_iff)
  have "pow2 0 \<le> pow2 200" by (rule pow2_mono) simp
  then show "mag4 200 (Fin 0, Fin 0, Fin 0, Fin 1)" by (simp add: mag4_def)
  show "fp_lt (v3_norm (v3_sub (Fin 10, Fin 0, Fin 0) (Fin 0, Fin 0, Fin 0))) MAX_DISTANCE"
    by (simp add: v3_sub_def fsub_def rnd_repr v3_norm_ten MAX_DISTANCE_def)
qed

end
