(* ===== verification/Spec2Isabelle.thy ===== *)
theory Spec2Isabelle
  imports Server Interleaving Connections Wire Listener_Tasks Load_Test Room_Tests Spatial_Audio
begin

text \<open>
  WolfVoice: a spatial voice service for OpenSimulator regions. A region posts its viewers' requests to the
  service as JSON-RPC over HTTPS; the service answers a viewer's SDP offer, ends its WebRTC connection, and
  every 20 ms mixes for each listener of each room one stereo stream of the others, with distance, panning,
  gains and mutes, and sends it as Opus together with a roster of who joined and left.

  \<^bold>\<open>The parts and the theories.\<close> Sources are named under \<open>src/\<close>; a definition bears the name of the function or
  type it models, with the type's name in front of a method's where two would clash.

  \<^item> Prelude, Rust_Str, Ieee, Serde_Value: what the program uses of its language and libraries. Hash maps
    with their laws (the locales \<open>kv_lookup\<close> and \<open>kv_map\<close>, interpreted on them and on the sorted map of a JSON
    object), results and options, the operations on strings (byte strings in UTF-8), binary floating point
    with rounding to nearest even (the locale \<open>rounding\<close>), and the value type of the JSON library.
  \<^item> Logctl and Civil model \<open>src/logctl.rs\<close>: the two atomics, their parsers and setters, the filter and line of
    the logger, and the calendar arithmetic of the timestamp.
  \<^item> Proto models \<open>src/proto.rs\<close>: the envelope, the capability bodies, the data-channel messages, the roster.
  \<^item> Mixer models \<open>src/mixer.rs\<close>: distance gain, tether, rotation, panning, level meter, sum and soft clip.
  \<^item> Room models \<open>src/room.rs\<close>. A session is the record \<open>session\<close>; sessions are shared objects, so they live in
    a store from addresses (\<open>arc\<close>) to records, and the registry's two indices hold addresses. The jitter
    buffer implements the interface \<open>drop_oldest\<close>. \<open>mix_room\<close> is one tick of one room.
  \<^item> Transport models \<open>src/session.rs\<close>: port pool, endpoint, the handlers of its events, and \<open>establish\<close>, the
    chain of calls that brings a connection up.
  \<^item> Connections: the tasks the handler of \<open>src/session.rs\<close> spawns for one connection, interleaved.
  \<^item> App models \<open>src/main.rs\<close>: the record \<open>app\<close> is the state shared by all handlers; \<open>provision\<close>, \<open>signaling\<close>,
    \<open>drop_session\<close>, the HTTP front, the admin interface and the mixer loop are functions on it. What leaves
    the program (texts, packets, candidates, closed connections) is appended to its trace. \<open>reachable\<close> are
    the states that requests, ticks, room tasks, control messages, frames and connection events lead to when each
    runs to its end before the next begins.
  \<^item> Interleaving: the same handlers cut at their locks, as a step relation (\<open>mstep\<close>) with one slot per
    request in progress and one socket per media port, and the mixer loop with its outstanding tasks (\<open>sched\<close>).
  \<^item> Delivery: from the tick to the wire, what each listener is sent (\<open>sent\<close>) and the way of one frame.
  \<^item> Listener_Tasks: the tasks spawned for the listeners of a room, interleaved step by step (\<open>tasks_step\<close>).
  \<^item> Two_Clients models \<open>examples/two_clients.rs\<close>, the end-to-end test: the client's side of the protocol,
    composed with the service.
  \<^item> Load_Test models the clients of \<open>examples/load_test.rs\<close>, the load generator, and where the service places
    them.
  \<^item> Server: start-up (\<open>main_start\<close>) and the two accept loops of \<open>src/main.rs\<close>: which connections are handed to
    the HTTP library, whose service is \<open>handle\<close> or \<open>admin_handle\<close>.
  \<^item> Wire: the types of the texts and replies the service emits (\<open>conforms\<close>).
  \<^item> Stereo_Image, Spatial_Audio: what the rounded arithmetic of the mixer computes against its formulas over the
    reals: from the rotation to the sides a listener hears, the attenuation line, the clamped ear, the weights.
  \<^item> Unit_Tests, Mixer_Tests, Room_Tests: the unit tests of \<open>src/proto.rs\<close>, \<open>src/session.rs\<close>, \<open>src/mixer.rs\<close> and
    \<open>src/room.rs\<close>, each a Boolean on the model that carries the test's name.

  \<^bold>\<open>How they interact.\<close> A request is read by \<open>handle\<close>, parsed, and dispatched to \<open>provision\<close> or \<open>signaling\<close>.
  \<open>provision\<close> tears down a session it replaces (\<open>drop_session\<close>, which notifies the room), takes a port, calls
  \<open>establish\<close>, and enters the endpoint and the session into their maps. Data-channel messages reach a session
  through \<open>channel_loop\<close> and \<open>apply_data\<close>, decoded frames through \<open>on_packet\<close> and \<open>push_frame\<close>. \<open>mixer_tick\<close>
  reaps closed sessions, drains lone participants and spawns one \<open>room_task\<close> per room, which runs \<open>mix_room\<close>
  and \<open>deliver\<close> to each listener.

  \<^bold>\<open>What the lemmas show.\<close> State: with handlers that run one after the other, every reachable state keeps the
  registry's indices, the endpoint map, the session limit, the jitter bound and the session bounds
  (\<open>service_invariant\<close>); the indices agree at every micro-step too (\<open>indices_at_every_step\<close>), while the session
  limit and the endpoint of every session do not survive interleaving (\<open>ceiling_overrun\<close>, \<open>ghost_session\<close>). Requests: always answered, identity from the
  region alone, the body limit, exact acceptance of bodies and settings. Bring-up: all or nothing, and it
  returns. Mixing: totality, one frame each, who is heard, bounds of every sample, panning, tether, gain and
  meter over rounded arithmetic, the sum against its per-sample specification. Delivery: tasks never overlap,
  every schedule of the listeners' tasks has the same outcome, clocks advance by 960, a voice gets through, while
  a join can be lost before a channel opens (\<open>join_before_channel_lost\<close>). Control: what the parsers
  accept, and that no sequence of messages breaks a session, however channels and tracks interleave; that a
  channel's end can silence a later one (\<open>slot_tracks_channel\<close>). Exchange: what a client provisions, announces
  and is told on a departure, and that the test's verdict is earned. Server: a start that cannot succeed fails
  with its first error. Wire:
  what is emitted has the type its reader expects. Tests: every unit test of the repository passes. Load
  generator: which of its clients hear one another.

  \<^bold>\<open>Parameters.\<close> The WebRTC stack is the record \<open>rtc\<close> (for the client \<open>client_rtc\<close>): the result of each call
  and the polls at which gathering is done. The Opus encoder and decoder are functions on a state of their
  own; sine, cosine and hyperbolic tangent are the record \<open>libm\<close>, with the bounds a theorem needs as its
  hypotheses; the JSON printer and parser, the debug rendering of strings, the fresh identifier and the clock
  are arguments. Theorems with hypotheses on them have a witness with concrete functions.

  \<^bold>\<open>Bounds and termination.\<close> No fuel is used for a bound of the code. The one loop that waits, for ICE
  gathering (\<open>gather_wait\<close>), returns \<open>None\<close> when it never ends; when each poll takes at least its 20 ms it ends
  within 125 polls, the 2.5 s deadline, and so \<open>establish\<close>, \<open>provision\<close> and every request return. Machine
  integers keep their widths (ports, counters, payload types, timestamps). The calendar result is stated for
  the years 1970 to 9999, the position bounds for coordinates up to \<open>coord_bound\<close>, which the parser guarantees.

  \<^bold>\<open>Concurrency.\<close> Interleaving cuts the handlers where locks are released and keeps each locked section atomic;
  the network calls inside bring-up are steps of their own. The handlers' per-session locks are taken as
  atomic updates, as in \<open>reachable\<close>. A room's task serves its listeners in order (\<open>room_task\<close>); that every
  interleaving of the tasks the code spawns for them ends alike is \<open>listeners_independent\<close>, and that the tasks
  of rooms share no session is \<open>tasks_never_overlap\<close>.

  \<^bold>\<open>Not modelled.\<close> Sockets and the TLS handshake, which are events of the accept loops; how the HTTP library reads
  requests from a connection and writes the responses back; log lines
  other than the speaking transitions, whose text has no effect; the installation of the logger; arguments,
  environment, waits and console output of the two harnesses, and the load generator's reading of \<open>/proc\<close>; the
  JavaScript client, the installation script and the unit files. The WebRTC, codec, HTTP and JSON crates are
  parameters, as their code is not part of the repository.
\<close>

section \<open>The repository's own tests\<close>

text \<open>C14. Every unit test of the service passes on the model: the eight of \<open>src/proto.rs\<close>, for every parser that
  reads their literals as the values these denote and every compact printer; the five of \<open>src/session.rs\<close>, that
  of the random identifiers for every start and every clock; the seven of \<open>src/mixer.rs\<close> and the eleven of
  \<open>src/room.rs\<close>, in the arithmetic of the code, with every accurate mathematics library and every logging
  setting. So the model meets each expectation its authors wrote down.\<close>

theorem unit_tests_pass:
  assumes "json_reads from_str" "json_prints ser" "libm_ok L"
  shows "(parses_position_update_as_metres from_str \<and> parses_join_without_primary_flag from_str \<and>
      parses_gain_and_mute_maps from_str \<and> provision_parse_rejects_non_webrtc dbg from_str \<and>
      provision_parse_reads_offer_and_channel dbg from_str \<and> signaling_parse_handles_both_shapes from_str \<and>
      leave_notice_uses_the_l_flag ser \<and> roster_uses_viewer_field_names ser) \<and>
    (reads_negotiated_opus_payload_type \<and> ignores_non_opus_rtpmaps \<and> payload_type_lookup_is_case_insensitive \<and>
      port_pool_stays_inside_the_firewalled_range \<and> ssrc_is_never_zero counter nanos) \<and>
    (distance_gain_matches_documented_range \<and> tether_clamps_beyond_fifty_metres \<and>
      pan_puts_east_speaker_on_the_right_of_a_north_facing_listener L \<and> pan_is_constant_power L \<and>
      straight_ahead_is_centred L \<and> mix_writes_interleaved_stereo_and_soft_clips L \<and> silent_frame_reports_zero_level) \<and>
    (listener_never_hears_themselves L c ser \<and> nearby_speaker_is_audible_and_distant_one_is_not L c ser \<and>
      each_listener_gets_its_own_mix L c ser \<and> per_listener_mute_and_gain_are_respected L c ser \<and>
      position_unknown_speakers_are_not_placed_at_the_origin L c ser \<and> roster_announces_a_join_once L c ser \<and>
      silent_room_produces_no_roster_traffic L c ser \<and> removing_a_session_drops_its_room_entry \<and>
      jitter_buffer_drops_oldest_rather_than_growing \<and> gain_conversion_uses_the_viewer_factor \<and>
      tether_is_reapplied_server_side)"
  using protocol_and_endpoint_tests [OF assms(1,2)] mixer_tests [OF assms(3)] room_tests [OF assms(3,2)] by blast

lemma unit_tests_pass_witness:
  "provision_parse_reads_offer_and_channel (\<lambda>s. s) literal_reader \<and> pan_is_constant_power exact_libm \<and>
   roster_announces_a_join_once exact_libm logctl_init compact"
  using unit_tests_pass [OF literal_reader_reads compact_prints exact_libm_ok] by blast

end
